(* ===== verification/Prelude.thy ===== *)
theory Prelude
  imports Main "HOL-Library.Word"
begin

text \<open>
  The vocabulary the component theories share: the widths of the machine
  integers, text and binary data, and the generic facts about words and lists
  that the components need.

  Text (header names, urls, paths) is a HOL \<^typ>\<open>string\<close>, that is a list of
  8-bit characters; binary data (frames, digests) is a list of 8-bit words.  The
  cast \<^verbatim>\<open>uint8_t(c)\<close> of the C++ code is \<open>u8\<close> below.
\<close>

unbundle bit_operations_syntax

type_synonym uint8 = "8 word"
type_synonym uint16 = "16 word"
type_synonym uint32 = "32 word"
type_synonym uint64 = "64 word"
type_synonym bytes = "8 word list"

named_theorems framing \<open>facts of the form: an operation leaves a part of the state alone\<close>
named_theorems word_arith \<open>conversions from word inequalities to natural numbers\<close>

definition u8 :: "char \<Rightarrow> uint8" where
  "u8 c = of_char c"

text \<open>The CR and LF characters, and the line terminator of the HTTP grammar.\<close>

abbreviation CR :: char where "CR \<equiv> CHR 0x0D"
abbreviation LF :: char where "LF \<equiv> CHR 0x0A"
abbreviation CRLF :: string where "CRLF \<equiv> [CR, LF]"

subsection \<open>Bytes and words\<close>

lemma unat_word_less: "unat (w :: 'a::len word) < 2 ^ LENGTH('a)"
  by (fact unsigned_less)

lemma unat_ucast_self:
  assumes "unat (w :: 'a::len word) < 2 ^ LENGTH('b::len)"
  shows "unat (ucast w :: 'b word) = unat w"
  using assms by (simp add: unsigned_ucast_eq unsigned_take_bit_eq take_bit_nat_eq_self)

lemma unat_add_small:
  "unat (a :: 'a::len word) + n < 2 ^ LENGTH('a) \<Longrightarrow> unat (a + of_nat n) = unat a + n"
  by (simp add: unat_word_ariths unsigned_of_nat take_bit_nat_eq_self)

lemma unat_of_nat_small: "n < 2 ^ LENGTH('a::len) \<Longrightarrow> unat (of_nat n :: 'a word) = n"
  by (simp add: unsigned_of_nat take_bit_nat_eq_self)

lemma of_nat_word_zero: "n < 2 ^ LENGTH('a::len) \<Longrightarrow> (of_nat n :: 'a word) = 0 \<longleftrightarrow> n = 0"
  by (simp add: word_unat_eq_iff unsigned_of_nat take_bit_nat_eq_self)

lemma unat_u8: "unat (u8 c) = of_char c"
proof -
  have "u8 c = of_nat (of_char c)" by (simp add: u8_def of_nat_of_char)
  then show ?thesis
    by (simp add: unsigned_of_nat take_bit_nat_eq_self)
qed

lemma take_bit_word_self:
  assumes "unat (w :: 'a::len word) < 2 ^ n"
  shows "take_bit n w = w"
proof -
  have "unat (take_bit n w) = unat w"
    by (simp only: unsigned_take_bit_eq) (use assms in \<open>simp add: take_bit_nat_eq_self\<close>)
  then show ?thesis by (simp only: word_unat_eq_iff)
qed

text \<open>
  \<^verbatim>\<open>memcpy\<close> of bytes into a zeroed 64-bit word of a little-endian machine.
\<close>

primrec le64 :: "bytes \<Rightarrow> uint64" where
  "le64 [] = 0"
| "le64 (b # bs) = ucast b OR push_bit 8 (le64 bs)"

lemma bit_le64:
  assumes "length bs \<le> 8"
  shows "bit (le64 bs) i \<longleftrightarrow> i div 8 < length bs \<and> bit (bs ! (i div 8)) (i mod 8)"
  using assms
proof (induction bs arbitrary: i)
  case (Cons b bs)
  show ?case
  proof (cases "i < 8")
    case True
    then show ?thesis by (simp add: bit_or_iff bit_push_bit_iff bit_ucast_iff)
  next
    case False
    have d: "i div 8 = Suc ((i - 8) div 8)" "i mod 8 = (i - 8) mod 8"
      using False by (simp_all add: le_div_geq le_mod_geq)
    have "(i - 8) div 8 < length bs \<Longrightarrow> i < 64"
      using Cons.prems False by auto
    then show ?thesis
      using False Cons.IH[of "i - 8"] Cons.prems
      by (auto simp: bit_or_iff bit_push_bit_iff bit_ucast_iff d dest: bit_imp_le_length)
  qed
qed simp

lemma le64_inj:
  assumes "le64 xs = le64 ys" "length xs = length ys" "length xs \<le> 8"
  shows "xs = ys"
proof (rule nth_equalityI)
  fix k assume k: "k < length xs"
  show "xs ! k = ys ! k"
  proof (rule bit_word_eqI)
    fix j assume "j < LENGTH(8)"
    then show "bit (xs ! k) j = bit (ys ! k) j"
      using k assms bit_le64[of xs "8 * k + j"] bit_le64[of ys "8 * k + j"] by simp
  qed
qed (use assms in simp)

lemma le64_append:
  "le64 (xs @ [b]) = le64 xs OR push_bit (8 * length xs) (ucast b)"
  by (induction xs) (simp_all add: or.assoc)

subsection \<open>Searching in views\<close>

text \<open>
  \<^verbatim>\<open>std::string_view\<close>: \<open>substr\<close>, the position of the first and of the last
  element with a property (\<^verbatim>\<open>find\<close>, \<^verbatim>\<open>find_first_of\<close>, \<^verbatim>\<open>rfind\<close>) and of the first
  occurrence of a substring; \<^verbatim>\<open>npos\<close> is \<open>None\<close>.
\<close>

definition substr :: "'a list \<Rightarrow> nat \<Rightarrow> nat \<Rightarrow> 'a list" where
  "substr s off n = take n (drop off s)"

fun find_pos :: "('a \<Rightarrow> bool) \<Rightarrow> 'a list \<Rightarrow> nat option" where
  "find_pos P [] = None"
| "find_pos P (x # xs) = (if P x then Some 0 else map_option Suc (find_pos P xs))"

fun rfind_pos :: "('a \<Rightarrow> bool) \<Rightarrow> 'a list \<Rightarrow> nat option" where
  "rfind_pos P [] = None"
| "rfind_pos P (x # xs) =
    (case rfind_pos P xs of Some i \<Rightarrow> Some (Suc i) | None \<Rightarrow> if P x then Some 0 else None)"

fun find_sub :: "'a list \<Rightarrow> 'a list \<Rightarrow> nat option" where
  "find_sub pat [] = (if pat = [] then Some 0 else None)"
| "find_sub pat (x # xs) =
    (if take (length pat) (x # xs) = pat then Some 0 else map_option Suc (find_sub pat xs))"

lemma find_pos_None: "find_pos P xs = None \<longleftrightarrow> (\<forall>x \<in> set xs. \<not> P x)"
  by (induction xs) auto

lemma rfind_pos_None: "rfind_pos P xs = None \<longleftrightarrow> (\<forall>x \<in> set xs. \<not> P x)"
  by (induction xs) (auto split: option.splits)

lemma find_pos_bound: "find_pos P xs = Some i \<Longrightarrow> i < length xs"
  by (induction xs arbitrary: i) (auto split: if_splits)

lemma find_pos_nth: "find_pos P xs = Some i \<Longrightarrow> P (xs ! i)"
  by (induction xs arbitrary: i) (auto split: if_splits)

lemma find_pos_here:
  "\<forall>y \<in> set pre. \<not> P y \<Longrightarrow> P x \<Longrightarrow> find_pos P (pre @ x # post) = Some (length pre)"
  by (induction pre) auto

lemma find_pos_split:
  "find_pos P xs = Some i \<Longrightarrow>
    \<exists>pre x post. xs = pre @ x # post \<and> length pre = i \<and> P x \<and> (\<forall>y \<in> set pre. \<not> P y)"
proof (induction xs arbitrary: i)
  case (Cons a xs)
  show ?case
  proof (cases "P a")
    case True
    then show ?thesis using Cons.prems by (intro exI[of _ "[]"]) simp
  next
    case False
    then obtain j where j: "i = Suc j" "find_pos P xs = Some j" using Cons.prems by auto
    obtain pre x post where "xs = pre @ x # post" "length pre = j" "P x" "\<forall>y \<in> set pre. \<not> P y"
      using Cons.IH[OF j(2)] by blast
    then show ?thesis using False j by (intro exI[of _ "a # pre"]) simp
  qed
qed simp

lemma find_char_split:
  assumes "find_pos ((=) c) xs = Some i"
  shows "\<exists>pre post. xs = pre @ c # post \<and> length pre = i \<and> c \<notin> set pre"
  using find_pos_split[OF assms] by blast

lemma rfind_pos_here:
  "\<forall>y \<in> set post. \<not> P y \<Longrightarrow> P x \<Longrightarrow> rfind_pos P (pre @ x # post) = Some (length pre)"
proof (induction pre)
  case Nil
  then have "rfind_pos P post = None" by (simp add: rfind_pos_None)
  then show ?case using Nil by simp
qed simp

lemma rfind_pos_split:
  "rfind_pos P xs = Some i \<Longrightarrow>
    \<exists>pre x post. xs = pre @ x # post \<and> length pre = i \<and> P x \<and> (\<forall>y \<in> set post. \<not> P y)"
proof (induction xs arbitrary: i)
  case (Cons a xs)
  show ?case
  proof (cases "rfind_pos P xs")
    case None
    moreover have "P a" "i = 0"
      using None Cons.prems by (auto split: if_splits)
    ultimately have "P a" "i = 0" "\<forall>y \<in> set xs. \<not> P y" by (auto simp: rfind_pos_None)
    then show ?thesis by (intro exI[of _ "[]"]) simp
  next
    case (Some j)
    then obtain pre x post where "xs = pre @ x # post" "length pre = j" "P x" "\<forall>y \<in> set post. \<not> P y"
      using Cons.IH by blast
    then show ?thesis using Some Cons.prems by (intro exI[of _ "a # pre"]) simp
  qed
qed simp

lemma find_sub_split:
  "find_sub pat xs = Some i \<Longrightarrow> \<exists>pre post. xs = pre @ pat @ post \<and> length pre = i"
proof (induction xs arbitrary: i)
  case (Cons x xs)
  show ?case
  proof (cases "take (length pat) (x # xs) = pat")
    case True
    then have "x # xs = pat @ drop (length pat) (x # xs)"
      by (metis append_take_drop_id)
    moreover have "i = 0" using Cons.prems True by simp
    ultimately show ?thesis by (intro exI[of _ "[]"] exI) simp
  next
    case False
    then obtain j where "i = Suc j" "find_sub pat xs = Some j" using Cons.prems by auto
    with Cons.IH obtain pre post where "xs = pre @ pat @ post" "length pre = j" by blast
    then have "x # xs = (x # pre) @ pat @ post \<and> length (x # pre) = i" using \<open>i = Suc j\<close> by simp
    then show ?thesis by blast
  qed
qed (simp split: if_splits)

text \<open>The first occurrence of a pattern is at the end of a prefix without its first character.\<close>

lemma find_sub_here:
  assumes "p \<notin> set pre"
  shows "find_sub (p # pat) (pre @ (p # pat) @ post) = Some (length pre)"
  using assms by (induction pre) auto

lemma find_sub_None:
  "find_sub pat xs = None \<Longrightarrow> xs \<noteq> pre @ pat @ post"
proof (induction xs arbitrary: pre)
  case (Cons x xs)
  then have "take (length pat) (x # xs) \<noteq> pat" "find_sub pat xs = None"
    by (auto split: if_splits)
  with Cons.IH show ?case by (cases pre) auto
qed (simp split: if_splits)

text \<open>Positions in a ring of \<open>2 ^ k\<close> slots: within one lap, different counts are different positions.\<close>

lemma mod_apart:
  assumes "m \<le> n" "n < m + 2 ^ k"
  shows "m mod 2 ^ k = n mod 2 ^ k \<longleftrightarrow> m = (n :: nat)"
proof
  assume "m mod 2 ^ k = n mod 2 ^ k"
  then have "2 ^ k dvd n - m" using assms(1) by (metis mod_eq_dvd_iff_nat)
  then have "2 ^ k \<le> n - m \<or> n - m = 0" using dvd_imp_le[of "2 ^ k" "n - m"] by blast
  then show "m = n" using assms by auto
qed simp

end
