(* ===== verification/Errors.thy ===== *)
theory Errors
  imports Prelude
begin

text \<open>
  Error values (\<^verbatim>\<open>include/cornet/base/expected.h\<close>): an error is a code in a
  domain, and a fallible operation returns a sum whose left side is the error,
  which is \<^verbatim>\<open>expected<T>\<close> of the source.  The registration of external error
  domains is modelled with its bounded table.
\<close>

text \<open>
  \<^verbatim>\<open>error_domain\<close> is an 8-bit enumeration; the values from 64 on are given
  out by \<open>register_error_domain\<close> and are \<open>External i\<close> here, for the value
  \<^verbatim>\<open>64 + i\<close>.
\<close>

datatype error_domain =
    DomNone | System | Resolve | Internal | Exception | Http | Tls | Websocket
  | External nat

record error_t =
  code :: int
  domain :: error_domain

type_synonym 'a expected = "error_t + 'a"

definition error_code :: "int \<Rightarrow> error_domain \<Rightarrow> error_t" where
  "error_code c d = \<lparr>code = c, domain = d\<rparr>"

definition error_truthy :: "error_t \<Rightarrow> bool" where
  "error_truthy e \<longleftrightarrow> domain e \<noteq> DomNone"

definition unexpected :: "int \<Rightarrow> error_domain \<Rightarrow> 'a expected" where
  "unexpected c d = Inl (error_code c d)"

text \<open>The errno values the code returns, and an error of the default domain.\<close>

abbreviation EAGAIN :: int where "EAGAIN \<equiv> 11"
abbreviation ENOMEM :: int where "ENOMEM \<equiv> 12"
abbreviation EINVAL :: int where "EINVAL \<equiv> 22"
abbreviation EPIPE :: int where "EPIPE \<equiv> 32"
abbreviation ECONNRESET :: int where "ECONNRESET \<equiv> 104"
abbreviation ETIMEDOUT :: int where "ETIMEDOUT \<equiv> 110"
abbreviation ECANCELED :: int where "ECANCELED \<equiv> 125"

definition sys_unexpected :: "int \<Rightarrow> 'a expected" where
  "sys_unexpected c = unexpected c System"

text \<open>The table of external domains: its slots and the registration counter.\<close>

definition kMaxExternalDomains :: nat where
  "kMaxExternalDomains = 256 - 64"

type_synonym message_fn = "int \<Rightarrow> string"

record domain_table =
  dt_slots :: "nat \<Rightarrow> message_fn option"
  dt_count :: nat

definition empty_domain_table :: domain_table where
  "empty_domain_table = \<lparr>dt_slots = (\<lambda>_. None), dt_count = 0\<rparr>"

definition register_error_domain :: "message_fn \<Rightarrow> domain_table \<Rightarrow> error_domain \<times> domain_table" where
  "register_error_domain fn t =
    (let idx = dt_count t; t = t\<lparr>dt_count := idx + 1\<rparr> in
     if idx \<ge> kMaxExternalDomains then (External 0, t)
     else (External idx, t\<lparr>dt_slots := (dt_slots t)(idx := Some fn)\<rparr>))"

fun external_message_resolver :: "domain_table \<Rightarrow> error_domain \<Rightarrow> message_fn option" where
  "external_message_resolver t (External idx) =
    (if idx \<ge> kMaxExternalDomains then None else dt_slots t idx)"
| "external_message_resolver t _ = None"

text \<open>
  \<^verbatim>\<open>error_t::message\<close>.  The renderers of the system library and of the
  modules are parameters: \<open>strerror\<close>, \<open>gai_strerror\<close> and the three
  module resolvers, each of which may be unset.
\<close>

record resolvers =
  strerror :: message_fn
  gai_strerror :: message_fn
  http_message_resolver :: "message_fn option"
  tls_message_resolver :: "message_fn option"
  websocket_message_resolver :: "message_fn option"
  externals :: domain_table

definition resolve_or :: "message_fn option \<Rightarrow> int \<Rightarrow> string \<Rightarrow> string" where
  "resolve_or fn c fallback = (case fn of Some g \<Rightarrow> g c | None \<Rightarrow> fallback)"

definition message :: "resolvers \<Rightarrow> error_t \<Rightarrow> string" where
  "message r e = (case domain e of
      System \<Rightarrow> strerror r (code e)
    | Resolve \<Rightarrow> gai_strerror r (code e)
    | Internal \<Rightarrow> ''internal error''
    | Exception \<Rightarrow> ''unexpected exception in coroutine''
    | Http \<Rightarrow> resolve_or (http_message_resolver r) (code e) ''http protocol error''
    | Tls \<Rightarrow> resolve_or (tls_message_resolver r) (code e) ''tls error''
    | Websocket \<Rightarrow> resolve_or (websocket_message_resolver r) (code e) ''websocket error''
    | External i \<Rightarrow>
        resolve_or (external_message_resolver (externals r) (External i)) (code e)
          ''external domain error''
    | DomNone \<Rightarrow> ''no error'')"

text \<open>Sequencing of fallible operations: the early return on an error.\<close>

definition and_then :: "'a expected \<Rightarrow> ('a \<Rightarrow> 'b expected) \<Rightarrow> 'b expected" where
  "and_then x f = (case x of Inl e \<Rightarrow> Inl e | Inr a \<Rightarrow> f a)"

lemma sys_unexpected_Inl [simp]: "sys_unexpected c = Inl \<lparr>code = c, domain = System\<rparr>"
  by (simp add: sys_unexpected_def unexpected_def error_code_def)

lemma and_then_simps [simp]:
  "and_then (Inl e) f = Inl e"
  "and_then (Inr a) f = f a"
  by (simp_all add: and_then_def)

lemma and_then_Inr_iff:
  "and_then x f = Inr b \<longleftrightarrow> (\<exists>a. x = Inr a \<and> f a = Inr b)"
  by (cases x) auto

text \<open>Registering: every module keeps the renderer it registered, as long as the table has room.\<close>

fun register_all :: "message_fn list \<Rightarrow> domain_table \<Rightarrow> error_domain list \<times> domain_table" where
  "register_all [] t = ([], t)"
| "register_all (f # fs) t =
    (let (d, t1) = register_error_domain f t; (ds, t2) = register_all fs t1 in (d # ds, t2))"

lemma register_keeps:
  assumes "i < dt_count t"
  shows "dt_slots (snd (register_all fs t)) i = dt_slots t i"
  using assms
proof (induction fs arbitrary: t)
  case (Cons f fs)
  let ?t1 = "snd (register_error_domain f t)"
  have "i < dt_count ?t1" "dt_slots ?t1 i = dt_slots t i"
    using Cons.prems by (auto simp: register_error_domain_def Let_def)
  then show ?case
    using Cons.IH[of ?t1] by (simp add: case_prod_unfold Let_def)
qed simp

lemma register_with_room:
  assumes "dt_count t < kMaxExternalDomains"
  shows "register_error_domain f t =
    (External (dt_count t), t\<lparr>dt_count := dt_count t + 1, dt_slots := (dt_slots t)(dt_count t := Some f)\<rparr>)"
  using assms by (simp add: register_error_domain_def Let_def)

lemma register_all_domains:
  assumes "dt_count t + length fs \<le> kMaxExternalDomains"
  shows "fst (register_all fs t) = map External [dt_count t ..< dt_count t + length fs]"
  using assms
proof (induction fs arbitrary: t)
  case (Cons f fs)
  let ?t1 = "snd (register_error_domain f t)"
  have "fst (register_all (f # fs) t) = External (dt_count t) # fst (register_all fs ?t1)"
    using Cons.prems by (simp add: register_with_room case_prod_unfold Let_def)
  also have "\<dots> = map External (dt_count t # [Suc (dt_count t) ..< Suc (dt_count t) + length fs])"
    using Cons.prems Cons.IH[of ?t1] by (simp add: register_with_room del: upt_Suc)
  also have "dt_count t # [Suc (dt_count t) ..< Suc (dt_count t) + length fs]
      = [dt_count t ..< dt_count t + length (f # fs)]"
    by (simp add: upt_rec[of "dt_count t"] del: upt_Suc)
  finally show ?case .
qed simp

lemma register_all_resolves:
  assumes "dt_count t + length fs \<le> kMaxExternalDomains" "k < length fs"
  shows "external_message_resolver (snd (register_all fs t)) (External (dt_count t + k)) = Some (fs ! k)"
  using assms
proof (induction fs arbitrary: t k)
  case (Cons f fs)
  let ?t1 = "t\<lparr>dt_count := dt_count t + 1, dt_slots := (dt_slots t)(dt_count t := Some f)\<rparr>"
  have r: "register_error_domain f t = (External (dt_count t), ?t1)"
    using Cons.prems by (simp add: register_with_room)
  show ?case
  proof (cases k)
    case 0
    then show ?thesis
      using Cons.prems register_keeps[of "dt_count t" ?t1 fs]
      by (simp add: r case_prod_unfold Let_def)
  next
    case (Suc j)
    then show ?thesis
      using Cons.prems Cons.IH[of ?t1 j] by (simp add: r case_prod_unfold Let_def)
  qed
qed simp

end
