(* ===== verification/Protocol.thy ===== *)
theory Protocol
  imports Errors
begin

text \<open>
  The HTTP vocabulary (\<^verbatim>\<open>include/cornet/http/common/protocol.h\<close> and
  \<^verbatim>\<open>src/http/common/protocol.cc\<close>): methods, versions, status codes, the
  well-known header fields and the errors of the HTTP domain, with the tables and
  the word-at-a-time (SWAR) recognition of header names.

  The lemmas relate the SWAR comparison to a comparison byte by byte, give the
  exact set of names that each field accepts, and characterise the status tables.
\<close>

subsection \<open>Enumerations\<close>

datatype method_t =
    Delete | Get | Head | Post | Put | Connect | Options | Trace | Patch | MethodUnknown

datatype version_t = Http10 | Http11 | VersionUnknown

text \<open>
  \<^verbatim>\<open>status_t\<close> is an enumeration over \<^verbatim>\<open>uint16_t\<close> that carries the wire
  value, and a client casts any received code into it, so it is a 16-bit word with
  named values.
\<close>

type_synonym status_t = uint16

abbreviation "status_Continue \<equiv> (100 :: status_t)"
abbreviation "status_SwitchingProtocols \<equiv> (101 :: status_t)"
abbreviation "status_Ok \<equiv> (200 :: status_t)"
abbreviation "status_NoContent \<equiv> (204 :: status_t)"
abbreviation "status_NotModified \<equiv> (304 :: status_t)"
abbreviation "status_BadRequest \<equiv> (400 :: status_t)"
abbreviation "status_NotFound \<equiv> (404 :: status_t)"
abbreviation "status_MethodNotAllowed \<equiv> (405 :: status_t)"
abbreviation "status_RequestTimeout \<equiv> (408 :: status_t)"
abbreviation "status_ContentTooLarge \<equiv> (413 :: status_t)"
abbreviation "status_UriTooLong \<equiv> (414 :: status_t)"
abbreviation "status_ExpectationFailed \<equiv> (417 :: status_t)"
abbreviation "status_RequestHeaderFieldsTooLarge \<equiv> (431 :: status_t)"
abbreviation "status_InternalServerError \<equiv> (500 :: status_t)"
abbreviation "status_NotImplemented \<equiv> (501 :: status_t)"
abbreviation "status_HttpVersionNotSupported \<equiv> (505 :: status_t)"

datatype field_t =
    Host | ContentLength | ContentType | TransferEncoding | Connection | Accept
  | AcceptEncoding | AcceptLanguage | UserAgent | Expect | Upgrade | Date | Server
  | Location | Cookie | SetCookie | Authorization | Referer | RangeField | IfNoneMatch
  | IfModifiedSince | ETag | CacheControl | Origin | Other

text \<open>The underlying value of an enumerator, which indexes the tables below.\<close>

fun field_index :: "field_t \<Rightarrow> nat" where
  "field_index Host = 0" | "field_index ContentLength = 1" | "field_index ContentType = 2"
| "field_index TransferEncoding = 3" | "field_index Connection = 4" | "field_index Accept = 5"
| "field_index AcceptEncoding = 6" | "field_index AcceptLanguage = 7" | "field_index UserAgent = 8"
| "field_index Expect = 9" | "field_index Upgrade = 10" | "field_index Date = 11"
| "field_index Server = 12" | "field_index Location = 13" | "field_index Cookie = 14"
| "field_index SetCookie = 15" | "field_index Authorization = 16" | "field_index Referer = 17"
| "field_index RangeField = 18" | "field_index IfNoneMatch = 19" | "field_index IfModifiedSince = 20"
| "field_index ETag = 21" | "field_index CacheControl = 22" | "field_index Origin = 23"
| "field_index Other = 24"

definition kFieldCount :: nat where
  "kFieldCount = field_index Other"

definition method_expects_body :: "method_t \<Rightarrow> bool" where
  "method_expects_body m \<longleftrightarrow> m \<noteq> Head"

definition status_forbids_body :: "status_t \<Rightarrow> bool" where
  "status_forbids_body s \<longleftrightarrow> (s \<ge> 100 \<and> s < 200) \<or> s = 204 \<or> s = 304"

definition status_is_informational :: "status_t \<Rightarrow> bool" where
  "status_is_informational s \<longleftrightarrow> s \<ge> 100 \<and> s < 200"

fun method_is_idempotent :: "method_t \<Rightarrow> bool" where
  "method_is_idempotent Get = True"
| "method_is_idempotent Head = True"
| "method_is_idempotent Put = True"
| "method_is_idempotent Delete = True"
| "method_is_idempotent Options = True"
| "method_is_idempotent Trace = True"
| "method_is_idempotent _ = False"

subsection \<open>Word-at-a-time comparison of names\<close>

definition kLower :: uint64 where
  "kLower = 0x2020202020202020"

text \<open>One byte with the case bit set: \<^verbatim>\<open>uint8_t(c) | 0x20\<close>.\<close>

definition case_bit :: "char \<Rightarrow> uint8" where
  "case_bit c = u8 c OR 0x20"

definition pack :: "string \<Rightarrow> uint64" where
  "pack s = fold (\<lambda>i v. v OR push_bit (8 * i) (ucast (u8 (s ! i)) OR 0x20))
              [0 ..< (if length s < 8 then length s else 8)] 0"

definition ld :: "nat \<Rightarrow> string \<Rightarrow> uint64" where
  "ld N p = (let v = le64 (map u8 (take N p)) OR kLower in
             if N < 8 then v AND (push_bit (8 * N) 1 - 1) else v)"

definition HTTP_M8 :: "string \<Rightarrow> string \<Rightarrow> nat \<Rightarrow> bool" where
  "HTTP_M8 p lit len \<longleftrightarrow>
     ld 8 p = pack lit \<and> ld 8 (drop (len - 8) p) = pack (drop (len - 8) lit)"

definition field_from_name :: "string \<Rightarrow> field_t" where
  "field_from_name name = (let p = name; n = length name in
     if n = 4 then
       (if ld 4 p = pack ''host'' then Host
        else if ld 4 p = pack ''date'' then Date
        else if ld 4 p = pack ''etag'' then ETag else Other)
     else if n = 5 then
       (if ld 5 p = pack ''range'' then RangeField else Other)
     else if n = 6 then
       (if ld 6 p = pack ''accept'' then Accept
        else if ld 6 p = pack ''expect'' then Expect
        else if ld 6 p = pack ''server'' then Server
        else if ld 6 p = pack ''cookie'' then Cookie
        else if ld 6 p = pack ''origin'' then Origin else Other)
     else if n = 7 then
       (if ld 7 p = pack ''upgrade'' then Upgrade
        else if ld 7 p = pack ''referer'' then Referer else Other)
     else if n = 8 then
       (if ld 8 p = pack ''location'' then Location else Other)
     else if n = 10 then
       (if HTTP_M8 p ''connection'' 10 then Connection
        else if HTTP_M8 p ''user-agent'' 10 then UserAgent
        else if HTTP_M8 p ''set-cookie'' 10 then SetCookie else Other)
     else if n = 12 then
       (if HTTP_M8 p ''content-type'' 12 then ContentType else Other)
     else if n = 13 then
       (if HTTP_M8 p ''authorization'' 13 then Authorization
        else if HTTP_M8 p ''if-none-match'' 13 then IfNoneMatch
        else if HTTP_M8 p ''cache-control'' 13 then CacheControl else Other)
     else if n = 14 then
       (if HTTP_M8 p ''content-length'' 14 then ContentLength else Other)
     else if n = 15 then
       (if HTTP_M8 p ''accept-encoding'' 15 then AcceptEncoding
        else if HTTP_M8 p ''accept-language'' 15 then AcceptLanguage else Other)
     else if n = 17 then
       (if HTTP_M8 p ''transfer-encoding'' 17 then TransferEncoding
        else if HTTP_M8 p ''if-modified-since'' 17 then IfModifiedSince else Other)
     else Other)"

definition iequals :: "string \<Rightarrow> string \<Rightarrow> bool" where
  "iequals a b \<longleftrightarrow> length a = length b \<and> list_all2 (\<lambda>x y. (u8 x OR 0x20) = (u8 y OR 0x20)) a b"

subsection \<open>Tables of names, status lines and errors\<close>

definition kFieldText :: "string list" where
  "kFieldText = [
    ''Host'', ''Content-Length'', ''Content-Type'', ''Transfer-Encoding'', ''Connection'',
    ''Accept'', ''Accept-Encoding'', ''Accept-Language'', ''User-Agent'', ''Expect'',
    ''Upgrade'', ''Date'', ''Server'', ''Location'', ''Cookie'', ''Set-Cookie'',
    ''Authorization'', ''Referer'', ''Range'', ''If-None-Match'', ''If-Modified-Since'',
    ''ETag'', ''Cache-Control'', ''Origin'']"

definition field_name :: "field_t \<Rightarrow> string" where
  "field_name f = (let i = field_index f in if i < kFieldCount then kFieldText ! i else '''')"

text \<open>\<^verbatim>\<open>field_prefix\<close>: the null pointer (with length 0) is \<open>None\<close>.\<close>

definition field_prefix :: "field_t \<Rightarrow> string option" where
  "field_prefix f = (let i = field_index f in
     if i \<ge> kFieldCount then None else Some (kFieldText ! i @ '': ''))"

definition CORNET_STATUS_MAP :: "(status_t \<times> string \<times> string) list" where
  "CORNET_STATUS_MAP = [
    (100, ''100'', ''Continue''), (101, ''101'', ''Switching Protocols''),
    (200, ''200'', ''OK''), (201, ''201'', ''Created''), (202, ''202'', ''Accepted''),
    (204, ''204'', ''No Content''), (205, ''205'', ''Reset Content''),
    (206, ''206'', ''Partial Content''), (301, ''301'', ''Moved Permanently''),
    (302, ''302'', ''Found''), (303, ''303'', ''See Other''), (304, ''304'', ''Not Modified''),
    (307, ''307'', ''Temporary Redirect''), (308, ''308'', ''Permanent Redirect''),
    (400, ''400'', ''Bad Request''), (401, ''401'', ''Unauthorized''),
    (403, ''403'', ''Forbidden''), (404, ''404'', ''Not Found''),
    (405, ''405'', ''Method Not Allowed''), (406, ''406'', ''Not Acceptable''),
    (408, ''408'', ''Request Timeout''), (409, ''409'', ''Conflict''), (410, ''410'', ''Gone''),
    (411, ''411'', ''Length Required''), (412, ''412'', ''Precondition Failed''),
    (413, ''413'', ''Content Too Large''), (414, ''414'', ''URI Too Long''),
    (415, ''415'', ''Unsupported Media Type''), (417, ''417'', ''Expectation Failed''),
    (422, ''422'', ''Unprocessable Content''), (426, ''426'', ''Upgrade Required''),
    (429, ''429'', ''Too Many Requests''), (431, ''431'', ''Request Header Fields Too Large''),
    (500, ''500'', ''Internal Server Error''), (501, ''501'', ''Not Implemented''),
    (502, ''502'', ''Bad Gateway''), (503, ''503'', ''Service Unavailable''),
    (504, ''504'', ''Gateway Timeout''), (505, ''505'', ''HTTP Version Not Supported'')]"

definition reason_phrase :: "status_t \<Rightarrow> string" where
  "reason_phrase s = (case map_of CORNET_STATUS_MAP s of
      Some (code_text, phrase) \<Rightarrow> phrase | None \<Rightarrow> ''Unknown'')"

definition status_line :: "status_t \<Rightarrow> string option" where
  "status_line s = (case map_of CORNET_STATUS_MAP s of
      Some (code_text, phrase) \<Rightarrow> Some (''HTTP/1.1 '' @ code_text @ '' '' @ phrase @ CRLF)
    | None \<Rightarrow> None)"

fun method_name :: "method_t \<Rightarrow> string" where
  "method_name Get = ''GET''"
| "method_name Head = ''HEAD''"
| "method_name Post = ''POST''"
| "method_name Put = ''PUT''"
| "method_name Delete = ''DELETE''"
| "method_name Connect = ''CONNECT''"
| "method_name Options = ''OPTIONS''"
| "method_name Trace = ''TRACE''"
| "method_name Patch = ''PATCH''"
| "method_name MethodUnknown = ''UNKNOWN''"

text \<open>
  The constants of the parser library are parameters: the values of its method
  enumeration and three of its error numbers, with the renderer of all of them.
\<close>

record llhttp_consts =
  HTTP_DELETE :: uint8
  HTTP_GET :: uint8
  HTTP_HEAD :: uint8
  HTTP_POST :: uint8
  HTTP_PUT :: uint8
  HTTP_CONNECT :: uint8
  HTTP_OPTIONS :: uint8
  HTTP_TRACE :: uint8
  HTTP_PATCH :: uint8
  HPE_INVALID_METHOD :: int
  HPE_INVALID_VERSION :: int
  HPE_INVALID_URL :: int
  llhttp_errno_name :: "int \<Rightarrow> string"

definition method_from_raw :: "llhttp_consts \<Rightarrow> uint8 \<Rightarrow> method_t" where
  "method_from_raw L raw = (
     if raw = HTTP_DELETE L then Delete
     else if raw = HTTP_GET L then Get
     else if raw = HTTP_HEAD L then Head
     else if raw = HTTP_POST L then Post
     else if raw = HTTP_PUT L then Put
     else if raw = HTTP_CONNECT L then Connect
     else if raw = HTTP_OPTIONS L then Options
     else if raw = HTTP_TRACE L then Trace
     else if raw = HTTP_PATCH L then Patch
     else MethodUnknown)"

fun field_forbidden_in_trailer :: "field_t \<Rightarrow> bool" where
  "field_forbidden_in_trailer ContentLength = True"
| "field_forbidden_in_trailer TransferEncoding = True"
| "field_forbidden_in_trailer ContentType = True"
| "field_forbidden_in_trailer Host = True"
| "field_forbidden_in_trailer Connection = True"
| "field_forbidden_in_trailer Upgrade = True"
| "field_forbidden_in_trailer Expect = True"
| "field_forbidden_in_trailer RangeField = True"
| "field_forbidden_in_trailer CacheControl = True"
| "field_forbidden_in_trailer Authorization = True"
| "field_forbidden_in_trailer Cookie = True"
| "field_forbidden_in_trailer SetCookie = True"
| "field_forbidden_in_trailer Date = True"
| "field_forbidden_in_trailer Location = True"
| "field_forbidden_in_trailer _ = False"

datatype http_error_t =
    HeaderTooLarge | TooManyHeaders | BodyTooLarge | BadContentLength | BadHeader
  | UnsupportedVersion | OutputOverflow | InvalidState | BadUpgrade
  | BadUrl | UnsupportedScheme | TooManyRedirects | PoolExhausted | ResponseIncomplete
  | InvalidHeader

definition kProtocolErrorBase :: int where "kProtocolErrorBase = 1000"
definition kProtocolClientErrorBase :: int where "kProtocolClientErrorBase = 2000"

fun http_error_value :: "http_error_t \<Rightarrow> int" where
  "http_error_value HeaderTooLarge = kProtocolErrorBase + 1"
| "http_error_value TooManyHeaders = kProtocolErrorBase + 2"
| "http_error_value BodyTooLarge = kProtocolErrorBase + 3"
| "http_error_value BadContentLength = kProtocolErrorBase + 4"
| "http_error_value BadHeader = kProtocolErrorBase + 5"
| "http_error_value UnsupportedVersion = kProtocolErrorBase + 6"
| "http_error_value OutputOverflow = kProtocolErrorBase + 7"
| "http_error_value InvalidState = kProtocolErrorBase + 8"
| "http_error_value BadUpgrade = kProtocolErrorBase + 9"
| "http_error_value BadUrl = kProtocolClientErrorBase + 1"
| "http_error_value UnsupportedScheme = kProtocolClientErrorBase + 2"
| "http_error_value TooManyRedirects = kProtocolClientErrorBase + 3"
| "http_error_value PoolExhausted = kProtocolClientErrorBase + 4"
| "http_error_value ResponseIncomplete = kProtocolClientErrorBase + 5"
| "http_error_value InvalidHeader = kProtocolClientErrorBase + 6"

definition http_error :: "http_error_t \<Rightarrow> error_t" where
  "http_error e = error_code (http_error_value e) Http"

definition http_unexpected :: "http_error_t \<Rightarrow> 'a expected" where
  "http_unexpected e = unexpected (http_error_value e) Http"

text \<open>The cast \<^verbatim>\<open>http_error_t(code)\<close> of the switches: the enumerator a code stands for.\<close>

definition http_error_of :: "int \<Rightarrow> http_error_t option" where
  "http_error_of c = find (\<lambda>e. http_error_value e = c)
     [HeaderTooLarge, TooManyHeaders, BodyTooLarge, BadContentLength, BadHeader,
      UnsupportedVersion, OutputOverflow, InvalidState, BadUpgrade, BadUrl,
      UnsupportedScheme, TooManyRedirects, PoolExhausted, ResponseIncomplete, InvalidHeader]"

fun http_error_text :: "http_error_t \<Rightarrow> string" where
  "http_error_text HeaderTooLarge = ''header section too large''"
| "http_error_text TooManyHeaders = ''too many header fields''"
| "http_error_text BodyTooLarge = ''request body too large''"
| "http_error_text BadContentLength = ''invalid Content-Length''"
| "http_error_text UnsupportedVersion = ''unsupported HTTP version''"
| "http_error_text OutputOverflow = ''response exceeded output buffer''"
| "http_error_text InvalidState = ''response api used out of order''"
| "http_error_text BadUpgrade = ''invalid protocol upgrade''"
| "http_error_text BadUrl = ''malformed url''"
| "http_error_text UnsupportedScheme = ''unsupported url scheme''"
| "http_error_text TooManyRedirects = ''too many redirects''"
| "http_error_text PoolExhausted = ''no connection available''"
| "http_error_text ResponseIncomplete = ''peer closed before the response ended''"
| "http_error_text InvalidHeader = ''CR/LF in header name or value''"
| "http_error_text BadHeader = ''bad request header''"

definition http_error_name :: "llhttp_consts \<Rightarrow> int \<Rightarrow> string" where
  "http_error_name L c = (case http_error_of c of
      Some e \<Rightarrow> http_error_text e
    | None \<Rightarrow> if c \<ge> 0 \<and> c < kProtocolErrorBase then llhttp_errno_name L c
              else ''unknown http error'')"

definition status_for_error :: "llhttp_consts \<Rightarrow> error_t \<Rightarrow> status_t" where
  "status_for_error L err = (
     if domain err \<noteq> Http then status_InternalServerError
     else case http_error_of (code err) of
       Some HeaderTooLarge \<Rightarrow> status_RequestHeaderFieldsTooLarge
     | Some TooManyHeaders \<Rightarrow> status_RequestHeaderFieldsTooLarge
     | Some BodyTooLarge \<Rightarrow> status_ContentTooLarge
     | Some UnsupportedVersion \<Rightarrow> status_HttpVersionNotSupported
     | Some OutputOverflow \<Rightarrow> status_InternalServerError
     | Some InvalidState \<Rightarrow> status_InternalServerError
     | Some InvalidHeader \<Rightarrow> status_BadRequest
     | Some BadHeader \<Rightarrow> status_BadRequest
     | _ \<Rightarrow> if code err = HPE_INVALID_METHOD L then status_NotImplemented
            else if code err = HPE_INVALID_VERSION L then status_HttpVersionNotSupported
            else if code err = HPE_INVALID_URL L then status_UriTooLong
            else status_BadRequest)"

subsection \<open>The SWAR comparison is a bytewise comparison up to the case bit\<close>

lemma pack_le64: "pack s = le64 (map case_bit (take 8 s))"
proof -
  have "fold (\<lambda>i v. v OR push_bit (8 * i) (ucast (u8 (s ! i)) OR 0x20)) [0..<n] 0
      = le64 (map case_bit (take n s))" if "n \<le> length s" for n
    using that
  proof (induction n)
    case (Suc n)
    have c: "ucast (case_bit c) = (ucast (u8 c) OR 0x20 :: uint64)" for c
      by (simp add: case_bit_def unsigned_or_eq)
    show ?case
      using Suc by (simp add: take_Suc_conv_app_nth le64_append c min_def)
  qed simp
  from this[of "length s"] this[of 8] show ?thesis
    by (auto simp: pack_def)
qed

lemma bit_kLower: "bit kLower i \<longleftrightarrow> i < 64 \<and> i mod 8 = 5"
proof -
  have "\<forall>i \<in> set [0..<64]. bit kLower i \<longleftrightarrow> i mod 8 = 5"
    unfolding kLower_def by (simp add: upt_rec)
  then show ?thesis using bit_imp_le_length[of kLower i] by auto
qed

lemma bit_0x20: "bit (0x20 :: uint8) i \<longleftrightarrow> i = 5"
proof -
  have "\<forall>i \<in> set [0..<8]. bit (0x20 :: uint8) i \<longleftrightarrow> i = 5"
    by (simp add: upt_rec)
  then show ?thesis using bit_imp_le_length[of "0x20 :: uint8" i] by auto
qed

lemma bit_case_bit: "bit (case_bit c) i \<longleftrightarrow> bit (u8 c) i \<or> i = 5"
  by (simp only: case_bit_def bit_or_iff bit_0x20)

lemma ld_le64:
  assumes "N \<le> 8" "N \<le> length p"
  shows "ld N p = le64 (map case_bit (take N p))"
proof (rule bit_word_eqI)
  fix i assume "i < LENGTH(64)"
  then have i: "i < 64" by simp
  have d: "i div 8 < N \<longleftrightarrow> i < 8 * N" by auto
  have "bit (ld N p) i \<longleftrightarrow> i div 8 < N \<and> (bit (u8 (p ! (i div 8))) (i mod 8) \<or> i mod 8 = 5)"
    using assms i
    by (auto simp: ld_def Let_def bit_or_iff bit_and_iff bit_le64 bit_kLower d
        mask_eq_exp_minus_1[symmetric] push_bit_of_1 bit_mask_iff)
  also have "\<dots> \<longleftrightarrow> bit (le64 (map case_bit (take N p))) i"
    using assms i by (auto simp: bit_le64 bit_case_bit)
  finally show "bit (ld N p) i = bit (le64 (map case_bit (take N p))) i" .
qed

lemma ld_eq_pack:
  assumes "length p = N" "length lit = N" "N \<le> 8"
  shows "ld N p = pack lit \<longleftrightarrow> map case_bit p = map case_bit lit"
  using assms by (auto simp: ld_le64 pack_le64 dest: le64_inj)

text \<open>
  Two windows of eight bytes see every byte of a name of at most sixteen bytes.  In a
  name of seventeen bytes the byte in the middle, at index 8, is in neither window.
\<close>

definition swar_key :: "string \<Rightarrow> bytes" where
  "swar_key s = (let k = map case_bit s in if length s = 17 then k[8 := 0] else k)"

lemma HTTP_M8_windows:
  assumes "length p = len" "length lit = len" "8 \<le> len"
  shows "HTTP_M8 p lit len \<longleftrightarrow>
    take 8 (map case_bit p) = take 8 (map case_bit lit) \<and>
    drop (len - 8) (map case_bit p) = drop (len - 8) (map case_bit lit)"
proof -
  have "ld 8 p = pack lit \<longleftrightarrow> map case_bit (take 8 p) = map case_bit (take 8 lit)"
    using assms by (auto simp: ld_le64 pack_le64 dest: le64_inj)
  moreover have "ld 8 (drop (len - 8) p) = pack (drop (len - 8) lit) \<longleftrightarrow>
      map case_bit (drop (len - 8) p) = map case_bit (drop (len - 8) lit)"
    using assms by (intro ld_eq_pack) simp_all
  ultimately show ?thesis by (simp add: HTTP_M8_def take_map drop_map)
qed

lemma windows_cover:
  assumes "length xs = len" "length ys = len" "8 \<le> len" "len \<le> 16"
    "take 8 xs = take 8 ys" "drop (len - 8) xs = drop (len - 8) ys"
  shows "xs = ys"
proof -
  have e: "drop 8 zs = drop (16 - len) (drop (len - 8) zs)" for zs :: "'a list"
    using assms(3,4) by simp
  have "drop 8 xs = drop 8 ys" by (simp only: e assms(6))
  then show ?thesis using assms(5) by (metis append_take_drop_id)
qed

lemma HTTP_M8_key:
  assumes "length p = len" "length lit = len" "8 \<le> len" "len \<le> 17"
  shows "HTTP_M8 p lit len \<longleftrightarrow> swar_key p = swar_key lit"
proof (cases "len = 17")
  case False
  then show ?thesis
    using assms windows_cover[of "map case_bit p" len "map case_bit lit"]
    by (auto simp: HTTP_M8_windows swar_key_def Let_def)
next
  case True
  have split17: "xs[8 := 0] = ys[8 := 0] \<longleftrightarrow> take 8 xs = take 8 ys \<and> drop 9 xs = drop 9 ys"
    if "length xs = 17" "length ys = 17" for xs ys :: bytes
    using that by (simp add: upd_conv_take_nth_drop)
  show ?thesis
    using assms True by (simp add: HTTP_M8_windows swar_key_def Let_def split17)
qed

lemma ld_key:
  assumes "length p = N" "length lit = N" "N \<le> 8"
  shows "ld N p = pack lit \<longleftrightarrow> swar_key p = swar_key lit"
  using assms by (simp add: ld_eq_pack swar_key_def)

lemma swar_key_length [simp]: "length (swar_key s) = length s"
  by (simp add: swar_key_def Let_def)

lemma literal_keys:
  "swar_key ''host'' = swar_key (field_name Host)"
  "swar_key ''date'' = swar_key (field_name Date)"
  "swar_key ''etag'' = swar_key (field_name ETag)"
  "swar_key ''range'' = swar_key (field_name RangeField)"
  "swar_key ''accept'' = swar_key (field_name Accept)"
  "swar_key ''expect'' = swar_key (field_name Expect)"
  "swar_key ''server'' = swar_key (field_name Server)"
  "swar_key ''cookie'' = swar_key (field_name Cookie)"
  "swar_key ''origin'' = swar_key (field_name Origin)"
  "swar_key ''upgrade'' = swar_key (field_name Upgrade)"
  "swar_key ''referer'' = swar_key (field_name Referer)"
  "swar_key ''location'' = swar_key (field_name Location)"
  "swar_key ''connection'' = swar_key (field_name Connection)"
  "swar_key ''user-agent'' = swar_key (field_name UserAgent)"
  "swar_key ''set-cookie'' = swar_key (field_name SetCookie)"
  "swar_key ''content-type'' = swar_key (field_name ContentType)"
  "swar_key ''authorization'' = swar_key (field_name Authorization)"
  "swar_key ''if-none-match'' = swar_key (field_name IfNoneMatch)"
  "swar_key ''cache-control'' = swar_key (field_name CacheControl)"
  "swar_key ''content-length'' = swar_key (field_name ContentLength)"
  "swar_key ''accept-encoding'' = swar_key (field_name AcceptEncoding)"
  "swar_key ''accept-language'' = swar_key (field_name AcceptLanguage)"
  "swar_key ''transfer-encoding'' = swar_key (field_name TransferEncoding)"
  "swar_key ''if-modified-since'' = swar_key (field_name IfModifiedSince)"
  by code_simp+

lemma field_index_nth:
  "[Host, ContentLength, ContentType, TransferEncoding, Connection, Accept, AcceptEncoding,
    AcceptLanguage, UserAgent, Expect, Upgrade, Date, Server, Location, Cookie, SetCookie,
    Authorization, Referer, RangeField, IfNoneMatch, IfModifiedSince, ETag, CacheControl,
    Origin, Other] ! field_index f = f"
  by (cases f) simp_all

lemma field_index_inj: "field_index f = field_index g \<Longrightarrow> f = g"
  by (metis field_index_nth)

lemma field_index_less: "field_index f < 24 \<longleftrightarrow> f \<noteq> Other"
  by (cases f) simp_all

lemma field_texts_distinct: "distinct (map swar_key kFieldText)"
  by code_simp

lemma field_key_inj:
  assumes "swar_key (field_name f) = swar_key (field_name g)" "f \<noteq> Other" "g \<noteq> Other"
  shows "f = g"
proof (rule field_index_inj)
  have len: "length (map swar_key kFieldText) = 24" by (simp add: kFieldText_def)
  have "map swar_key kFieldText ! field_index f = map swar_key kFieldText ! field_index g"
    using assms len by (simp add: field_name_def kFieldCount_def field_index_less)
  then show "field_index f = field_index g"
    using nth_eq_iff_index_eq[OF field_texts_distinct] assms(2,3) len field_index_less by metis
qed

lemmas field_key_simps = ld_key HTTP_M8_key literal_keys

definition names_field :: "string \<Rightarrow> field_t \<Rightarrow> bool" where
  "names_field name f \<longleftrightarrow> f = Other \<or> swar_key name = swar_key (field_name f)"

lemma names_field_if:
  "(c \<Longrightarrow> names_field name f) \<Longrightarrow> (\<not> c \<Longrightarrow> names_field name g) \<Longrightarrow>
    names_field name (if c then f else g)"
  by simp

lemma names_field_Other: "names_field name Other"
  by (simp add: names_field_def)

lemma field_from_name_key: "names_field name (field_from_name name)"
  unfolding field_from_name_def Let_def
  by (intro names_field_if names_field_Other; simp add: names_field_def field_key_simps)

lemma field_length:
  "length (field_name Host) = 4" "length (field_name ContentLength) = 14"
  "length (field_name ContentType) = 12" "length (field_name TransferEncoding) = 17"
  "length (field_name Connection) = 10" "length (field_name Accept) = 6"
  "length (field_name AcceptEncoding) = 15" "length (field_name AcceptLanguage) = 15"
  "length (field_name UserAgent) = 10" "length (field_name Expect) = 6"
  "length (field_name Upgrade) = 7" "length (field_name Date) = 4"
  "length (field_name Server) = 6" "length (field_name Location) = 8"
  "length (field_name Cookie) = 6" "length (field_name SetCookie) = 10"
  "length (field_name Authorization) = 13" "length (field_name Referer) = 7"
  "length (field_name RangeField) = 5" "length (field_name IfNoneMatch) = 13"
  "length (field_name IfModifiedSince) = 17" "length (field_name ETag) = 4"
  "length (field_name CacheControl) = 13" "length (field_name Origin) = 6"
  by code_simp+

lemma field_from_name_finds:
  assumes "swar_key name = swar_key (field_name f)" "f \<noteq> Other"
  shows "field_from_name name \<noteq> Other"
proof -
  have "length name = length (field_name f)"
    using assms(1) swar_key_length by metis
  then show ?thesis
    using assms
    by (cases f) (simp_all add: field_from_name_def field_key_simps field_length)
qed

lemma field_from_name_swar:
  assumes "f \<noteq> Other"
  shows "field_from_name name = f \<longleftrightarrow> swar_key name = swar_key (field_name f)"
  using assms field_from_name_key[of name] field_from_name_finds[of name f]
    field_key_inj[of f "field_from_name name"] by (auto simp: names_field_def)

lemma swar_key_eq:
  "swar_key a = swar_key b \<longleftrightarrow> length a = length b \<and>
    (\<forall>i < length a. case_bit (a ! i) = case_bit (b ! i) \<or> (length a = 17 \<and> i = 8))"
  (is "?l \<longleftrightarrow> ?r")
proof
  assume l: ?l
  then have len: "length a = length b" using swar_key_length by metis
  have "case_bit (a ! i) = case_bit (b ! i) \<or> (length a = 17 \<and> i = 8)" if "i < length a" for i
    using arg_cong[OF l, of "\<lambda>k. k ! i"] that len
    by (auto simp: swar_key_def Let_def nth_list_update split: if_splits)
  with len show ?r by blast
next
  assume ?r
  then show ?l
    by (auto simp: swar_key_def Let_def nth_list_update intro!: nth_equalityI)
qed

lemma iequals_alt: "iequals a b \<longleftrightarrow> map case_bit a = map case_bit b"
  by (auto simp: iequals_def list_all2_conv_all_nth list_eq_iff_nth_eq case_bit_def)

lemma iequals_refl [simp]: "iequals a a"
  by (simp add: iequals_alt)

lemma iequals_sym: "iequals a b \<longleftrightarrow> iequals b a"
  by (auto simp: iequals_alt)

lemma iequals_trans: "iequals a b \<Longrightarrow> iequals b c \<Longrightarrow> iequals a c"
  by (simp add: iequals_alt)

lemma iequals_length: "iequals a b \<Longrightarrow> length a = length b"
  by (simp add: iequals_def)

text \<open>
  The characters of a token of the HTTP grammar (RFC 9110), their lower case, and the
  one pair of distinct token characters that the case bit identifies.
\<close>

definition tchars :: string where
  "tchars = ''!#$%&'' @ [CHR 0x27] @ ''*+-.^_`|~0123456789'' @
     ''abcdefghijklmnopqrstuvwxyzABCDEFGHIJKLMNOPQRSTUVWXYZ''"

definition ascii_lower :: "char \<Rightarrow> char" where
  "ascii_lower c = (case map_of (zip ''ABCDEFGHIJKLMNOPQRSTUVWXYZ'' ''abcdefghijklmnopqrstuvwxyz'') c of
     Some l \<Rightarrow> l | None \<Rightarrow> c)"

definition fold_caret :: "char \<Rightarrow> char" where
  "fold_caret c = (if c = CHR ''^'' then CHR ''~'' else ascii_lower c)"

lemma case_bit_canonical:
  "list_all (\<lambda>c. case_bit c = case_bit (fold_caret c)) tchars"
  by code_simp

lemma canonical_distinct:
  "distinct (map case_bit (remdups (map fold_caret tchars)))"
  by code_simp

lemma case_bit_tchar:
  assumes "c \<in> set tchars" "d \<in> set tchars"
  shows "case_bit c = case_bit d \<longleftrightarrow> fold_caret c = fold_caret d"
proof -
  have canon: "case_bit (fold_caret c) = case_bit c" "case_bit (fold_caret d) = case_bit d"
    using case_bit_canonical assms unfolding list_all_iff by simp_all
  have "inj_on case_bit (set (remdups (map fold_caret tchars)))"
    using canonical_distinct unfolding distinct_map by (rule conjunct2)
  then have "case_bit (fold_caret c) = case_bit (fold_caret d) \<longleftrightarrow> fold_caret c = fold_caret d"
    by (rule inj_on_eq_iff) (use assms in simp_all)
  then show ?thesis by (simp only: canon)
qed

lemma http_error_of_value [simp]: "http_error_of (http_error_value e) = Some e"
  by (cases e)
     (simp_all add: http_error_of_def kProtocolErrorBase_def kProtocolClientErrorBase_def)

lemma http_error_of_small: "c < 1000 \<Longrightarrow> http_error_of c = None"
  by (simp add: http_error_of_def kProtocolErrorBase_def kProtocolClientErrorBase_def)

subsection \<open>Properties\<close>

text \<open>(C9) \<open>field_from_name\<close> recognises a well-known field exactly when the name has
  the field's length and agrees with it in every byte up to the case bit 0x20, with
  the exception that in a name of seventeen bytes the byte at index 8 is not looked at.
  In particular the canonical name of each field, in any letter case, is recognised.\<close>

theorem field_from_name_iff:
  assumes "f \<noteq> Other"
  shows "field_from_name name = f \<longleftrightarrow>
    length name = length (field_name f) \<and>
    (\<forall>i < length name. case_bit (name ! i) = case_bit (field_name f ! i) \<or>
       (length name = 17 \<and> i = 8))"
  by (simp only: field_from_name_swar[OF assms] swar_key_eq)

theorem field_from_name_iff_witness:
  "field_from_name ''CoNTENT-type'' = ContentType"
  by (subst field_from_name_iff) (simp_all add: field_name_def kFieldText_def kFieldCount_def
     eval_nat_numeral All_less_Suc case_bit_def u8_def)

text \<open>(C12) Because byte 8 of a seventeen-byte name is in neither of the two windows,
  any byte is accepted there: a header called \<^verbatim>\<open>TransferXEncoding\<close> is taken for
  \<^verbatim>\<open>Transfer-Encoding\<close>, although the case-insensitive comparison
  \<open>iequals\<close> tells the two names apart.\<close>

theorem field_from_name_gap:
  "field_from_name (''Transfer'' @ [c] @ ''Encoding'') = TransferEncoding \<and>
   iequals (''Transfer'' @ [c] @ ''Encoding'') (field_name TransferEncoding) =
     (case_bit c = case_bit (CHR ''-''))"
proof -
  have "field_name TransferEncoding = ''Transfer'' @ ''-'' @ ''Encoding''" by code_simp
  moreover have "field_from_name (''Transfer'' @ [c] @ ''Encoding'') = TransferEncoding"
    by (subst field_from_name_swar) (simp_all add: calculation swar_key_def)
  ultimately show ?thesis
    by (simp add: iequals_alt)
qed

text \<open>On names made of token characters \<open>iequals\<close> is equality up to ASCII letter
  case, except that it also identifies \<^verbatim>\<open>^\<close> with \<^verbatim>\<open>~\<close>.\<close>

theorem iequals_tokens:
  assumes "set a \<subseteq> set tchars" "set b \<subseteq> set tchars"
  shows "iequals a b \<longleftrightarrow> map fold_caret a = map fold_caret b"
proof -
  have "case_bit (a ! i) = case_bit (b ! i) \<longleftrightarrow> fold_caret (a ! i) = fold_caret (b ! i)"
    if "i < length a" "i < length b" for i
    using case_bit_tchar that assms nth_mem by blast
  then show ?thesis
    by (auto simp: iequals_alt list_eq_iff_nth_eq)
qed

theorem iequals_tokens_witness:
  "iequals ''x-Trace^Id'' ''X-TRACE~id''"
  by (subst iequals_tokens) code_simp+

subsection \<open>Errors of the http domain\<close>

lemma http_unexpected_Inl: "http_unexpected e = Inl (http_error e)"
  by (simp add: http_unexpected_def unexpected_def http_error_def)

end
