(* ===== verification/Serializer.thy ===== *)
theory Serializer
  imports Protocol
begin

text \<open>
  Output buffers and the writers of request lines, status lines and headers
  (\<^verbatim>\<open>include/cornet/http/common/serializer.h\<close>,
  \<^verbatim>\<open>src/http/common/serializer.cc\<close>).

  The lemmas show that the two-digits-at-a-time integer writer produces the decimal
  numeral and the chunk-size writer the hexadecimal one, within the scratch buffers
  the code gives them; that an output buffer which has not failed holds exactly the
  concatenation of what was put into it; and that no header name or value can add a
  line to the header section.
\<close>

subsection \<open>Integers\<close>

definition kDigitPairs :: string where
  "kDigitPairs =
    ''00010203040506070809'' @ ''10111213141516171819'' @ ''20212223242526272829'' @
    ''30313233343536373839'' @ ''40414243444546474849'' @ ''50515253545556575859'' @
    ''60616263646566676869'' @ ''70717273747576777879'' @ ''80818283848586878889'' @
    ''90919293949596979899''"

definition kHexDigits :: string where
  "kHexDigits = ''0123456789abcdef''"

text \<open>
  The loop of \<^verbatim>\<open>write_u64\<close>: \<open>p\<close> holds the digits written so far, the
  last one first in time, so that a step adds two characters at the front.
\<close>

function write_u64_loop :: "uint64 \<Rightarrow> string \<Rightarrow> uint64 \<times> string" where
  "write_u64_loop v p =
    (if v \<ge> 100 then
       let idx = unat (v mod 100) * 2 in
       write_u64_loop (v div 100) (kDigitPairs ! idx # kDigitPairs ! (idx + 1) # p)
     else (v, p))"
  by pat_completeness auto
termination
proof (relation "measure (\<lambda>(v, p). unat v)", goal_cases)
  case (2 v p x)
  then have "unat v \<ge> 100" by (simp add: word_le_nat_alt)
  then show ?case by (simp add: unat_div_distrib)
qed simp

declare write_u64_loop.simps [simp del]

definition write_u64 :: "uint64 \<Rightarrow> string" where
  "write_u64 v =
    (if v = 0 then ''0''
     else let (v, p) = write_u64_loop v [] in
       if v \<ge> 10 then
         let idx = unat v * 2 in kDigitPairs ! idx # kDigitPairs ! (idx + 1) # p
       else char_of (48 + unat v) # p)"

function chunk_digits :: "uint64 \<Rightarrow> string \<Rightarrow> string" where
  "chunk_digits v p =
    (if v \<noteq> 0 then chunk_digits (drop_bit 4 v) (kHexDigits ! unat (v AND 0xf) # p) else p)"
  by pat_completeness auto
termination
proof (relation "measure (\<lambda>(v, p). unat v)", goal_cases)
  case (2 v p)
  then have "0 < unat v" by (simp add: unat_gt_0)
  then show ?case by (simp add: drop_bit_eq_div unat_div_distrib)
qed simp

declare chunk_digits.simps [simp del]

definition write_chunk_size :: "uint64 \<Rightarrow> string" where
  "write_chunk_size v = (if v = 0 then ''0'' else chunk_digits v []) @ CRLF"

subsection \<open>The output buffer\<close>

text \<open>
  The bytes \<^verbatim>\<open>[0, size_)\<close> of the leased memory are \<open>ob_data\<close>; the bytes
  behind them are never read.
\<close>

record out_buffer_t =
  ob_valid :: bool
  ob_capacity :: nat
  ob_data :: string
  ob_err :: error_t

definition no_error :: error_t where
  "no_error = error_code 0 DomNone"

definition out_reset :: "nat \<Rightarrow> out_buffer_t" where
  "out_reset cap = \<lparr>ob_valid = True, ob_capacity = cap, ob_data = [], ob_err = no_error\<rparr>"

definition out_release :: "out_buffer_t \<Rightarrow> out_buffer_t" where
  "out_release b = \<lparr>ob_valid = False, ob_capacity = 0, ob_data = [], ob_err = no_error\<rparr>"

definition out_clear :: "out_buffer_t \<Rightarrow> out_buffer_t" where
  "out_clear b = b\<lparr>ob_data := [], ob_err := no_error\<rparr>"

definition ob_size :: "out_buffer_t \<Rightarrow> nat" where
  "ob_size b = length (ob_data b)"

definition remaining :: "out_buffer_t \<Rightarrow> nat" where
  "remaining b = (if ob_valid b then ob_capacity b - ob_size b else 0)"

definition failed :: "out_buffer_t \<Rightarrow> bool" where
  "failed b = error_truthy (ob_err b)"

definition fail :: "error_t \<Rightarrow> out_buffer_t \<Rightarrow> out_buffer_t" where
  "fail e b = (if \<not> error_truthy (ob_err b) then b\<lparr>ob_err := e\<rparr> else b)"

definition put_bytes :: "string \<Rightarrow> nat \<Rightarrow> out_buffer_t \<Rightarrow> out_buffer_t" where
  "put_bytes s len b =
    (if error_truthy (ob_err b) then b
     else if len > remaining b then b\<lparr>ob_err := http_error OutputOverflow\<rparr>
     else b\<lparr>ob_data := ob_data b @ take len s\<rparr>)"

text \<open>The overload on a view narrows its size to 32 bits.\<close>

definition put :: "string \<Rightarrow> out_buffer_t \<Rightarrow> out_buffer_t" where
  "put s b = put_bytes s (length s mod 2 ^ 32) b"

definition put_byte :: "char \<Rightarrow> out_buffer_t \<Rightarrow> out_buffer_t" where
  "put_byte c b = put_bytes [c] 1 b"

definition put_crlf :: "out_buffer_t \<Rightarrow> out_buffer_t" where
  "put_crlf b = put_bytes CRLF 2 b"

definition put_u64 :: "uint64 \<Rightarrow> out_buffer_t \<Rightarrow> out_buffer_t" where
  "put_u64 v b =
    (if error_truthy (ob_err b) then b
     else if remaining b < 20 then b\<lparr>ob_err := http_error OutputOverflow\<rparr>
     else b\<lparr>ob_data := ob_data b @ write_u64 v\<rparr>)"

definition reserve :: "nat \<Rightarrow> out_buffer_t \<Rightarrow> nat \<times> out_buffer_t" where
  "reserve len b =
    (if error_truthy (ob_err b) then (0, b)
     else if len > remaining b then (0, b\<lparr>ob_err := http_error OutputOverflow\<rparr>)
     else (ob_size b, b\<lparr>ob_data := ob_data b @ replicate len (CHR '' '')\<rparr>))"

definition patch_u64 :: "nat \<Rightarrow> nat \<Rightarrow> uint64 \<Rightarrow> out_buffer_t \<Rightarrow> out_buffer_t" where
  "patch_u64 off len v b =
    (if error_truthy (ob_err b) \<or> \<not> ob_valid b then b
     else let tmp = write_u64 v; n = length tmp in
       if n > len then b\<lparr>ob_err := http_error OutputOverflow\<rparr>
       else b\<lparr>ob_data := take (ob_size b)
              (take off (ob_data b) @ replicate (len - n) (CHR '' '') @ tmp @ drop (off + len) (ob_data b))\<rparr>)"

subsection \<open>Lines and headers\<close>

definition request_line :: "method_t \<Rightarrow> string \<Rightarrow> string \<Rightarrow> version_t \<Rightarrow> out_buffer_t \<Rightarrow> out_buffer_t" where
  "request_line m path query v b =
    (let b = put_byte (CHR '' '') (put (method_name m) b);
         b = (if path = [] then put_byte (CHR ''/'') b else put path b);
         b = (if query \<noteq> [] then put query (put_byte (CHR ''?'') b) else b) in
     if v = Http10 then put_bytes ('' HTTP/1.0'' @ CRLF) 11 b
     else put_bytes ('' HTTP/1.1'' @ CRLF) 11 b)"

definition serialize_status_line :: "status_t \<Rightarrow> out_buffer_t \<Rightarrow> out_buffer_t" where
  "serialize_status_line s b =
    (case status_line s of
       Some line \<Rightarrow> put_bytes line (length line) b
     | None \<Rightarrow>
         put_crlf (put (reason_phrase s) (put_byte (CHR '' '')
           (put_u64 (ucast s) (put_bytes ''HTTP/1.1 '' 9 b)))))"

definition has_crlf :: "string \<Rightarrow> bool" where
  "has_crlf s \<longleftrightarrow> CR \<in> set s \<or> LF \<in> set s"

definition put_prefix :: "field_t \<Rightarrow> out_buffer_t \<Rightarrow> out_buffer_t" where
  "put_prefix f b = (case field_prefix f of Some p \<Rightarrow> put_bytes p (length p) b | None \<Rightarrow> b)"

definition header_field :: "field_t \<Rightarrow> string \<Rightarrow> out_buffer_t \<Rightarrow> out_buffer_t" where
  "header_field f value b =
    (if has_crlf value then fail (http_error InvalidHeader) b
     else put_crlf (put value (put_prefix f b)))"

definition header_named :: "string \<Rightarrow> string \<Rightarrow> out_buffer_t \<Rightarrow> out_buffer_t" where
  "header_named name value b =
    (if has_crlf name \<or> has_crlf value then fail (http_error InvalidHeader) b
     else put_crlf (put value (put_bytes '': '' 2 (put name b))))"

definition header_u64 :: "field_t \<Rightarrow> uint64 \<Rightarrow> out_buffer_t \<Rightarrow> out_buffer_t" where
  "header_u64 f value b = put_crlf (put_u64 value (put_prefix f b))"

definition date_header :: "string \<Rightarrow> out_buffer_t \<Rightarrow> out_buffer_t" where
  "date_header imf_date b =
    (if imf_date = [] then b
     else put_crlf (put_bytes imf_date (length imf_date) (put_prefix Date b)))"

definition end_headers :: "out_buffer_t \<Rightarrow> out_buffer_t" where
  "end_headers b = put_crlf b"

subsection \<open>Numerals\<close>

definition digit :: "nat \<Rightarrow> char" where
  "digit d = ''0123456789'' ! d"

fun dec_digits :: "nat \<Rightarrow> string" where
  "dec_digits n = (if n < 10 then [digit n] else dec_digits (n div 10) @ [digit (n mod 10)])"

declare dec_digits.simps [simp del]

definition digit_value :: "char \<Rightarrow> nat" where
  "digit_value c = of_char c - 48"

definition dec_value :: "string \<Rightarrow> nat" where
  "dec_value s = foldl (\<lambda>a c. 10 * a + digit_value c) 0 s"

lemma less_ten: "d < 10 \<Longrightarrow> d \<in> {0, 1, 2, 3, 4, 5, 6, 7, 8, 9 :: nat}"
  by auto

lemma digit_value_digit: "d < 10 \<Longrightarrow> digit_value (digit d) = d"
  by (drule less_ten) (auto simp: digit_def digit_value_def)

lemma digit_char_of: "d < 10 \<Longrightarrow> char_of (48 + d :: nat) = digit d"
  by (drule less_ten) (auto simp: digit_def char_of_def bit_0)

lemma dec_value_digits: "dec_value (dec_digits n) = n"
proof (induction n rule: dec_digits.induct)
  case (1 n)
  then show ?case
    by (subst dec_digits.simps) (auto simp: dec_value_def digit_value_digit)
qed

lemma dec_digits_length: "n < 10 ^ k \<Longrightarrow> 0 < k \<Longrightarrow> length (dec_digits n) \<le> k"
proof (induction n arbitrary: k rule: dec_digits.induct)
  case (1 n)
  show ?case
  proof (cases "n < 10")
    case True
    then show ?thesis using "1.prems" by (simp add: dec_digits.simps)
  next
    case False
    then obtain j where k: "k = Suc j" "0 < j"
      using "1.prems" by (cases k; cases "k - 1") auto
    then have "n div 10 < 10 ^ j" using "1.prems" by (simp add: less_mult_imp_div_less mult.commute)
    then show ?thesis
      using "1.IH"[OF False, of j] k False by (subst dec_digits.simps) simp
  qed
qed

lemma dec_digits_set: "set (dec_digits n) \<subseteq> set ''0123456789''"
proof (induction n rule: dec_digits.induct)
  case (1 n)
  have "digit d \<in> set ''0123456789''" if "d < 10" for d
    using that by (drule_tac less_ten) (auto simp: digit_def)
  then show ?case using 1 by (subst dec_digits.simps) auto
qed

lemma digit_pairs_table:
  "list_all (\<lambda>i. kDigitPairs ! (i * 2) = digit (i div 10) \<and> kDigitPairs ! (i * 2 + 1) = digit (i mod 10))
     [0..<100]"
  unfolding kDigitPairs_def digit_def by (simp add: upt_rec)

lemma digit_pairs:
  assumes "i < 100"
  shows "kDigitPairs ! (i * 2) = digit (i div 10)" "kDigitPairs ! (i * 2 + 1) = digit (i mod 10)"
  using digit_pairs_table assms by (auto simp: list_all_iff)

lemma dec_digits_100:
  assumes "100 \<le> n"
  shows "dec_digits n = dec_digits (n div 100) @ [digit (n mod 100 div 10), digit (n mod 100 mod 10)]"
proof -
  have "n mod 100 div 10 = n div 10 mod 10" "n mod 100 mod 10 = n mod 10"
    using mod_mult2_eq[of n 10 10] by simp_all
  moreover have "\<not> n < 10" "\<not> n div 10 < 10" using assms by auto
  ultimately show ?thesis
    using dec_digits.simps[of n] dec_digits.simps[of "n div 10"] by (simp add: div_mult2_eq[symmetric])
qed

lemma write_u64_loop_spec:
  assumes "write_u64_loop v p = (v', q)" "v \<noteq> 0"
  shows "v' < 100 \<and> v' \<noteq> 0 \<and> dec_digits (unat v) @ p = dec_digits (unat v') @ q"
  using assms
proof (induction v p rule: write_u64_loop.induct)
  case (1 v p)
  show ?case
  proof (cases "v \<ge> 100")
    case True
    then have u: "100 \<le> unat v" by (simp add: word_le_nat_alt)
    have d: "unat (v div 100) = unat v div 100" "unat (v mod 100) = unat v mod 100"
      by (simp_all add: unat_div_distrib unat_mod_distrib)
    have nz: "v div 100 \<noteq> 0" using u d(1) by auto
    let ?i = "unat (v mod 100) * 2"
    have "write_u64_loop (v div 100) (kDigitPairs ! ?i # kDigitPairs ! (?i + 1) # p) = (v', q)"
      using "1.prems"(1) True by (simp add: write_u64_loop.simps[of v] Let_def)
    from "1.IH"[OF True refl this nz]
    have "v' < 100 \<and> v' \<noteq> 0 \<and> dec_digits (unat v div 100) @
        kDigitPairs ! ?i # kDigitPairs ! (?i + 1) # p = dec_digits (unat v') @ q"
      by (simp add: d)
    then show ?thesis
      using dec_digits_100[OF u] digit_pairs[of "unat v mod 100"] by (simp add: d)
  next
    case False
    then show ?thesis using "1.prems" by (simp add: write_u64_loop.simps[of v])
  qed
qed

lemma write_u64_dec: "write_u64 v = dec_digits (unat v)"
proof (cases "v = 0")
  case True
  then show ?thesis by (simp add: write_u64_def dec_digits.simps digit_def)
next
  case False
  obtain v' q where l: "write_u64_loop v [] = (v', q)" by (cases "write_u64_loop v []")
  then have s: "v' < 100" "dec_digits (unat v) = dec_digits (unat v') @ q"
    using write_u64_loop_spec[OF l False] by simp_all
  then have u: "unat v' < 100" by (simp add: word_less_nat_alt)
  show ?thesis
  proof (cases "v' \<ge> 10")
    case True
    then have "10 \<le> unat v'" by (simp add: word_le_nat_alt)
    moreover have "unat v' div 10 < 10" using u by simp
    ultimately have "dec_digits (unat v') = [digit (unat v' div 10), digit (unat v' mod 10)]"
      using u dec_digits.simps[of "unat v'"] dec_digits.simps[of "unat v' div 10"] by simp
    then show ?thesis
      using False True l s digit_pairs[OF u] by (simp add: write_u64_def Let_def)
  next
    case low: False
    then have "unat v' < 10" by (simp add: word_le_nat_alt)
    then show ?thesis
      using False low l s digit_char_of[of "unat v'"] by (simp add: write_u64_def dec_digits.simps)
  qed
qed

definition hex_value :: "string \<Rightarrow> nat" where
  "hex_value s = foldl (\<lambda>a c. 16 * a + (if c \<in> set ''abcdef'' then of_char c - 87 else of_char c - 48)) 0 s"

lemma hex_value_Cons:
  "d < 16 \<Longrightarrow> hex_value (kHexDigits ! d # s) = d * 16 ^ length s + hex_value s"
proof -
  assume "d < 16"
  moreover have "list_all (\<lambda>d. (if kHexDigits ! d \<in> set ''abcdef'' then of_char (kHexDigits ! d) - 87
      else of_char (kHexDigits ! d) - 48) = d) [0..<16]"
    by (simp add: kHexDigits_def upt_rec)
  ultimately have v: "(if kHexDigits ! d \<in> set ''abcdef'' then of_char (kHexDigits ! d) - 87
      else of_char (kHexDigits ! d) - 48) = d"
    by (simp only: list_all_iff) simp
  have "foldl (\<lambda>a c. 16 * a + f c) e s = e * 16 ^ length s + foldl (\<lambda>a c. 16 * a + f c) 0 s"
    for f :: "char \<Rightarrow> nat" and e
  proof (induction s arbitrary: e)
    case (Cons c s)
    have "foldl (\<lambda>a c. 16 * a + f c) e (c # s) = (16 * e + f c) * 16 ^ length s + foldl (\<lambda>a c. 16 * a + f c) 0 s"
      using Cons.IH[of "16 * e + f c"] by simp
    moreover have "foldl (\<lambda>a c. 16 * a + f c) 0 (c # s) = f c * 16 ^ length s + foldl (\<lambda>a c. 16 * a + f c) 0 s"
      using Cons.IH[of "f c"] by simp
    ultimately show ?case by (simp add: algebra_simps)
  qed simp
  from this[of _ d] v show ?thesis by (simp add: hex_value_def)
qed

lemma and_0xf: "unat (v AND 0xf :: uint64) = unat v mod 16"
proof -
  have "v AND 0xf = take_bit 4 v" by (simp add: take_bit_eq_mask mask_eq_exp_minus_1)
  then have "unat (v AND 0xf) = take_bit 4 (unat v)" by (simp only: unsigned_take_bit_eq)
  then show ?thesis by (simp add: take_bit_eq_mod)
qed

lemma chunk_digits_spec:
  "hex_value (chunk_digits v p) = unat v * 16 ^ length p + hex_value p \<and>
   (unat v < 16 ^ k \<longrightarrow> length (chunk_digits v p) \<le> k + length p) \<and>
   set (chunk_digits v p) \<subseteq> set kHexDigits \<union> set p"
proof (induction v p arbitrary: k rule: chunk_digits.induct)
  case (1 v p)
  show ?case
  proof (cases "v = 0")
    case False
    let ?d = "unat (v AND 0xf)"
    have d: "?d < 16" "unat v = unat (drop_bit 4 v) * 16 + ?d"
      by (simp_all add: and_0xf drop_bit_eq_div unat_div_distrib)
    have u: "unat v \<noteq> 0" using False by (simp add: unat_eq_zero)
    have "unat (drop_bit 4 v) < 16 ^ (k - 1)" "0 < k" if "unat v < 16 ^ k"
      using that u d by (cases k; auto)+
    then show ?thesis
      using "1.IH"[OF False, of "k - 1"] False d hex_value_Cons[OF d(1), of p]
      by (subst (1 2 3) chunk_digits.simps)
         (auto simp: algebra_simps kHexDigits_def[THEN arg_cong, of length] intro!: nth_mem)
  qed (simp add: chunk_digits.simps)
qed

lemma write_chunk_size_hex:
  "\<exists>h. write_chunk_size v = h @ CRLF \<and> hex_value h = unat v \<and> 1 \<le> length h \<and> length h \<le> 16 \<and>
     set h \<subseteq> set kHexDigits"
proof (cases "v = 0")
  case True
  then show ?thesis by (auto simp: write_chunk_size_def hex_value_def kHexDigits_def)
next
  case False
  have "unat v < 16 ^ 16" using unat_word_less[of v] by simp
  moreover have "chunk_digits v [] \<noteq> []"
    using False chunk_digits_spec[of v "[]" 0] by (auto simp: hex_value_def unat_eq_zero)
  ultimately show ?thesis
    using False chunk_digits_spec[of v "[]" 16]
    by (auto simp: write_chunk_size_def hex_value_def[of "[]"] Suc_le_eq)
qed

subsection \<open>The interface of a latching sink\<close>

text \<open>
  What the serializer relies on: emitting a text appends it or, for good, marks the sink
  as failed, and a failed sink ignores what is emitted.
\<close>

locale latching_sink =
  fixes bad :: "'s \<Rightarrow> bool" and contents :: "'s \<Rightarrow> 'a list" and emit :: "'a list \<Rightarrow> 's \<Rightarrow> 's"
  assumes sticky: "bad s \<Longrightarrow> emit t s = s"
    and appends: "\<not> bad (emit t s) \<Longrightarrow> contents (emit t s) = contents s @ t"
    and keeps: "bad (emit t s) \<Longrightarrow> contents (emit t s) = contents s"
begin

lemma good_before: "\<not> bad (emit t s) \<Longrightarrow> \<not> bad s"
  using sticky by metis

lemma fold_sticky: "bad s \<Longrightarrow> fold emit ts s = s"
  by (induction ts) (simp_all add: sticky)

lemma fold_appends:
  "\<not> bad (fold emit ts s) \<Longrightarrow> \<not> bad s \<and> contents (fold emit ts s) = contents s @ concat ts"
proof (induction ts arbitrary: s)
  case (Cons t ts)
  then show ?case using good_before[of t s] appends[of t s] by simp
qed simp

lemma fold_prefix:
  "\<exists>n \<le> length ts. contents (fold emit ts s) = contents s @ concat (take n ts)"
proof (induction ts arbitrary: s)
  case (Cons t ts)
  show ?case
  proof (cases "bad (emit t s)")
    case True
    then show ?thesis using keeps[OF True] fold_sticky[OF True] by (intro exI[of _ 0]) simp
  next
    case False
    obtain n where "n \<le> length ts"
      "contents (fold emit ts (emit t s)) = contents (emit t s) @ concat (take n ts)"
      using Cons.IH[of "emit t s"] by blast
    then show ?thesis using appends[OF False] by (intro exI[of _ "Suc n"]) simp
  qed
qed simp

end

definition put_text :: "string \<Rightarrow> out_buffer_t \<Rightarrow> out_buffer_t" where
  "put_text t = put_bytes t (length t)"

lemma http_error_truthy [simp]: "error_truthy (http_error e)"
  by (simp add: error_truthy_def http_error_def error_code_def)

lemma no_error_falsy [simp]: "\<not> error_truthy no_error"
  by (simp add: error_truthy_def no_error_def error_code_def)

interpretation out: latching_sink failed ob_data put_text
  by unfold_locales (auto simp: put_text_def put_bytes_def failed_def split: if_splits)

lemma put_small: "length s < 2 ^ 32 \<Longrightarrow> put s = put_text s"
  by (simp add: put_def put_text_def fun_eq_iff)

lemma put_literals:
  "put_byte c = put_text [c]" "put_crlf = put_text CRLF"
  "put_bytes '': '' 2 = put_text '': ''" "put_bytes ''HTTP/1.1 '' 9 = put_text ''HTTP/1.1 ''"
  "put_bytes ('' HTTP/1.0'' @ CRLF) 11 = put_text ('' HTTP/1.0'' @ CRLF)"
  "put_bytes ('' HTTP/1.1'' @ CRLF) 11 = put_text ('' HTTP/1.1'' @ CRLF)"
  "put_bytes s (length s) = put_text s"
  by (simp_all add: put_byte_def put_crlf_def put_text_def fun_eq_iff eval_nat_numeral)

lemma failed_fail: "failed (fail (http_error e) b)"
  by (simp add: failed_def fail_def)

subsection \<open>Headers and status lines\<close>

definition header_line :: "string \<Rightarrow> string \<Rightarrow> string" where
  "header_line n v = n @ '': '' @ v @ CRLF"

lemma header_named_writes:
  assumes "\<not> has_crlf n" "\<not> has_crlf v" "length n < 2 ^ 32" "length v < 2 ^ 32"
  shows "header_named n v b = fold put_text [n, '': '', v, CRLF] b"
  using assms by (simp add: header_named_def put_small put_literals)

lemma header_named_appends:
  assumes "length n < 2 ^ 32" "length v < 2 ^ 32" "\<not> failed (header_named n v b)"
  shows "\<not> failed b \<and> ob_data (header_named n v b) = ob_data b @ header_line n v \<and>
    \<not> has_crlf n \<and> \<not> has_crlf v"
proof -
  have "\<not> has_crlf n" "\<not> has_crlf v"
    using assms(3) failed_fail by (auto simp: header_named_def split: if_splits)
  then show ?thesis
    using assms out.fold_appends[of "[n, '': '', v, CRLF]" b] header_named_writes[of n v b]
    by (simp add: header_line_def)
qed

lemma headers_sticky: "failed b \<Longrightarrow> fold (\<lambda>(n, v). header_named n v) hs b = b"
proof (induction hs)
  case (Cons h hs)
  moreover have "header_named n v b = b" for n v
    using Cons.prems
    by (simp add: header_named_def fail_def failed_def put_def put_bytes_def put_crlf_def)
  ultimately show ?case by (cases h) simp
qed simp

lemma header_line_LF: "\<not> has_crlf n \<Longrightarrow> \<not> has_crlf v \<Longrightarrow> count_list (header_line n v) LF = 1"
  by (simp add: header_line_def has_crlf_def count_list_0_iff)

lemma field_prefix_name: "f \<noteq> Other \<Longrightarrow> field_prefix f = Some (field_name f @ '': '')"
  by (cases f) (simp_all add: field_prefix_def field_name_def kFieldCount_def)

lemma put_prefix_text:
  assumes "f \<noteq> Other"
  shows "put_prefix f b = put_text (field_name f @ '': '') b"
  unfolding put_prefix_def field_prefix_name[OF assms] option.case put_literals(7) ..

lemma header_field_appends:
  assumes "f \<noteq> Other" "length v < 2 ^ 32" "\<not> failed (header_field f v b)"
  shows "\<not> failed b \<and> ob_data (header_field f v b) = ob_data b @ header_line (field_name f) v \<and>
    \<not> has_crlf v"
proof -
  have "\<not> has_crlf v"
    using assms(3) failed_fail by (auto simp: header_field_def split: if_splits)
  then have "header_field f v b = fold put_text [field_name f @ '': '', v, CRLF] b"
    using assms by (simp add: header_field_def put_prefix_text put_small put_literals)
  then show ?thesis
    using assms(3) out.fold_appends[of "[field_name f @ '': '', v, CRLF]" b] \<open>\<not> has_crlf v\<close>
    by (simp add: header_line_def)
qed

lemma status_table_codes:
  "list_all (\<lambda>(s, code_text, phrase). code_text = dec_digits (unat s)) CORNET_STATUS_MAP"
  by (simp add: CORNET_STATUS_MAP_def dec_digits.simps digit_def)

lemma put_u64_appends:
  "\<not> failed (put_u64 v b) \<Longrightarrow> \<not> failed b \<and> ob_data (put_u64 v b) = ob_data b @ dec_digits (unat v)"
  by (auto simp: put_u64_def failed_def write_u64_dec split: if_splits)

lemma reason_phrase_short: "length (reason_phrase s) < 2 ^ 32"
proof -
  have "list_all (\<lambda>(s, c, p). length p < 2 ^ 32) CORNET_STATUS_MAP"
    by (simp add: CORNET_STATUS_MAP_def)
  then show ?thesis
    by (auto simp: reason_phrase_def list_all_iff split: option.splits dest!: map_of_SomeD)
qed

lemma status_line_text:
  "status_line s = Some line \<Longrightarrow>
    line = ''HTTP/1.1 '' @ dec_digits (unat s) @ '' '' @ reason_phrase s @ CRLF"
  using status_table_codes
  by (auto simp: status_line_def reason_phrase_def list_all_iff split: option.splits dest!: map_of_SomeD)

lemma status_composed_appends:
  fixes s :: status_t and b
  defines "c \<equiv> put_u64 (ucast s) (put_bytes ''HTTP/1.1 '' 9 b)"
  assumes "\<not> failed (put_crlf (put (reason_phrase s) (put_byte (CHR '' '') c)))"
  shows "\<not> failed b \<and> ob_data (put_crlf (put (reason_phrase s) (put_byte (CHR '' '') c))) =
    ob_data b @ ''HTTP/1.1 '' @ dec_digits (unat s) @ '' '' @ reason_phrase s @ CRLF"
proof -
  have u: "unat (ucast s :: uint64) = unat s"
    using unat_word_less[of s] by (intro unat_ucast_self) simp
  have w: "put_crlf (put (reason_phrase s) (put_byte (CHR '' '') c)) =
      fold put_text ['' '', reason_phrase s, CRLF] c" for c
    by (simp add: put_small[OF reason_phrase_short] put_literals)
  have "\<not> failed c \<and> ob_data (put_crlf (put (reason_phrase s) (put_byte (CHR '' '') c))) =
      ob_data c @ '' '' @ reason_phrase s @ CRLF"
    using assms out.fold_appends[of "['' '', reason_phrase s, CRLF]" c] unfolding w by simp
  then show ?thesis
    using put_u64_appends[of "ucast s" "put_bytes ''HTTP/1.1 '' 9 b"]
      out.fold_appends[of "[''HTTP/1.1 '']" b]
    by (simp add: put_literals u c_def)
qed

text \<open>A buffer stays within its lease.\<close>

definition out_ok :: "out_buffer_t \<Rightarrow> bool" where
  "out_ok b \<longleftrightarrow> (if ob_valid b then ob_size b \<le> ob_capacity b else ob_size b = 0)"

lemma write_u64_length: "length (write_u64 v) \<le> 20"
proof -
  have "unat v < 10 ^ 20" using unat_word_less[of v] by simp
  then show ?thesis unfolding write_u64_dec by (rule dec_digits_length) simp
qed

lemma out_ok_put_bytes: "out_ok b \<Longrightarrow> out_ok (put_bytes s len b)"
  by (auto simp: out_ok_def put_bytes_def remaining_def ob_size_def)

lemma out_ok_put_u64: "out_ok b \<Longrightarrow> out_ok (put_u64 v b)"
  using write_u64_length[of v] by (auto simp: out_ok_def put_u64_def remaining_def ob_size_def)

lemma out_ok_fail: "out_ok b \<Longrightarrow> out_ok (fail e b)"
  by (simp add: out_ok_def fail_def ob_size_def split: if_splits)

lemma out_ok_reserve: "out_ok b \<Longrightarrow> out_ok (snd (reserve len b))"
  by (auto simp: out_ok_def reserve_def remaining_def ob_size_def)

lemma out_ok_patch: "out_ok b \<Longrightarrow> out_ok (patch_u64 off len v b)"
  by (auto simp: out_ok_def patch_u64_def ob_size_def Let_def)

lemma out_ok_put: "out_ok b \<Longrightarrow> out_ok (put s b)" "out_ok b \<Longrightarrow> out_ok (put_byte c b)"
  "out_ok b \<Longrightarrow> out_ok (put_crlf b)" "out_ok b \<Longrightarrow> out_ok (put_prefix f b)"
  by (auto simp: put_def put_byte_def put_crlf_def put_prefix_def intro: out_ok_put_bytes
      split: option.splits)

lemmas out_ok_intros = out_ok_put_bytes out_ok_put_u64 out_ok_fail out_ok_reserve out_ok_patch out_ok_put

subsection \<open>Properties\<close>

text \<open>(C11) \<open>write_u64\<close>, which emits two digits per division through a lookup table, writes
  the decimal numeral of its argument: without leading zeros, at most twenty characters (the
  size of its scratch array), and reading the numeral back gives the number.\<close>

theorem write_u64_correct:
  "write_u64 v = dec_digits (unat v) \<and> length (write_u64 v) \<le> 20 \<and> dec_value (write_u64 v) = unat v"
  using write_u64_length[of v] by (simp add: write_u64_dec dec_value_digits)

text \<open>(C5) No header can add a line: if a buffer has not failed after a sequence of headers was
  written to it, then no name and no value held a CR or LF, exactly the lines
  \<^verbatim>\<open>name: value CRLF\<close> were appended, and the number of line ends appended is the
  number of headers.\<close>

theorem headers_no_injection:
  assumes "\<forall>(n, v) \<in> set hs. length n < 2 ^ 32 \<and> length v < 2 ^ 32"
    and "\<not> failed (fold (\<lambda>(n, v). header_named n v) hs b)"
  shows "ob_data (fold (\<lambda>(n, v). header_named n v) hs b) =
      ob_data b @ concat (map (\<lambda>(n, v). header_line n v) hs) \<and>
    (\<forall>(n, v) \<in> set hs. \<not> has_crlf n \<and> \<not> has_crlf v) \<and>
    count_list (concat (map (\<lambda>(n, v). header_line n v) hs)) LF = length hs"
  using assms
proof (induction hs arbitrary: b)
  case (Cons h hs)
  obtain n v where h: "h = (n, v)" by (cases h)
  have step: "\<not> failed (header_named n v b)"
    using Cons.prems(2) headers_sticky[of "header_named n v b" hs] by (auto simp: h)
  show ?case
    using Cons step header_named_appends[of n v b] by (auto simp: h header_line_LF)
qed simp

theorem headers_no_injection_witness:
  "ob_data (fold (\<lambda>(n, v). header_named n v) [(''A'', ''1''), (''Bc'', ''xy'')] (out_reset 64)) =
     concat (map (\<lambda>(n, v). header_line n v) [(''A'', ''1''), (''Bc'', ''xy'')])"
proof -
  have "\<not> failed (fold (\<lambda>(n, v). header_named n v) [(''A'', ''1''), (''Bc'', ''xy'')] (out_reset 64))"
    by (simp add: out_reset_def header_named_def has_crlf_def put_def put_crlf_def put_bytes_def
        remaining_def ob_size_def failed_def)
  then show ?thesis
    using headers_no_injection[of "[(''A'', ''1''), (''Bc'', ''xy'')]" "out_reset 64"]
    by (simp add: out_reset_def)
qed

text \<open>(C13) A status line is \<^verbatim>\<open>HTTP/1.1 code reason CRLF\<close> for each of the 65536 status
  values, whether it comes from the table of pre-rendered lines or is composed: the table's code
  texts are the decimal numerals of their keys.\<close>

theorem serialize_status_line_correct:
  assumes "\<not> failed (serialize_status_line s b)"
  shows "ob_data (serialize_status_line s b) =
    ob_data b @ ''HTTP/1.1 '' @ dec_digits (unat s) @ '' '' @ reason_phrase s @ CRLF"
proof (cases "status_line s")
  case None
  then show ?thesis
    using assms status_composed_appends[of s b] by (simp add: serialize_status_line_def)
next
  case (Some line)
  have w: "serialize_status_line s b = put_text line b"
    by (simp only: serialize_status_line_def Some option.case put_literals(7))
  show ?thesis
    using assms out.appends[of line b] status_line_text[OF Some] unfolding w by simp
qed

theorem serialize_status_line_correct_witness:
  "ob_data (serialize_status_line 404 (out_reset 64)) =
    ''HTTP/1.1 '' @ dec_digits 404 @ '' '' @ reason_phrase 404 @ CRLF"
proof -
  have "\<not> failed (serialize_status_line 404 (out_reset 64))" by code_simp
  then show ?thesis
    using serialize_status_line_correct[of 404 "out_reset 64"] by (simp add: out_reset_def)
qed

text \<open>Every writer keeps the output buffer within its lease, the patching of a reserved
  run included: the number of bytes held never exceeds the capacity.\<close>

theorem serializer_within_lease:
  assumes "out_ok b"
  shows "out_ok (request_line m path query v b) \<and> out_ok (serialize_status_line s b) \<and>
    out_ok (header_field f value b) \<and> out_ok (header_named name value b) \<and>
    out_ok (header_u64 f n b) \<and> out_ok (date_header d b) \<and> out_ok (end_headers b) \<and>
    out_ok (snd (reserve len b)) \<and> out_ok (patch_u64 off len n b)"
  using assms
  by (auto simp: request_line_def serialize_status_line_def header_field_def header_named_def
      header_u64_def date_header_def end_headers_def Let_def
      intro!: out_ok_intros split: option.splits)

theorem serializer_within_lease_witness:
  "out_ok (header_u64 ContentLength 1234 (out_reset 38)) \<and>
   ob_data (header_u64 ContentLength 1234 (out_reset 38)) = ''Content-Length: 1234'' @ CRLF"
proof -
  have "out_ok (out_reset 38)" by (simp add: out_ok_def out_reset_def ob_size_def)
  moreover have "ob_data (header_u64 ContentLength 1234 (out_reset 38)) = ''Content-Length: 1234'' @ CRLF"
    by code_simp
  ultimately show ?thesis using serializer_within_lease by blast
qed

end
