(* ===== verification/Url.thy ===== *)
theory Url
  imports Serializer
begin

text \<open>
  Absolute urls (\<^verbatim>\<open>include/cornet/http/common/url.h\<close>,
  \<^verbatim>\<open>src/http/common/url.cc\<close>): parsing, the origin comparison, rebasing onto other
  storage and the resolution of a Location value.

  A parsed url holds views into the text it was parsed from.  A view is an offset and
  a length, so that rebasing, which is pointer arithmetic in the source, keeps the
  offsets and changes the text they refer to.

  The lemmas show how an accepted url decomposes, that parsing inverts composing, that
  nothing in an accepted url can break a request line, that a relative Location stays on
  the origin it came from, and the form of Location that is resolved wrongly.
\<close>

datatype scheme_t = SchemeHttp | SchemeHttps

fun default_port :: "scheme_t \<Rightarrow> uint16" where
  "default_port SchemeHttps = 443"
| "default_port SchemeHttp = 80"

fun scheme_name :: "scheme_t \<Rightarrow> string" where
  "scheme_name SchemeHttps = ''https''"
| "scheme_name SchemeHttp = ''http''"

type_synonym view = "nat \<times> nat"

definition view_text :: "string \<Rightarrow> view \<Rightarrow> string" where
  "view_text raw v = substr raw (fst v) (snd v)"

record url_t =
  u_raw :: string
  u_authority :: view
  u_host :: view
  u_userinfo :: view
  u_path :: view
  u_query :: view
  u_scheme :: scheme_t
  u_port :: uint16
  u_explicit_port :: bool
  u_ipv6 :: bool

definition host :: "url_t \<Rightarrow> string" where "host u = view_text (u_raw u) (u_host u)"
definition authority :: "url_t \<Rightarrow> string" where "authority u = view_text (u_raw u) (u_authority u)"
definition path :: "url_t \<Rightarrow> string" where "path u = view_text (u_raw u) (u_path u)"
definition query :: "url_t \<Rightarrow> string" where "query u = view_text (u_raw u) (u_query u)"
definition userinfo :: "url_t \<Rightarrow> string" where "userinfo u = view_text (u_raw u) (u_userinfo u)"

subsection \<open>Parsing\<close>

definition bad_host_char :: "char \<Rightarrow> bool" where
  "bad_host_char c \<longleftrightarrow> u8 c \<le> 0x20 \<or> u8 c \<ge> 0x7f \<or> c \<in> {CHR ''/'', CHR 0x5C, CHR ''?'', CHR ''#'', CHR ''@''}"

definition valid_host :: "string \<Rightarrow> bool" where
  "valid_host h = (if h = [] then False else list_all (\<lambda>c. \<not> bad_host_char c) h)"

text \<open>The loop of \<^verbatim>\<open>parse_port\<close> over the remaining characters.\<close>

fun port_loop :: "uint32 \<Rightarrow> string \<Rightarrow> uint32 option" where
  "port_loop v [] = Some v"
| "port_loop v (c # cs) =
    (if u8 c < u8 (CHR ''0'') \<or> u8 c > u8 (CHR ''9'') then None
     else port_loop (v * 10 + ucast (u8 c - u8 (CHR ''0''))) cs)"

definition parse_port :: "string \<Rightarrow> uint16 expected" where
  "parse_port t =
    (if t = [] \<or> length t > 5 then http_unexpected BadUrl
     else case port_loop 0 t of
       None \<Rightarrow> http_unexpected BadUrl
     | Some v \<Rightarrow> if v = 0 \<or> v > 0xffff then http_unexpected BadUrl else Inr (ucast v))"

definition bad_url_char :: "char \<Rightarrow> bool" where
  "bad_url_char c \<longleftrightarrow> u8 c \<le> 0x20 \<or> c = CHR 0x7F"

definition scheme_of :: "string \<Rightarrow> scheme_t option" where
  "scheme_of s = (if iequals s ''http'' then Some SchemeHttp
                  else if iequals s ''https'' then Some SchemeHttps else None)"

text \<open>
  The authority without its userinfo: the host as a view into the authority, whether it is
  a bracketed literal, and the text after the port separator if there is one.
\<close>

definition split_authority :: "string \<Rightarrow> (view \<times> bool \<times> string option) option" where
  "split_authority a =
    (if hd a = CHR ''['' then
       (case find_pos ((=) (CHR '']'')) a of
          None \<Rightarrow> None
        | Some close \<Rightarrow>
            let after = drop (close + 1) a in
            if after = [] then Some ((1, close - 1), True, None)
            else if hd after \<noteq> CHR '':'' then None
            else Some ((1, close - 1), True, Some (drop 1 after)))
     else case rfind_pos ((=) (CHR '':'')) a of
       Some colon \<Rightarrow> Some ((0, colon), False, Some (drop (colon + 1) a))
     | None \<Rightarrow> Some ((0, length a), False, None))"

text \<open>The tail after the authority: the path and the query, as views into the tail.\<close>

definition split_tail :: "string \<Rightarrow> view \<times> view" where
  "split_tail tail =
    (if tail = [] then ((0, 0), (0, 0))
     else let n = (case find_pos ((=) (CHR ''#'')) tail of None \<Rightarrow> length tail | Some f \<Rightarrow> f) in
       case find_pos ((=) (CHR ''?'')) (take n tail) of
         None \<Rightarrow> ((0, n), (0, 0))
       | Some q \<Rightarrow> ((0, q), (q + 1, n - (q + 1))))"

definition shift_view :: "nat \<Rightarrow> view \<Rightarrow> view" where
  "shift_view off v = (off + fst v, snd v)"

definition parse_port_of :: "scheme_t \<Rightarrow> string option \<Rightarrow> (uint16 \<times> bool) expected" where
  "parse_port_of sch p = (case p of
      None \<Rightarrow> Inr (default_port sch, False)
    | Some t \<Rightarrow> (case parse_port t of Inl e \<Rightarrow> Inl e | Inr v \<Rightarrow> Inr (v, True)))"

text \<open>The checks of \<^verbatim>\<open>url_t::parse\<close> in their order: the bytes and the scheme with the
  position of the separator, the cut of the rest into userinfo, authority and tail, and the
  assembly of the views.\<close>

definition parse_scheme :: "string \<Rightarrow> (scheme_t \<times> nat) expected" where
  "parse_scheme raw =
    (if list_ex bad_url_char raw then http_unexpected BadUrl
     else (case find_sub ''://'' raw of
       None \<Rightarrow> http_unexpected BadUrl
     | Some sep \<Rightarrow>
         if sep = 0 then http_unexpected BadUrl
         else (case scheme_of (take sep raw) of
           None \<Rightarrow> http_unexpected UnsupportedScheme
         | Some sch \<Rightarrow> Inr (sch, sep))))"

definition delim :: "char \<Rightarrow> bool" where
  "delim c \<longleftrightarrow> c \<in> set ''/?#''"

definition authority_len :: "string \<Rightarrow> nat" where
  "authority_len rest =
    (case find_pos delim rest of None \<Rightarrow> length rest | Some k \<Rightarrow> k)"

definition userinfo_len :: "string \<Rightarrow> nat option" where
  "userinfo_len full = rfind_pos ((=) (CHR ''@'')) full"

definition build_url :: "string \<Rightarrow> scheme_t \<Rightarrow> nat \<Rightarrow> view \<Rightarrow> nat \<Rightarrow> string \<Rightarrow> string \<Rightarrow> url_t expected" where
  "build_url raw sch off ui skip full tail =
    (let a = drop skip full; aoff = off + skip; toff = off + length full in
     if a = [] then http_unexpected BadUrl
     else (case split_authority a of
       None \<Rightarrow> http_unexpected BadUrl
     | Some (h, v6, p) \<Rightarrow>
         if \<not> valid_host (view_text a h) then http_unexpected BadUrl
         else and_then (parse_port_of sch p) (\<lambda>(prt, expl).
           Inr \<lparr>u_raw = raw, u_authority = (aoff, length a), u_host = shift_view aoff h,
                u_userinfo = ui, u_path = shift_view toff (fst (split_tail tail)),
                u_query = shift_view toff (snd (split_tail tail)),
                u_scheme = sch, u_port = prt, u_explicit_port = expl, u_ipv6 = v6\<rparr>)))"

definition parse_url :: "string \<Rightarrow> url_t expected" where
  "parse_url raw =
    and_then (parse_scheme raw) (\<lambda>(sch, sep).
      let rest = drop (sep + 3) raw; n = authority_len rest; full = take n rest in
      (case userinfo_len full of
         None \<Rightarrow> build_url raw sch (sep + 3) (0, 0) 0 full (drop n rest)
       | Some k \<Rightarrow> build_url raw sch (sep + 3) (sep + 3, k) (k + 1) full (drop n rest)))"

subsection \<open>Origins, rebasing, Location\<close>


text \<open>The assertion that the storage has the length of the text is the case \<open>None\<close>.\<close>

definition rebase_view :: "view \<Rightarrow> view" where
  "rebase_view v = (if snd v = 0 then (0, 0) else v)"

definition rebase :: "string \<Rightarrow> url_t \<Rightarrow> url_t option" where
  "rebase storage u =
    (if length storage \<noteq> length (u_raw u) then None
     else Some (u\<lparr>u_raw := storage, u_authority := rebase_view (u_authority u),
       u_host := rebase_view (u_host u), u_userinfo := rebase_view (u_userinfo u),
       u_path := rebase_view (u_path u), u_query := rebase_view (u_query u)\<rparr>))"

text \<open>The pieces the lambda \<^verbatim>\<open>put\<close> is called with, in order, and the loop that stops at the
  first one that does not fit.\<close>

definition location_pieces :: "url_t \<Rightarrow> string \<Rightarrow> string list" where
  "location_pieces base location =
    (if find_sub ''://'' location \<noteq> None then [location]
     else if length location \<ge> 2 \<and> location ! 0 = CHR ''/'' \<and> location ! 1 = CHR ''/''
     then [scheme_name (u_scheme base), '':'', location]
     else [scheme_name (u_scheme base), ''://'', authority base] @
       (if hd location = CHR ''/'' then [location]
        else [case rfind_pos ((=) (CHR ''/'')) (path base) of
                None \<Rightarrow> ''/'' | Some slash \<Rightarrow> take (slash + 1) (path base), location]))"

fun put_pieces :: "nat \<Rightarrow> string \<Rightarrow> string list \<Rightarrow> string option" where
  "put_pieces cap out [] = Some out"
| "put_pieces cap out (s # ss) =
    (if length out + length s > cap then None else put_pieces cap (out @ s) ss)"

definition write_absolute_url :: "url_t \<Rightarrow> string \<Rightarrow> nat \<Rightarrow> string expected" where
  "write_absolute_url base location cap =
    (if location = [] then http_unexpected BadUrl
     else case put_pieces cap [] (location_pieces base location) of
       None \<Rightarrow> http_unexpected OutputOverflow
     | Some s \<Rightarrow> Inr s)"

subsection \<open>How an accepted url decomposes\<close>

declare http_unexpected_Inl [simp]

lemma scheme_of_no_colon:
  assumes "scheme_of s = Some sch"
  shows "CHR '':'' \<notin> set s" "s \<noteq> []" "iequals s (scheme_name sch)"
proof -
  have i: "iequals s ''http'' \<or> iequals s ''https''" "iequals s (scheme_name sch)"
    using assms by (auto simp: scheme_of_def split: if_splits)
  then show "s \<noteq> []" "iequals s (scheme_name sch)" by (auto simp: iequals_def)
  have "case_bit (CHR '':'') \<notin> set (map case_bit ''https'')"
    by (simp add: case_bit_def u8_def)
  moreover have "set (map case_bit s) \<subseteq> set (map case_bit ''https'')"
    using i by (auto simp: iequals_alt)
  ultimately show "CHR '':'' \<notin> set s" by (metis imageI list.set_map subsetD)
qed

lemma authority_len_split:
  assumes "\<forall>c \<in> set x. \<not> delim c" "t = [] \<or> delim (hd t)"
  shows "authority_len (x @ t) = length x"
proof (cases t)
  case Nil
  then have "find_pos delim (x @ t) = None" using assms(1) by (simp add: find_pos_None)
  then show ?thesis using Nil by (simp add: authority_len_def)
next
  case (Cons c t')
  then have "delim c" using assms(2) by simp
  from find_pos_here[OF assms(1) this, of t'] show ?thesis using Cons by (simp add: authority_len_def)
qed

lemma authority_len_cut:
  "\<exists>x t. rest = x @ t \<and> length x = authority_len rest \<and> (\<forall>c \<in> set x. \<not> delim c) \<and>
     (t = [] \<or> delim (hd t))"
proof (cases "find_pos delim rest")
  case None
  moreover from None have "\<forall>c \<in> set rest. \<not> delim c" by (simp only: find_pos_None)
  ultimately have "rest = rest @ [] \<and> length rest = authority_len rest \<and> (\<forall>c \<in> set rest. \<not> delim c)"
    by (simp add: authority_len_def)
  then show ?thesis by blast
next
  case (Some k)
  from find_pos_split[OF this] obtain pre c post where
    "rest = pre @ c # post" "length pre = k" "delim c" "\<forall>y \<in> set pre. \<not> delim y" by blast
  then have "rest = pre @ (c # post) \<and> length pre = authority_len rest \<and>
      (\<forall>y \<in> set pre. \<not> delim y) \<and> delim (hd (c # post))"
    using Some by (simp add: authority_len_def)
  then show ?thesis by blast
qed

text \<open>The parts of a url that is accepted.\<close>

definition url_parts :: "string \<Rightarrow> scheme_t \<Rightarrow> string option \<Rightarrow> string \<Rightarrow> string \<Rightarrow> bool" where
  "url_parts s sch ui a t \<longleftrightarrow>
    scheme_of s = Some sch \<and>
    (\<forall>x. ui = Some x \<longrightarrow> (\<forall>c \<in> set x. \<not> delim c)) \<and>
    a \<noteq> [] \<and> (\<forall>c \<in> set a. \<not> delim c \<and> c \<noteq> CHR ''@'') \<and> (t = [] \<or> delim (hd t))"

definition join_url :: "string \<Rightarrow> string option \<Rightarrow> string \<Rightarrow> string \<Rightarrow> string" where
  "join_url s ui a t = s @ ''://'' @ (case ui of None \<Rightarrow> [] | Some x \<Rightarrow> x @ ''@'') @ a @ t"

definition url_of :: "string \<Rightarrow> scheme_t \<Rightarrow> string option \<Rightarrow> string \<Rightarrow> string \<Rightarrow> url_t expected" where
  "url_of s sch ui a t = build_url (join_url s ui a t) sch (length s + 3)
     (case ui of None \<Rightarrow> (0, 0) | Some x \<Rightarrow> (length s + 3, length x))
     (case ui of None \<Rightarrow> 0 | Some x \<Rightarrow> length x + 1)
     ((case ui of None \<Rightarrow> [] | Some x \<Rightarrow> x @ ''@'') @ a) t"

lemma parse_join:
  assumes "url_parts s sch ui a t" "\<forall>c \<in> set (join_url s ui a t). \<not> bad_url_char c"
  shows "parse_url (join_url s ui a t) = url_of s sch ui a t"
proof -
  let ?full = "(case ui of None \<Rightarrow> [] | Some x \<Rightarrow> x @ ''@'') @ a"
  have S: "scheme_of s = Some sch" using assms(1) by (simp add: url_parts_def)
  have j: "join_url s ui a t = s @ ''://'' @ ?full @ t" by (simp add: join_url_def)
  have "find_sub ''://'' (join_url s ui a t) = Some (length s)"
    unfolding j by (rule find_sub_here[OF scheme_of_no_colon(1)[OF S]])
  then have ps: "parse_scheme (join_url s ui a t) = Inr (sch, length s)"
    using assms(2) S scheme_of_no_colon(2)[OF S] by (simp add: parse_scheme_def j list_ex_iff)
  have rest: "drop (length s + 3) (join_url s ui a t) = ?full @ t" by (simp add: j)
  have d: "\<not> delim (CHR ''@'')" by (simp add: delim_def)
  have "\<forall>c \<in> set ?full. \<not> delim c"
  proof (cases ui)
    case None
    then show ?thesis using assms(1) by (simp add: url_parts_def)
  next
    case (Some x)
    then show ?thesis using assms(1) d by (simp add: url_parts_def ball_Un)
  qed
  then have n: "authority_len (?full @ t) = length ?full"
    using assms(1) by (intro authority_len_split) (simp_all add: url_parts_def)
  have ui: "userinfo_len ?full = map_option length ui"
  proof (cases ui)
    case None
    then have "\<forall>c \<in> set ?full. CHR ''@'' \<noteq> c" using assms(1) by (auto simp: url_parts_def)
    then show ?thesis using None rfind_pos_None[of "(=) (CHR ''@'')" ?full] by (simp add: userinfo_len_def)
  next
    case (Some x)
    then show ?thesis
      using rfind_pos_here[of a "(=) (CHR ''@'')" "CHR ''@''" x] assms(1)
      by (auto simp: userinfo_len_def url_parts_def)
  qed
  show ?thesis
    unfolding parse_url_def ps using rest n ui
    by (cases ui) (simp_all add: url_of_def Let_def)
qed

lemma parse_url_parts:
  assumes "parse_url raw = Inr u"
  shows "\<exists>s sch ui a t. raw = join_url s ui a t \<and> url_parts s sch ui a t \<and>
    (\<forall>c \<in> set raw. \<not> bad_url_char c) \<and> url_of s sch ui a t = Inr u"
proof -
  obtain sch sep where ps: "parse_scheme raw = Inr (sch, sep)"
    using assms by (cases "parse_scheme raw") (auto simp: parse_url_def)
  then have good: "\<forall>c \<in> set raw. \<not> bad_url_char c" and f: "find_sub ''://'' raw = Some sep"
    and S: "scheme_of (take sep raw) = Some sch"
    by (auto simp: parse_scheme_def list_ex_iff split: if_splits option.splits)
  obtain s rest where raw: "raw = s @ ''://'' @ rest" and s: "length s = sep"
    using find_sub_split[OF f] by blast
  obtain full t where r: "rest = full @ t" "length full = authority_len rest"
    "\<forall>c \<in> set full. \<not> delim c" "t = [] \<or> delim (hd t)"
    using authority_len_cut by blast
  have p: "parse_url raw = (case userinfo_len full of
         None \<Rightarrow> build_url raw sch (sep + 3) (0, 0) 0 full t
       | Some k \<Rightarrow> build_url raw sch (sep + 3) (sep + 3, k) (k + 1) full t)"
  proof -
    have "drop (sep + 3) raw = rest" unfolding raw s[symmetric] by simp
    moreover have "take (authority_len rest) rest = full" "drop (authority_len rest) rest = t"
      unfolding r(2)[symmetric] by (simp_all add: r(1))
    ultimately show ?thesis unfolding parse_url_def ps by (simp add: Let_def split: option.split)
  qed
  have S': "scheme_of s = Some sch" using S raw s by simp
  show ?thesis
  proof (cases "userinfo_len full")
    case None
    have "\<forall>c \<in> set full. CHR ''@'' \<noteq> c"
      using None unfolding userinfo_len_def by (simp only: rfind_pos_None)
    moreover have "full \<noteq> []" using assms p None by (auto simp: build_url_def)
    ultimately have "url_parts s sch None full t" using S' r(3,4) by (auto simp: url_parts_def)
    moreover have e: "raw = join_url s None full t" by (simp add: join_url_def raw r(1))
    moreover have "url_of s sch None full t = Inr u"
      using assms p None s e by (simp add: url_of_def)
    ultimately show ?thesis using good by blast
  next
    case (Some k)
    from rfind_pos_split[OF this[unfolded userinfo_len_def]] obtain x c a where
      "full = x @ c # a" "length x = k" "CHR ''@'' = c" "\<forall>y \<in> set a. CHR ''@'' \<noteq> y" by blast
    then have x: "full = x @ ''@'' @ a" "length x = k" "\<forall>y \<in> set a. CHR ''@'' \<noteq> y" by simp_all
    have "a \<noteq> []"
    proof
      assume "a = []"
      then have "build_url raw sch (sep + 3) (sep + 3, k) (k + 1) full t = http_unexpected BadUrl"
        using x by (simp add: build_url_def)
      then show False using assms p Some by simp
    qed
    then have "url_parts s sch (Some x) a t" using S' r(3,4) x by (auto simp: url_parts_def)
    moreover have e: "raw = join_url s (Some x) a t" by (simp add: join_url_def raw r(1) x(1))
    moreover have "url_of s sch (Some x) a t = Inr u"
      using assms p Some s x(1,2) e by (simp add: url_of_def)
    ultimately show ?thesis using good by blast
  qed
qed

subsection \<open>Views, tails and ports\<close>

lemma view_text_shift:
  assumes "fst v + snd v \<le> length b"
  shows "view_text (a @ b @ c) (shift_view (length a) v) = view_text b v"
  using assms by (simp add: view_text_def shift_view_def substr_def)

lemma split_authority_bounds:
  assumes "split_authority a = Some (h, v6, p)"
  shows "fst h + snd h \<le> length a"
proof (cases "hd a = CHR ''[''")
  case True
  then obtain close where c: "find_pos ((=) (CHR '']'')) a = Some close" "h = (1, close - 1)"
    using assms by (auto simp: split_authority_def Let_def split: option.splits if_splits)
  obtain pre x post where "a = pre @ x # post" "length pre = close"
    using find_pos_split[OF c(1)] by blast
  then show ?thesis using c(2) by simp
next
  case False
  show ?thesis
  proof (cases "rfind_pos ((=) (CHR '':'')) a")
    case None
    then show ?thesis using False assms by (auto simp: split_authority_def)
  next
    case (Some k)
    obtain pre x post where "a = pre @ x # post" "length pre = k"
      using rfind_pos_split[OF Some] by blast
    then show ?thesis using False assms Some by (auto simp: split_authority_def)
  qed
qed

lemma url_of_Inr_parts:
  assumes "url_of s sch ui a t = Inr u"
  shows "\<exists>h v6 p. split_authority a = Some (h, v6, p) \<and> valid_host (view_text a h) \<and>
    parse_port_of sch p = Inr (u_port u, u_explicit_port u) \<and> a \<noteq> []"
proof -
  have "drop (case ui of None \<Rightarrow> 0 | Some x \<Rightarrow> length x + 1) ((case ui of None \<Rightarrow> [] | Some x \<Rightarrow> x @ ''@'') @ a) = a"
    by (cases ui) simp_all
  then show ?thesis
    using assms unfolding url_of_def build_url_def
    by (auto simp: Let_def and_then_Inr_iff split: if_splits option.splits)
qed

text \<open>A tail is a path, a query and a fragment.\<close>

definition join_tail :: "string \<Rightarrow> string option \<Rightarrow> string option \<Rightarrow> string" where
  "join_tail p q f = p @ (case q of None \<Rightarrow> [] | Some x \<Rightarrow> CHR ''?'' # x) @
     (case f of None \<Rightarrow> [] | Some x \<Rightarrow> CHR ''#'' # x)"

definition tail_parts :: "string \<Rightarrow> string option \<Rightarrow> bool" where
  "tail_parts p q \<longleftrightarrow> CHR ''?'' \<notin> set p \<and> CHR ''#'' \<notin> set p \<and> (\<forall>x. q = Some x \<longrightarrow> CHR ''#'' \<notin> set x)"

lemma find_pos_eq_here: "c \<notin> set pre \<Longrightarrow> find_pos ((=) c) (pre @ c # post) = Some (length pre)"
  by (rule find_pos_here) auto

lemma find_pos_eq_None: "c \<notin> set xs \<Longrightarrow> find_pos ((=) c) xs = None"
  by (auto simp: find_pos_None)

lemma split_tail_join:
  assumes "tail_parts p q"
  shows "view_text (join_tail p q f) (fst (split_tail (join_tail p q f))) = p"
    "view_text (join_tail p q f) (snd (split_tail (join_tail p q f))) = (case q of None \<Rightarrow> [] | Some x \<Rightarrow> x)"
proof -
  define pq where "pq = p @ (case q of None \<Rightarrow> [] | Some x \<Rightarrow> CHR ''?'' # x)"
  define t where "t = join_tail p q f"
  have t: "t = pq @ (case f of None \<Rightarrow> [] | Some x \<Rightarrow> CHR ''#'' # x)"
    by (simp add: t_def pq_def join_tail_def)
  have h: "CHR ''#'' \<notin> set pq" using assms by (auto simp: pq_def tail_parts_def split: option.splits)
  have n: "(case find_pos ((=) (CHR ''#'')) t of None \<Rightarrow> length t | Some f \<Rightarrow> f) = length pq"
    using find_pos_eq_None[OF h] find_pos_eq_here[OF h]
    by (cases f) (simp_all add: t)
  have q: "find_pos ((=) (CHR ''?'')) pq = map_option (\<lambda>x. length p) q"
    using assms find_pos_eq_None[of "CHR ''?''" p] find_pos_eq_here[of "CHR ''?''" p]
    by (cases q) (simp_all add: pq_def tail_parts_def)
  have "split_tail t = (if t = [] then ((0, 0), (0, 0)) else
      case q of None \<Rightarrow> ((0, length pq), (0, 0)) | Some x \<Rightarrow> ((0, length p), (length p + 1, length x)))"
    unfolding split_tail_def n Let_def using q by (cases q) (simp_all add: t pq_def)
  then show "view_text (join_tail p q f) (fst (split_tail (join_tail p q f))) = p"
    "view_text (join_tail p q f) (snd (split_tail (join_tail p q f))) = (case q of None \<Rightarrow> [] | Some x \<Rightarrow> x)"
    unfolding t_def[symmetric]
    by (cases q; cases f; simp add: view_text_def substr_def t pq_def split: if_splits)+
qed

lemma tail_join_exists:
  "\<exists>p q f. t = join_tail p q f \<and> tail_parts p q"
proof -
  obtain pq f where t: "t = pq @ (case f of None \<Rightarrow> [] | Some x \<Rightarrow> CHR ''#'' # x)" "CHR ''#'' \<notin> set pq"
  proof (cases "find_pos ((=) (CHR ''#'')) t")
    case None
    then have "CHR ''#'' \<notin> set t" by (auto simp: find_pos_None)
    then show thesis using that[of t None] by simp
  next
    case (Some k)
    then obtain pre c post where "t = pre @ c # post" "CHR ''#'' = c" "\<forall>y \<in> set pre. CHR ''#'' \<noteq> y"
      using find_pos_split by metis
    then show thesis using that[of pre "Some post"] by auto
  qed
  show ?thesis
  proof (cases "find_pos ((=) (CHR ''?'')) pq")
    case None
    then have "CHR ''?'' \<notin> set pq" by (auto simp: find_pos_None)
    then have "t = join_tail pq None f \<and> tail_parts pq None" using t by (simp add: join_tail_def tail_parts_def)
    then show ?thesis by blast
  next
    case (Some k)
    then obtain pre c post where "pq = pre @ c # post" "CHR ''?'' = c" "\<forall>y \<in> set pre. CHR ''?'' \<noteq> y"
      using find_pos_split by metis
    then have "t = join_tail pre (Some post) f \<and> tail_parts pre (Some post)"
      using t by (auto simp: join_tail_def tail_parts_def)
    then show ?thesis by blast
  qed
qed


subsection \<open>Ports\<close>

definition is_digit :: "char \<Rightarrow> bool" where
  "is_digit c \<longleftrightarrow> (48 :: nat) \<le> of_char c \<and> of_char c \<le> (57 :: nat)"

lemma digit_range: "u8 c < u8 (CHR ''0'') \<or> u8 c > u8 (CHR ''9'') \<longleftrightarrow> \<not> is_digit c"
  by (auto simp: word_less_nat_alt unat_u8 is_digit_def)

lemma digit_sub: "is_digit c \<Longrightarrow> unat (u8 c - u8 (CHR ''0'')) = digit_value c"
  by (subst unat_sub) (auto simp: word_le_nat_alt unat_u8 is_digit_def digit_value_def)

lemma dec_from_ge: "a \<le> foldl (\<lambda>a c. 10 * a + digit_value c) a cs"
proof (induction cs arbitrary: a)
  case (Cons c cs)
  from Cons[of "10 * a + digit_value c"] show ?case by simp
qed simp

lemma port_loop_value:
  assumes "foldl (\<lambda>a c. 10 * a + digit_value c) (unat v) cs < 2 ^ 32"
  shows "port_loop v cs = (if list_all is_digit cs
    then Some (of_nat (foldl (\<lambda>a c. 10 * a + digit_value c) (unat v) cs)) else None)"
  using assms
proof (induction cs arbitrary: v)
  case (Cons c cs)
  show ?case
  proof (cases "is_digit c")
    case True
    define w where "w = v * 10 + ucast (u8 c - u8 (CHR ''0''))"
    have b: "10 * unat v + digit_value c < 2 ^ 32"
      using Cons.prems dec_from_ge[of "10 * unat v + digit_value c" cs] by simp
    have d: "unat (ucast (u8 c - u8 (CHR ''0'')) :: uint32) = digit_value c"
      using digit_sub[OF True] unat_word_less[of "u8 c - u8 (CHR ''0'')"]
      by (subst unat_ucast_self) simp_all
    have u: "unat w = 10 * unat v + digit_value c"
      using b by (simp add: w_def unat_word_ariths d mult.commute)
    have "port_loop v (c # cs) = port_loop w cs"
      using True by (simp add: digit_range w_def)
    then show ?thesis
      using Cons.IH[of w] Cons.prems True by (simp add: u)
  next
    case False
    then show ?thesis using digit_range[of c] by simp
  qed
qed simp

lemma dec_value_bound: "list_all is_digit cs \<Longrightarrow> dec_value cs < 10 ^ length cs"
proof (induction cs rule: rev_induct)
  case (snoc c cs)
  then have "digit_value c \<le> 9" "dec_value cs + 1 \<le> 10 ^ length cs"
    by (auto simp: is_digit_def digit_value_def)
  then show ?case by (simp add: dec_value_def)
qed (simp add: dec_value_def)
lemma port_loop_bad: "\<not> list_all is_digit cs \<Longrightarrow> port_loop v cs = None"
proof (induction cs arbitrary: v)
  case (Cons c cs)
  show ?case
  proof (cases "is_digit c")
    case True
    then show ?thesis using Cons digit_range[of c] by simp
  next
    case False
    then show ?thesis using digit_range[of c] by simp
  qed
qed simp

lemma parse_port_value:
  "parse_port t = (if t \<noteq> [] \<and> length t \<le> 5 \<and> list_all is_digit t \<and> 0 < dec_value t \<and> dec_value t < 65536
    then Inr (of_nat (dec_value t)) else http_unexpected BadUrl)"
proof (cases "t \<noteq> [] \<and> length t \<le> 5 \<and> list_all is_digit t")
  case True
  then have "dec_value t < 10 ^ length t" using dec_value_bound by blast
  also have "... \<le> 10 ^ 5" using True by (intro power_increasing) auto
  finally have b: "dec_value t < 100000" by simp
  have l: "port_loop 0 t = Some (of_nat (dec_value t))"
    using True b port_loop_value[of 0 t] by (simp add: dec_value_def)
  have u: "unat (of_nat (dec_value t) :: uint32) = dec_value t"
    using b by (simp add: unsigned_of_nat take_bit_nat_eq_self)
  have z: "(of_nat (dec_value t) :: uint32) = 0 \<longleftrightarrow> dec_value t = 0"
    unfolding word_unat_eq_iff u by simp
  have g: "(of_nat (dec_value t) :: uint32) > 0xffff \<longleftrightarrow> dec_value t > 65535"
    by (simp add: word_less_nat_alt u)
  have c: "(ucast (of_nat (dec_value t) :: uint32) :: uint16) = of_nat (dec_value t)"
    using b by (simp add: unsigned_of_nat take_bit_nat_eq_self)
  show ?thesis
  proof (cases "0 < dec_value t \<and> dec_value t < 65536")
    case in_range: True
    then show ?thesis using True z g c unfolding parse_port_def l by simp
  next
    case out: False
    then have "(of_nat (dec_value t) :: uint32) = 0 \<or> (of_nat (dec_value t) :: uint32) > 0xffff"
      unfolding z g by auto
    then show ?thesis using True out unfolding parse_port_def l by simp
  qed
next
  case False
  then show ?thesis using port_loop_bad[of t 0] by (auto simp: parse_port_def)
qed

lemma is_digit_digit: "d < 10 \<Longrightarrow> is_digit (digit d)"
  by (drule less_ten) (auto simp: digit_def is_digit_def)

lemma dec_digits_is_digit: "list_all is_digit (dec_digits n)"
proof (induction n rule: dec_digits.induct)
  case (1 n)
  then show ?case by (subst dec_digits.simps) (auto simp: is_digit_digit)
qed

lemma dec_digits_nonempty: "dec_digits n \<noteq> []"
  by (subst dec_digits.simps) simp

lemma split_tail_bounds:
  "fst (fst (split_tail t)) + snd (fst (split_tail t)) \<le> length t \<and>
   fst (snd (split_tail t)) + snd (snd (split_tail t)) \<le> length t"
proof -
  define n where "n = (case find_pos ((=) (CHR ''#'')) t of None \<Rightarrow> length t | Some f \<Rightarrow> f)"
  have n: "n \<le> length t"
    using find_pos_bound[of "(=) (CHR ''#'')" t] by (auto simp: n_def split: option.split)
  have q: "q < n" if "find_pos ((=) (CHR ''?'')) (take n t) = Some q" for q
    using find_pos_bound[OF that] n by simp
  show ?thesis
    unfolding split_tail_def n_def[symmetric] Let_def using n q
    by (auto split: option.split)
qed

lemma url_of_Inr:
  assumes "split_authority a = Some (h, v6, p)" "valid_host (view_text a h)"
    "parse_port_of sch p = Inr (prt, e)" "a \<noteq> []"
  shows "\<exists>u. url_of s sch ui a t = Inr u \<and> u_raw u = join_url s ui a t \<and> authority u = a \<and>
    host u = view_text a h \<and> userinfo u = (case ui of None \<Rightarrow> [] | Some x \<Rightarrow> x) \<and>
    path u = view_text t (fst (split_tail t)) \<and> query u = view_text t (snd (split_tail t)) \<and>
    u_scheme u = sch \<and> u_port u = prt \<and> u_explicit_port u = e \<and> u_ipv6 u = v6"
proof -
  define i where "i = (case ui of None \<Rightarrow> [] | Some x \<Rightarrow> x @ ''@'')"
  define R where "R = join_url s ui a t"
  have R: "R = (s @ ''://'' @ i) @ a @ t" "R = (s @ ''://'' @ i @ a) @ t @ []"
    by (simp_all add: R_def join_url_def i_def)
  have k: "(case ui of None \<Rightarrow> 0 | Some x \<Rightarrow> length x + 1) = length i" by (simp add: i_def split: option.split)
  define v where "v = (case ui of None \<Rightarrow> (0, 0) | Some x \<Rightarrow> (length s + 3, length x))"
  have tb: "fst (fst (split_tail t)) + snd (fst (split_tail t)) \<le> length t"
    "fst (snd (split_tail t)) + snd (snd (split_tail t)) \<le> length t"
    using split_tail_bounds[of t] by simp_all
  have 1: "view_text R (length s + 3 + length i, length a) = a"
    unfolding R(1) using view_text_shift[of "(0, length a)" a "s @ ''://'' @ i" t]
    by (simp add: shift_view_def view_text_def substr_def add.assoc)
  have 2: "view_text R (shift_view (length s + 3 + length i) h) = view_text a h"
    unfolding R(1) using view_text_shift[OF split_authority_bounds[OF assms(1)], of "s @ ''://'' @ i" t]
    by (simp add: numeral_3_eq_3)
  have 3: "view_text R (shift_view (length s + 3 + length (i @ a)) w) = view_text t w"
    if "fst w + snd w \<le> length t" for w
    unfolding R(2) using view_text_shift[OF that, of "s @ ''://'' @ i @ a" "[]"] by (simp add: numeral_3_eq_3)
  have 4: "view_text R v = (case ui of None \<Rightarrow> [] | Some x \<Rightarrow> x)"
    by (cases ui) (simp_all add: R_def join_url_def v_def view_text_def substr_def)
  show ?thesis
    unfolding url_of_def k i_def[symmetric] R_def[symmetric] v_def[symmetric] build_url_def
    using assms 1 2 3[OF tb(1)] 3[OF tb(2)] 4
    by (auto simp: Let_def authority_def host_def userinfo_def path_def query_def)
qed

subsection \<open>Accepted urls\<close>

lemma scheme_of_name [simp]: "scheme_of (scheme_name sch) = Some sch"
  by (cases sch) (simp_all add: scheme_of_def iequals_alt case_bit_def u8_def)

lemma url_of_authority:
  assumes "url_of s sch ui a t = Inr u"
  shows "\<exists>h p. split_authority a = Some (h, u_ipv6 u, p) \<and> valid_host (host u) \<and>
    parse_port_of sch p = Inr (u_port u, u_explicit_port u) \<and> a \<noteq> [] \<and> host u = view_text a h \<and>
    u_raw u = join_url s ui a t \<and> authority u = a \<and> u_scheme u = sch \<and>
    userinfo u = (case ui of None \<Rightarrow> [] | Some x \<Rightarrow> x) \<and>
    path u = view_text t (fst (split_tail t)) \<and> query u = view_text t (snd (split_tail t))"
proof -
  obtain h v6 p where p: "split_authority a = Some (h, v6, p)" "valid_host (view_text a h)"
    "parse_port_of sch p = Inr (u_port u, u_explicit_port u)" "a \<noteq> []"
    using url_of_Inr_parts[OF assms] by blast
  from url_of_Inr[OF this, of s ui t] show ?thesis using assms p by auto
qed

lemma parse_port_of_nonzero:
  assumes "parse_port_of sch p = Inr (prt, e)"
  shows "prt \<noteq> 0"
proof (cases p)
  case None
  then show ?thesis using assms by (cases sch) (auto simp: parse_port_of_def)
next
  case (Some t)
  then have "parse_port t = Inr prt" using assms by (auto simp: parse_port_of_def split: sum.splits)
  then have "prt = of_nat (dec_value t)" "0 < dec_value t" "dec_value t < 65536"
    by (auto simp: parse_port_value split: if_splits)
  then show ?thesis by (simp add: word_unat_eq_iff unsigned_of_nat take_bit_nat_eq_self)
qed

text \<open>(C26) An accepted url is its scheme, an optional userinfo, its authority, path, query and
  fragment in that order; the scheme is http or https up to case, the path is empty or starts
  with a slash, the host is not empty and has no byte that could end it early, the port is not
  zero, and no byte of the url is a control byte, a blank or DEL.\<close>

theorem parse_url_sound:
  assumes "parse_url raw = Inr u"
  shows "\<exists>s ui q f. raw = s @ ''://'' @ (case ui of None \<Rightarrow> [] | Some x \<Rightarrow> x @ ''@'') @ authority u @
        join_tail (path u) q f \<and>
      iequals s (scheme_name (u_scheme u)) \<and>
      userinfo u = (case ui of None \<Rightarrow> [] | Some x \<Rightarrow> x) \<and>
      query u = (case q of None \<Rightarrow> [] | Some x \<Rightarrow> x) \<and>
      (path u = [] \<or> hd (path u) = CHR ''/'') \<and>
      host u \<noteq> [] \<and> (\<forall>c \<in> set (host u). \<not> bad_host_char c) \<and> u_port u \<noteq> 0 \<and>
      (\<forall>c \<in> set raw. \<not> bad_url_char c)"
proof -
  obtain s sch ui a t where p: "raw = join_url s ui a t" "url_parts s sch ui a t"
    "\<forall>c \<in> set raw. \<not> bad_url_char c" "url_of s sch ui a t = Inr u"
    using parse_url_parts[OF assms] by blast
  obtain h pt where u: "valid_host (host u)" "parse_port_of sch pt = Inr (u_port u, u_explicit_port u)"
    "authority u = a" "u_scheme u = sch" "userinfo u = (case ui of None \<Rightarrow> [] | Some x \<Rightarrow> x)"
    "path u = view_text t (fst (split_tail t))" "query u = view_text t (snd (split_tail t))"
    using url_of_authority[OF p(4)] by blast
  obtain pa q f where t: "t = join_tail pa q f" "tail_parts pa q" using tail_join_exists by blast
  have pq: "path u = pa" "query u = (case q of None \<Rightarrow> [] | Some x \<Rightarrow> x)"
    using split_tail_join[OF t(2), of f] u(6,7) by (simp_all add: t(1))
  have "pa = [] \<or> hd pa = CHR ''/''"
    using p(2) t(2) unfolding url_parts_def t(1)
    by (cases pa) (auto simp: join_tail_def tail_parts_def delim_def)
  moreover have "iequals s (scheme_name sch)"
    using p(2) scheme_of_no_colon(3) by (simp add: url_parts_def)
  ultimately have "raw = s @ ''://'' @ (case ui of None \<Rightarrow> [] | Some x \<Rightarrow> x @ ''@'') @ authority u @
        join_tail (path u) q f \<and>
      iequals s (scheme_name (u_scheme u)) \<and> (path u = [] \<or> hd (path u) = CHR ''/'')"
    using p(1) t(1) u(3,4) pq(1) by (simp add: join_url_def)
  then show ?thesis
    using p(3) u(1,5) pq(2) parse_port_of_nonzero[OF u(2)]
    by (auto simp: valid_host_def list_all_iff split: if_splits)
qed

theorem parse_url_sound_witness:
  "\<exists>u. parse_url ''HTTP://me@h:81/p?q#f'' = Inr u \<and> u_port u = 81 \<and> host u = ''h'' \<and> u_port u \<noteq> 0"
proof -
  have "case parse_url ''HTTP://me@h:81/p?q#f'' of Inl _ \<Rightarrow> False | Inr u \<Rightarrow> u_port u = 81 \<and> host u = ''h''"
    by code_simp
  then obtain u where "parse_url ''HTTP://me@h:81/p?q#f'' = Inr u" "u_port u = 81" "host u = ''h''"
    by (auto split: sum.splits)
  then show ?thesis using parse_url_sound[of "''HTTP://me@h:81/p?q#f''" u] by blast
qed

subsection \<open>Round trip\<close>

text \<open>A host as the round trip composes it: no bracket, colon or delimiter.\<close>

definition plain_host :: "string \<Rightarrow> bool" where
  "plain_host h \<longleftrightarrow> valid_host h \<and> CHR '':'' \<notin> set h \<and> hd h \<noteq> CHR ''[''"

definition compose_url :: "scheme_t \<Rightarrow> string \<Rightarrow> nat option \<Rightarrow> string \<Rightarrow> string option \<Rightarrow> string option \<Rightarrow> string" where
  "compose_url sch h n p q f =
    scheme_name sch @ ''://'' @ h @ (case n of None \<Rightarrow> [] | Some k \<Rightarrow> CHR '':'' # dec_digits k) @ join_tail p q f"

lemma is_digit_plain: "is_digit c \<Longrightarrow> \<not> delim c \<and> c \<noteq> CHR ''@'' \<and> c \<noteq> CHR '':'' \<and> \<not> bad_url_char c"
  by (auto simp: is_digit_def delim_def bad_url_char_def word_le_nat_alt unat_u8)

lemma host_char_plain: "\<not> bad_host_char c \<Longrightarrow> \<not> delim c \<and> c \<noteq> CHR ''@'' \<and> \<not> bad_url_char c"
  by (auto simp: bad_host_char_def delim_def bad_url_char_def u8_def)

lemma authority_plain:
  assumes "plain_host h" "c \<in> set (h @ (case n of None \<Rightarrow> [] | Some k \<Rightarrow> CHR '':'' # dec_digits k))"
  shows "\<not> delim c \<and> c \<noteq> CHR ''@'' \<and> \<not> bad_url_char c"
proof -
  have "\<not> delim (CHR '':'') \<and> \<not> bad_url_char (CHR '':'')" by (simp add: delim_def bad_url_char_def u8_def)
  moreover have "\<forall>c \<in> set h. \<not> delim c \<and> c \<noteq> CHR ''@'' \<and> \<not> bad_url_char c"
    using assms(1) host_char_plain by (auto simp: plain_host_def valid_host_def list_all_iff split: if_splits)
  moreover have "\<forall>c \<in> set (dec_digits k). \<not> delim c \<and> c \<noteq> CHR ''@'' \<and> \<not> bad_url_char c" for k
    using dec_digits_is_digit[of k] is_digit_plain by (auto simp: list_all_iff)
  ultimately show ?thesis using assms(2) by (cases n) auto
qed

lemma split_authority_plain:
  assumes "plain_host h" "\<forall>k. n = Some k \<longrightarrow> 0 < k \<and> k < 65536"
  shows "split_authority (h @ (case n of None \<Rightarrow> [] | Some k \<Rightarrow> CHR '':'' # dec_digits k)) =
    Some ((0, length h), False, map_option dec_digits n)"
proof -
  have h: "h \<noteq> []" "hd h \<noteq> CHR ''[''" "CHR '':'' \<notin> set h"
    using assms(1) by (auto simp: plain_host_def valid_host_def)
  show ?thesis
  proof (cases n)
    case None
    have "rfind_pos ((=) (CHR '':'')) h = None" using h(3) by (auto simp: rfind_pos_None)
    then show ?thesis using h None by (simp add: split_authority_def)
  next
    case (Some k)
    have "\<forall>y \<in> set (dec_digits k). CHR '':'' \<noteq> y"
      using dec_digits_is_digit[of k] is_digit_plain by (fastforce simp: list_all_iff)
    from rfind_pos_here[OF this refl, of h] show ?thesis
      using h Some by (simp add: split_authority_def)
  qed
qed

lemma parse_port_of_digits:
  assumes "\<forall>k. n = Some k \<longrightarrow> 0 < k \<and> k < 65536"
  shows "parse_port_of sch (map_option dec_digits n) =
    Inr (case n of None \<Rightarrow> (default_port sch, False) | Some k \<Rightarrow> (of_nat k, True))"
proof (cases n)
  case (Some k)
  then have "length (dec_digits k) \<le> 5" using assms by (intro dec_digits_length) auto
  then show ?thesis
    using Some assms dec_digits_is_digit[of k] dec_digits_nonempty[of k]
    by (simp add: parse_port_of_def parse_port_value dec_value_digits)
qed (simp add: parse_port_of_def)

text \<open>(C28) Parsing inverts composing: a url written from a scheme, a plain host, an optional port
  between 1 and 65535, a path, an optional query and an optional fragment parses back to the
  same scheme, host, port, path and query.\<close>

theorem parse_compose_url:
  assumes "plain_host h" "\<forall>k. n = Some k \<longrightarrow> 0 < k \<and> k < 65536"
    "p = [] \<or> hd p = CHR ''/''" "tail_parts p q"
    "\<forall>c \<in> set (join_tail p q f). \<not> bad_url_char c"
  shows "\<exists>u. parse_url (compose_url sch h n p q f) = Inr u \<and> u_scheme u = sch \<and> host u = h \<and>
    path u = p \<and> query u = (case q of None \<Rightarrow> [] | Some x \<Rightarrow> x) \<and> userinfo u = [] \<and>
    u_port u = (case n of None \<Rightarrow> default_port sch | Some k \<Rightarrow> of_nat k) \<and> u_explicit_port u = (n \<noteq> None)"
proof -
  define a where "a = h @ (case n of None \<Rightarrow> [] | Some k \<Rightarrow> CHR '':'' # dec_digits k)"
  define t where "t = join_tail p q f"
  define nm where "nm = scheme_name sch"
  have j: "compose_url sch h n p q f = join_url nm None a t"
    by (simp add: compose_url_def join_url_def a_def t_def nm_def)
  have a: "\<forall>c \<in> set a. \<not> delim c \<and> c \<noteq> CHR ''@'' \<and> \<not> bad_url_char c"
    using authority_plain[OF assms(1), of _ n] unfolding a_def by blast
  have hv: "view_text a (0, length h) = h" by (simp add: view_text_def substr_def a_def)
  have hne: "h \<noteq> []" "valid_host h" using assms(1) by (auto simp: plain_host_def valid_host_def)
  have "t = [] \<or> delim (hd t)"
    using assms(3,4) by (cases p; cases q; cases f) (auto simp: t_def join_tail_def delim_def)
  then have parts: "url_parts nm sch None a t"
    using a hne(1) by (auto simp: url_parts_def a_def nm_def)
  have "\<forall>c \<in> set (nm @ ''://''). \<not> bad_url_char c"
    unfolding nm_def by (cases sch) (simp_all add: bad_url_char_def u8_def)
  then have "\<forall>c \<in> set (join_url nm None a t). \<not> bad_url_char c"
    using a assms(5) by (auto simp: join_url_def t_def)
  then have "parse_url (compose_url sch h n p q f) = url_of nm sch None a t"
    unfolding j by (rule parse_join[OF parts])
  moreover have sa: "split_authority a = Some ((0, length h), False, map_option dec_digits n)"
    unfolding a_def by (rule split_authority_plain[OF assms(1,2)])
  obtain prt e where pp: "parse_port_of sch (map_option dec_digits n) = Inr (prt, e)"
    "(prt, e) = (case n of None \<Rightarrow> (default_port sch, False) | Some k \<Rightarrow> (of_nat k, True))"
    using parse_port_of_digits[OF assms(2), of sch] by (metis surj_pair)
  have "valid_host (view_text a (0, length h))" "a \<noteq> []" using hne hv by (simp_all add: a_def)
  from url_of_Inr[OF sa this(1) pp(1) this(2), of nm None t]
  obtain u where "url_of nm sch None a t = Inr u" "host u = h" "userinfo u = []"
    "path u = view_text t (fst (split_tail t))" "query u = view_text t (snd (split_tail t))"
    "u_scheme u = sch" "u_port u = prt" "u_explicit_port u = e"
    unfolding hv by auto
  ultimately show ?thesis
    using split_tail_join[OF assms(4), of f] pp(2) by (cases n) (auto simp: t_def)
qed

theorem parse_compose_url_witness:
  "\<exists>u. parse_url (compose_url SchemeHttps ''a.b'' (Some 8443) ''/x'' (Some ''k=v'') None) = Inr u \<and>
    host u = ''a.b'' \<and> u_port u = 8443 \<and> path u = ''/x'' \<and> query u = ''k=v''"
  using parse_compose_url[of "''a.b''" "Some 8443" "''/x''" "Some ''k=v''" None SchemeHttps]
  by (auto simp: plain_host_def valid_host_def bad_host_char_def tail_parts_def join_tail_def bad_url_char_def u8_def)

subsection \<open>Redirects\<close>

lemma put_pieces_concat:
  "put_pieces cap out ss = (if ss = [] \<or> length (out @ concat ss) \<le> cap then Some (out @ concat ss) else None)"
  by (induction ss arbitrary: out) auto



text \<open>A Location that is an absolute path carrying a url in its query is taken for an absolute
  url: it is written without the origin, and parsing the result is refused.\<close>

theorem location_with_url_in_query_fails:
  assumes "hd loc = CHR ''/''" "find_sub ''://'' loc \<noteq> None" "\<forall>c \<in> set loc. \<not> bad_url_char c" "length loc \<le> cap"
  shows "write_absolute_url base loc cap = Inr loc \<and> parse_url loc = http_unexpected UnsupportedScheme"
proof -
  have ne: "loc \<noteq> []" using assms(2) by auto
  obtain k where k: "find_sub ''://'' loc = Some k" using assms(2) by auto
  have "k \<noteq> 0" using find_sub_split[OF k] assms(1) by auto
  moreover have "scheme_of (take k loc) = None"
  proof (rule ccontr)
    assume "scheme_of (take k loc) \<noteq> None"
    then obtain sch where S: "scheme_of (take k loc) = Some sch" by auto
    from scheme_of_no_colon(2,3)[OF S] have "case_bit (hd (take k loc)) = case_bit (hd (scheme_name sch))"
      by (cases "take k loc"; cases sch) (auto simp: iequals_alt)
    moreover have "hd (take k loc) = CHR ''/''" using scheme_of_no_colon(2)[OF S] assms(1) by (cases loc; cases k) auto
    ultimately show False by (cases sch) (simp_all add: case_bit_def u8_def)
  qed
  ultimately show ?thesis
    using assms ne k
    by (auto simp: write_absolute_url_def location_pieces_def put_pieces_concat parse_url_def parse_scheme_def
      list_ex_iff)
qed

theorem location_with_url_in_query_fails_witness:
  "\<forall>b. write_absolute_url b ''/login?next=http://a/'' 64 = Inr ''/login?next=http://a/'' \<and>
   parse_url ''/login?next=http://a/'' = http_unexpected UnsupportedScheme"
proof
  fix b
  show "write_absolute_url b ''/login?next=http://a/'' 64 = Inr ''/login?next=http://a/'' \<and>
    parse_url ''/login?next=http://a/'' = http_unexpected UnsupportedScheme"
    using location_with_url_in_query_fails[of "''/login?next=http://a/''" 64 b]
    by (simp add: bad_url_char_def u8_def)
qed

text \<open>Moving a url onto a copy of its text keeps what every view reads.\<close>

lemma rebase_texts:
  assumes "rebase (u_raw u) u = Some v"
  shows "host v = host u" "authority v = authority u" "path v = path u" "query v = query u" "userinfo v = userinfo u"
  using assms by (auto simp: rebase_def rebase_view_def host_def authority_def path_def query_def userinfo_def
    view_text_def substr_def)

end
