(* ===== verification/Buffers.thy ===== *)
theory Buffers
  imports Protocol "HOL-Library.Multiset"
begin

text \<open>
  The buffers of a connection (\<^verbatim>\<open>include/cornet/http/common/buffer.h\<close>,
  \<^verbatim>\<open>src/http/common/buffer.cc\<close>): the size-classed block pool and its leases, the
  buffer of the header section, the body buffer and the spill buffer.

  Blocks live in an explicit memory: an address is a number, a block a list of characters
  of its size.  Allocation fails when the memory has no room left; a write outside a live
  block sets \<open>m_fault\<close>, so that the absence of such writes is a theorem.  The links of a
  free list are stored in the free blocks themselves; here a free list is the list of the
  addresses on it.

  The lemmas show that no block is ever owned twice or lost, that a lease has the room that
  was asked for, that the body buffer collects exactly the runs appended to it and never
  writes outside its block, and that the header buffer never moves a byte that a recorded
  view refers to.
\<close>

type_synonym addr = nat

record mem =
  m_blocks :: "addr \<Rightarrow> string option"
  m_next :: addr
  m_room :: nat
  m_fault :: bool

definition malloc :: "nat \<Rightarrow> mem \<Rightarrow> addr option \<times> mem" where
  "malloc n m =
    (if n \<le> m_room m
     then (Some (m_next m), m\<lparr>m_blocks := (m_blocks m)(m_next m \<mapsto> replicate n (CHR 0x00)),
             m_next := m_next m + 1, m_room := m_room m - n\<rparr>)
     else (None, m))"

definition mem_free :: "addr \<Rightarrow> mem \<Rightarrow> mem" where
  "mem_free a m = (case m_blocks m a of
      None \<Rightarrow> m\<lparr>m_fault := True\<rparr>
    | Some b \<Rightarrow> m\<lparr>m_blocks := (m_blocks m)(a := None), m_room := m_room m + length b\<rparr>)"

definition mem_write :: "addr \<Rightarrow> nat \<Rightarrow> string \<Rightarrow> mem \<Rightarrow> mem" where
  "mem_write a off s m = (case m_blocks m a of
      None \<Rightarrow> m\<lparr>m_fault := True\<rparr>
    | Some b \<Rightarrow> if off + length s \<le> length b
        then m\<lparr>m_blocks := (m_blocks m)(a \<mapsto> take off b @ s @ drop (off + length s) b)\<rparr>
        else m\<lparr>m_fault := True\<rparr>)"

definition mem_read :: "addr \<Rightarrow> nat \<Rightarrow> nat \<Rightarrow> mem \<Rightarrow> string" where
  "mem_read a off n m = (case m_blocks m a of None \<Rightarrow> [] | Some b \<Rightarrow> substr b off n)"

subsection \<open>Leases and the pool\<close>

datatype body_mode_t = BodyEmpty | BodyExact | BodyStream

datatype body_source_t = SrcNone | SrcInline | SrcExternal | SrcStreaming | SrcFile

record buffer_lease_t =
  l_pool :: bool
  l_data :: "addr option"
  l_cap :: uint32

definition no_lease :: buffer_lease_t where
  "no_lease = \<lparr>l_pool = False, l_data = None, l_cap = 0\<rparr>"

record buffer_pool_t =
  bp_free :: "addr list list"
  bp_allocations :: uint64
  bp_hits :: uint64
  bp_oversized :: uint64

type_synonym heap = "mem \<times> buffer_pool_t"

definition kClassSize :: "uint32 list" where
  "kClassSize = [push_bit 10 4, push_bit 10 16, push_bit 10 64, push_bit 10 256]"

definition class_of :: "uint32 \<Rightarrow> nat option" where
  "class_of n = find_pos (\<lambda>s. n \<le> s) kClassSize"

definition acquire :: "uint32 \<Rightarrow> heap \<Rightarrow> buffer_lease_t \<times> heap" where
  "acquire min_bytes h = (let (m, p) = h in
    case class_of min_bytes of
      None \<Rightarrow>
        let p = p\<lparr>bp_oversized := bp_oversized p + 1\<rparr> in
        (case malloc (unat min_bytes) m of
           (None, m') \<Rightarrow> (no_lease, m', p)
         | (Some a, m') \<Rightarrow> (\<lparr>l_pool = False, l_data = Some a, l_cap = min_bytes\<rparr>, m', p))
    | Some cls \<Rightarrow>
        let cap = kClassSize ! cls in
        (case bp_free p ! cls of
           a # rest \<Rightarrow> (\<lparr>l_pool = True, l_data = Some a, l_cap = cap\<rparr>, m,
             p\<lparr>bp_free := (bp_free p)[cls := rest], bp_hits := bp_hits p + 1\<rparr>)
         | [] \<Rightarrow>
             let p = p\<lparr>bp_allocations := bp_allocations p + 1\<rparr> in
             (case malloc (unat cap) m of
                (None, m') \<Rightarrow> (no_lease, m', p)
              | (Some a, m') \<Rightarrow> (\<lparr>l_pool = True, l_data = Some a, l_cap = cap\<rparr>, m', p))))"

definition recycle :: "addr \<Rightarrow> uint32 \<Rightarrow> heap \<Rightarrow> heap" where
  "recycle a cap h = (let (m, p) = h in
    case class_of cap of
      None \<Rightarrow> (mem_free a m, p)
    | Some cls \<Rightarrow>
        if kClassSize ! cls \<noteq> cap then (mem_free a m, p)
        else (m, p\<lparr>bp_free := (bp_free p)[cls := a # bp_free p ! cls]\<rparr>))"

definition lease_release :: "buffer_lease_t \<Rightarrow> heap \<Rightarrow> buffer_lease_t \<times> heap" where
  "lease_release l h =
    (no_lease,
     case l_data l of
       None \<Rightarrow> h
     | Some a \<Rightarrow> if l_pool l then recycle a (l_cap l) h else (mem_free a (fst h), snd h))"

definition pool_init :: buffer_pool_t where
  "pool_init = \<lparr>bp_free = [[], [], [], []], bp_allocations = 0, bp_hits = 0, bp_oversized = 0\<rparr>"

text \<open>The destructor gives every block of the free lists back.\<close>

definition pool_destroy :: "heap \<Rightarrow> heap" where
  "pool_destroy h = (fold mem_free (concat (bp_free (snd h))) (fst h),
    (snd h)\<lparr>bp_free := map (\<lambda>_. []) (bp_free (snd h))\<rparr>)"

subsection \<open>The header buffer\<close>

record head_buffer_t =
  hb_lease :: buffer_lease_t
  hb_r :: uint32
  hb_w :: uint32
  hb_parsing :: bool

definition head_init :: head_buffer_t where
  "head_init = \<lparr>hb_lease = no_lease, hb_r = 0, hb_w = 0, hb_parsing = False\<rparr>"

definition head_reset :: "buffer_lease_t \<Rightarrow> head_buffer_t \<Rightarrow> heap \<Rightarrow> head_buffer_t \<times> heap" where
  "head_reset l b h = (let (_, h') = lease_release (hb_lease b) h in
    (b\<lparr>hb_lease := l, hb_r := 0, hb_w := 0, hb_parsing := False\<rparr>, h'))"

definition head_release :: "head_buffer_t \<Rightarrow> heap \<Rightarrow> head_buffer_t \<times> heap" where
  "head_release b h = (let (l, h') = lease_release (hb_lease b) h in
    (b\<lparr>hb_lease := l, hb_r := 0, hb_w := 0, hb_parsing := False\<rparr>, h'))"

definition attached :: "head_buffer_t \<Rightarrow> bool" where
  "attached b = (l_data (hb_lease b) \<noteq> None)"

definition head_capacity :: "head_buffer_t \<Rightarrow> uint32" where
  "head_capacity b = l_cap (hb_lease b)"

definition readable :: "head_buffer_t \<Rightarrow> uint32" where
  "readable b = hb_w b - hb_r b"

text \<open>The writable span is its offset in the block and its length.\<close>

definition writable :: "head_buffer_t \<Rightarrow> uint32 \<times> uint32" where
  "writable b = (if l_data (hb_lease b) = None then (0, 0) else (hb_w b, head_capacity b - hb_w b))"

definition commit :: "uint32 \<Rightarrow> head_buffer_t \<Rightarrow> head_buffer_t" where
  "commit n b = b\<lparr>hb_w := hb_w b + n\<rparr>"

definition consume :: "uint32 \<Rightarrow> head_buffer_t \<Rightarrow> head_buffer_t" where
  "consume n b = b\<lparr>hb_r := hb_r b + n\<rparr>"

definition begin_message :: "head_buffer_t \<Rightarrow> head_buffer_t" where
  "begin_message b = b\<lparr>hb_parsing := True\<rparr>"

definition end_message :: "head_buffer_t \<Rightarrow> head_buffer_t" where
  "end_message b = b\<lparr>hb_parsing := False\<rparr>"

definition rewind_to :: "uint32 \<Rightarrow> head_buffer_t \<Rightarrow> head_buffer_t" where
  "rewind_to pos b = b\<lparr>hb_w := pos, hb_r := pos\<rparr>"

text \<open>The assertion of \<^verbatim>\<open>compact\<close> is the case \<open>None\<close>.\<close>

definition compact :: "head_buffer_t \<Rightarrow> mem \<Rightarrow> (bool \<times> head_buffer_t \<times> mem) option" where
  "compact b m =
    (if hb_parsing b then None
     else if hb_r b = 0 then Some (False, b, m)
     else let n = hb_w b - hb_r b;
              m' = (if n > 0
                    then (case l_data (hb_lease b) of None \<Rightarrow> m\<lparr>m_fault := True\<rparr>
                      | Some a \<Rightarrow> mem_write a 0 (mem_read a (unat (hb_r b)) (unat n) m) m)
                    else m) in
       Some (True, b\<lparr>hb_r := 0, hb_w := n\<rparr>, m'))"

definition head_view :: "uint32 \<Rightarrow> uint32 \<Rightarrow> head_buffer_t \<Rightarrow> mem \<Rightarrow> string" where
  "head_view off len b m = (case l_data (hb_lease b) of None \<Rightarrow> []
     | Some a \<Rightarrow> mem_read a (unat off) (unat len) m)"

text \<open>A receive into the writable span followed by its commit.\<close>

definition head_fill :: "string \<Rightarrow> head_buffer_t \<Rightarrow> mem \<Rightarrow> head_buffer_t \<times> mem" where
  "head_fill s b m = (commit (of_nat (length s)) b,
     case l_data (hb_lease b) of None \<Rightarrow> m\<lparr>m_fault := True\<rparr>
     | Some a \<Rightarrow> mem_write a (unat (hb_w b)) s m)"

subsection \<open>The body buffer\<close>

record body_buffer_t =
  bb_lease :: buffer_lease_t
  bb_size :: uint32
  bb_cap :: uint32

definition body_init :: body_buffer_t where
  "body_init = \<lparr>bb_lease = no_lease, bb_size = 0, bb_cap = 0\<rparr>"

definition body_release :: "body_buffer_t \<Rightarrow> heap \<Rightarrow> body_buffer_t \<times> heap" where
  "body_release b h = (let (l, h') = lease_release (bb_lease b) h in
    (b\<lparr>bb_lease := l, bb_size := 0, bb_cap := 0\<rparr>, h'))"

definition body_clear :: "body_buffer_t \<Rightarrow> body_buffer_t" where
  "body_clear b = b\<lparr>bb_size := 0\<rparr>"

definition body_view :: "body_buffer_t \<Rightarrow> mem \<Rightarrow> string" where
  "body_view b m = (if bb_size b = 0 then [] else
     case l_data (bb_lease b) of None \<Rightarrow> [] | Some a \<Rightarrow> mem_read a 0 (unat (bb_size b)) m)"

text \<open>Both reservations take a block from the pool and drop what was held before.\<close>

definition body_take :: "uint32 \<Rightarrow> body_buffer_t \<Rightarrow> heap \<Rightarrow> unit expected \<times> body_buffer_t \<times> heap" where
  "body_take want b h =
    (let (l, h') = acquire want h in
     if l_data l = None then (sys_unexpected ENOMEM, b\<lparr>bb_lease := l\<rparr>, h')
     else (Inr (), b\<lparr>bb_lease := l, bb_cap := want, bb_size := 0\<rparr>, h'))"

definition reserve_exact :: "uint64 \<Rightarrow> body_buffer_t \<Rightarrow> heap \<Rightarrow> unit expected \<times> body_buffer_t \<times> heap" where
  "reserve_exact expected_bytes b h =
    (let (b, h) = body_release b h in
     if expected_bytes = 0 then (Inr (), b, h)
     else if expected_bytes > 0xffffffff then (http_unexpected BodyTooLarge, b, h)
     else body_take (ucast expected_bytes) b h)"

definition reserve_window :: "uint32 \<Rightarrow> body_buffer_t \<Rightarrow> heap \<Rightarrow> unit expected \<times> body_buffer_t \<times> heap" where
  "reserve_window n b h =
    (let (b, h) = body_release b h in
     if n = 0 then (Inr (), b, h) else body_take n b h)"

definition grow :: "uint32 \<Rightarrow> body_buffer_t \<Rightarrow> heap \<Rightarrow> unit expected \<times> body_buffer_t \<times> heap" where
  "grow n b h =
    (if n \<le> bb_cap b then (Inr (), b, h)
     else let (l, m, p) = acquire n h in
       case l_data l of
         None \<Rightarrow> (sys_unexpected ENOMEM, b, m, p)
       | Some a \<Rightarrow>
           let m = (if bb_size b > 0
                    then mem_write a 0 (case l_data (bb_lease b) of None \<Rightarrow> []
                           | Some old \<Rightarrow> mem_read old 0 (unat (bb_size b)) m) m
                    else m);
               (_, h') = lease_release (bb_lease b) (m, p) in
           (Inr (), b\<lparr>bb_lease := l, bb_cap := l_cap l\<rparr>, h'))"

definition body_append :: "string \<Rightarrow> body_buffer_t \<Rightarrow> mem \<Rightarrow> unit expected \<times> body_buffer_t \<times> mem" where
  "body_append data b m = (let len = of_nat (length data) in
    if len = 0 then (Inr (), b, m)
    else if bb_size b + len > bb_cap b then (http_unexpected OutputOverflow, b, m)
    else (Inr (), b\<lparr>bb_size := bb_size b + len\<rparr>,
      case l_data (bb_lease b) of None \<Rightarrow> m\<lparr>m_fault := True\<rparr>
      | Some a \<Rightarrow> mem_write a (unat (bb_size b)) data m))"

subsection \<open>The spill buffer\<close>

record spill_buffer_t =
  sb_used :: uint32
  sb_data :: string

definition kCapacity :: uint32 where "kCapacity = 512"

definition spill_init :: spill_buffer_t where
  "spill_init = \<lparr>sb_used = 0, sb_data = replicate 512 (CHR 0x00)\<rparr>"

definition spill_store :: "string \<Rightarrow> spill_buffer_t \<Rightarrow> spill_buffer_t" where
  "spill_store s b = b\<lparr>sb_data := take (unat (sb_used b)) (sb_data b) @ s @
      drop (unat (sb_used b) + length s) (sb_data b),
     sb_used := sb_used b + of_nat (length s)\<rparr>"

definition spill_put :: "string \<Rightarrow> spill_buffer_t \<Rightarrow> uint32 expected \<times> spill_buffer_t" where
  "spill_put s b =
    (if sb_used b + of_nat (length s) > kCapacity then (http_unexpected HeaderTooLarge, b)
     else (Inr (sb_used b), spill_store s b))"

definition spill_extend :: "string \<Rightarrow> spill_buffer_t \<Rightarrow> unit expected \<times> spill_buffer_t" where
  "spill_extend s b =
    (if sb_used b + of_nat (length s) > kCapacity then (http_unexpected HeaderTooLarge, b)
     else (Inr (), spill_store s b))"

definition spill_view :: "uint32 \<Rightarrow> uint32 \<Rightarrow> spill_buffer_t \<Rightarrow> string" where
  "spill_view off len b = substr (sb_data b) (unat off) (unat len)"

definition spill_clear :: "spill_buffer_t \<Rightarrow> spill_buffer_t" where
  "spill_clear b = b\<lparr>sb_used := 0\<rparr>"

subsection \<open>Ownership of blocks\<close>

lemma kClassSize_nats: "map unat kClassSize = [4096, 16384, 65536, 262144]"
  by (simp add: kClassSize_def)

lemma class_of_Some:
  assumes "class_of n = Some c"
  shows "c < 4" "n \<le> kClassSize ! c"
  using find_pos_bound[OF assms[unfolded class_of_def]] find_pos_nth[OF assms[unfolded class_of_def]]
  by (simp_all add: kClassSize_def)

lemma class_size_in: "c < 4 \<Longrightarrow> kClassSize ! c \<in> set kClassSize"
  by (rule nth_mem) (simp add: kClassSize_def)

lemma class_of_own: "c \<in> set kClassSize \<Longrightarrow> \<exists>i. class_of c = Some i \<and> kClassSize ! i = c"
  by (auto simp: kClassSize_def class_of_def word_le_nat_alt)

lemma concat_update:
  assumes "i < length xss"
  shows "concat (xss[i := y]) = concat (take i xss) @ y @ concat (drop (Suc i) xss)"
    "concat xss = concat (take i xss) @ xss ! i @ concat (drop (Suc i) xss)"
proof -
  show "concat (xss[i := y]) = concat (take i xss) @ y @ concat (drop (Suc i) xss)"
    using assms by (simp add: upd_conv_take_nth_drop)
  have "concat xss = concat (take i xss @ xss ! i # drop (Suc i) xss)"
    using id_take_nth_drop[OF assms] by simp
  then show "concat xss = concat (take i xss) @ xss ! i @ concat (drop (Suc i) xss)" by simp
qed

definition owned :: "buffer_pool_t \<Rightarrow> buffer_lease_t list \<Rightarrow> addr list" where
  "owned p ls = concat (bp_free p) @ map (\<lambda>l. the (l_data l)) ls"

text \<open>
  What the pool keeps: the addresses on the free lists and under lease are pairwise different
  and are exactly the live blocks; a free block has the size of its class, a leased block the
  capacity of its lease; a block the pool lends has a class size; nothing wrote or freed out
  of place.
\<close>

definition sized :: "mem \<Rightarrow> addr \<Rightarrow> uint32 \<Rightarrow> bool" where
  "sized m a n = (case m_blocks m a of None \<Rightarrow> False | Some b \<Rightarrow> length b = unat n)"

definition lease_wf :: "mem \<Rightarrow> buffer_lease_t \<Rightarrow> bool" where
  "lease_wf m l = (case l_data l of None \<Rightarrow> False | Some a \<Rightarrow> sized m a (l_cap l) \<and> (l_pool l \<longrightarrow> l_cap l \<in> set kClassSize))"

definition pool_inv :: "mem \<Rightarrow> buffer_pool_t \<Rightarrow> buffer_lease_t list \<Rightarrow> bool" where
  "pool_inv m p ls \<longleftrightarrow>
    length (bp_free p) = 4 \<and> distinct (owned p ls) \<and>
    (\<forall>a. a \<in> set (owned p ls) \<longleftrightarrow> m_blocks m a \<noteq> None) \<and>
    (\<forall>a. m_blocks m a \<noteq> None \<longrightarrow> a < m_next m) \<and>
    (\<forall>i < 4. \<forall>a \<in> set (bp_free p ! i). sized m a (kClassSize ! i)) \<and>
    (\<forall>l \<in> set ls. lease_wf m l) \<and> \<not> m_fault m"

lemma lease_wfD: "lease_wf m l \<Longrightarrow> \<exists>a b. l_data l = Some a \<and> m_blocks m a = Some b \<and> length b = unat (l_cap l)"
  by (auto simp: lease_wf_def sized_def split: option.splits)

lemma pool_invD:
  assumes "pool_inv m p ls"
  shows "length (bp_free p) = 4" "distinct (owned p ls)" "a \<in> set (owned p ls) \<longleftrightarrow> m_blocks m a \<noteq> None"
    "m_blocks m a \<noteq> None \<Longrightarrow> a < m_next m" "i < 4 \<Longrightarrow> b \<in> set (bp_free p ! i) \<Longrightarrow> sized m b (kClassSize ! i)"
    "l \<in> set ls \<Longrightarrow> lease_wf m l" "\<not> m_fault m"
  using assms unfolding pool_inv_def by blast+

lemma malloc_inv:
  assumes "pool_inv m p ls" "malloc n m = (Some a, m')" "n = unat cap" "pl \<longrightarrow> cap \<in> set kClassSize"
    "bp_free p' = bp_free p"
  shows "pool_inv m' p' (\<lparr>l_pool = pl, l_data = Some a, l_cap = cap\<rparr> # ls)"
proof -
  have m': "m' = m\<lparr>m_blocks := (m_blocks m)(m_next m \<mapsto> replicate n (CHR 0x00)),
      m_next := m_next m + 1, m_room := m_room m - n\<rparr>" and a: "a = m_next m"
    using assms(2) by (auto simp: malloc_def split: if_splits)
  have fresh: "m_blocks m a = None" using assms(1) a by (auto simp: pool_inv_def)
  have s: "sized m' x c" if "sized m x c" for x c
    using that fresh by (auto simp: sized_def m' a split: option.splits)
  have w: "lease_wf m' l" if "lease_wf m l" for l
    using that s by (auto simp: lease_wf_def split: option.splits)
  have own: "owned p' (\<lparr>l_pool = pl, l_data = Some a, l_cap = cap\<rparr> # ls) =
      concat (bp_free p) @ a # map (\<lambda>l. the (l_data l)) ls"
    by (simp add: owned_def assms(5))
  have na: "a \<notin> set (owned p ls)" using pool_invD(3)[OF assms(1)] fresh by blast
  have "lease_wf m' \<lparr>l_pool = pl, l_data = Some a, l_cap = cap\<rparr>"
    using assms(3,4) by (simp add: lease_wf_def sized_def m' a)
  moreover have "distinct (concat (bp_free p) @ a # map (\<lambda>l. the (l_data l)) ls)"
    using pool_invD(2)[OF assms(1)] na by (auto simp: owned_def)
  moreover have "x \<in> set (concat (bp_free p) @ a # map (\<lambda>l. the (l_data l)) ls) \<longleftrightarrow> m_blocks m' x \<noteq> None" for x
    using pool_invD(3)[OF assms(1), of x] by (auto simp: owned_def m' a)
  moreover have "m_blocks m' x \<noteq> None \<longrightarrow> x < m_next m'" for x
    using assms(1) by (auto simp: pool_inv_def m' less_Suc_eq)
  moreover have "\<not> m_fault m'" using assms(1) by (simp add: pool_inv_def m')
  ultimately show ?thesis
    using assms(1) s w unfolding pool_inv_def own by (auto simp: assms(5))
qed

lemma malloc_None: "malloc n m = (None, m') \<Longrightarrow> m' = m"
  by (auto simp: malloc_def split: if_splits)

lemma pool_inv_cong: "bp_free p' = bp_free p \<Longrightarrow> pool_inv m p' ls = pool_inv m p ls"
  by (simp add: pool_inv_def owned_def)

lemma hit_inv:
  assumes "pool_inv m p ls" "c < 4" "bp_free p ! c = a # rest" "bp_free p' = (bp_free p)[c := rest]"
  shows "pool_inv m p' (\<lparr>l_pool = True, l_data = Some a, l_cap = kClassSize ! c\<rparr> # ls)"
proof -
  have l4: "length (bp_free p) = 4" using assms(1) by (simp add: pool_inv_def)
  have cc: "concat (bp_free p) = concat (take c (bp_free p)) @ (a # rest) @ concat (drop (Suc c) (bp_free p))"
    "concat (bp_free p') = concat (take c (bp_free p)) @ rest @ concat (drop (Suc c) (bp_free p))"
    using concat_update(1)[of c "bp_free p" rest] concat_update(2)[of c "bp_free p"] assms(2-4) l4 by simp_all
  have "distinct (owned p' (\<lparr>l_pool = True, l_data = Some a, l_cap = kClassSize ! c\<rparr> # ls))"
    "set (owned p' (\<lparr>l_pool = True, l_data = Some a, l_cap = kClassSize ! c\<rparr> # ls)) = set (owned p ls)"
    using assms(1) unfolding pool_inv_def owned_def cc by auto
  moreover have "sized m a (kClassSize ! c)" using assms(1-3) by (auto simp: pool_inv_def)
  then have "lease_wf m \<lparr>l_pool = True, l_data = Some a, l_cap = kClassSize ! c\<rparr>"
    using class_size_in[OF assms(2)] by (simp add: lease_wf_def)
  moreover have "\<forall>i < 4. \<forall>x \<in> set (bp_free p' ! i). sized m x (kClassSize ! i)"
    using assms l4 by (auto simp: pool_inv_def nth_list_update)
  ultimately show ?thesis
    using assms(1) l4 unfolding pool_inv_def by (simp add: assms(4))
qed

lemma malloc_cases: "malloc n m = (None, m) \<or> (\<exists>a m'. malloc n m = (Some a, m'))"
  by (simp add: malloc_def)

lemma acquire_cases:
  assumes "acquire n (m, p) = (l, m', p')"
  obtains (fail) "l = no_lease" "m' = m" "bp_free p' = bp_free p"
  | (fresh) a cap pl where "l = \<lparr>l_pool = pl, l_data = Some a, l_cap = cap\<rparr>" "malloc (unat cap) m = (Some a, m')"
      "bp_free p' = bp_free p" "n \<le> cap" "pl \<longrightarrow> cap \<in> set kClassSize"
  | (hit) c a rest where "l = \<lparr>l_pool = True, l_data = Some a, l_cap = kClassSize ! c\<rparr>" "c < 4" "m' = m"
      "bp_free p ! c = a # rest" "bp_free p' = (bp_free p)[c := rest]" "n \<le> kClassSize ! c"
proof (cases "class_of n")
  case None
  from malloc_cases[of "unat n" m] show thesis
  proof (elim disjE exE)
    assume "malloc (unat n) m = (None, m)"
    then show thesis using None assms by (intro fail) (auto simp: acquire_def)
  next
    fix a mm assume "malloc (unat n) m = (Some a, mm)"
    then show thesis using None assms by (intro fresh[of False a n]) (auto simp: acquire_def)
  qed
next
  case (Some c)
  note c = class_of_Some[OF Some]
  have k: "kClassSize ! c \<in> set kClassSize" by (rule class_size_in[OF c(1)])
  show thesis
  proof (cases "bp_free p ! c")
    case Nil
    from malloc_cases[of "unat (kClassSize ! c)" m] show thesis
    proof (elim disjE exE)
      assume "malloc (unat (kClassSize ! c)) m = (None, m)"
      then show thesis using Some Nil assms by (intro fail) (auto simp: acquire_def Let_def)
    next
      fix a mm assume "malloc (unat (kClassSize ! c)) m = (Some a, mm)"
      then show thesis using Some Nil assms c k
        by (intro fresh[of True a "kClassSize ! c"]) (auto simp: acquire_def Let_def)
    qed
  next
    case (Cons a rest)
    then show thesis using assms Some c by (intro hit[of a c rest]) (auto simp: acquire_def Let_def)
  qed
qed

lemma acquire_inv:
  assumes "pool_inv m p ls" "acquire n (m, p) = (l, m', p')"
  shows "pool_inv m' p' (if l_data l = None then ls else l # ls) \<and> (l_data l \<noteq> None \<longrightarrow> n \<le> l_cap l)"
  using assms(2)
proof (cases rule: acquire_cases)
  case fail
  then show ?thesis using assms(1) pool_inv_cong[of p' p] by (simp add: no_lease_def)
next
  case (fresh a cap pl)
  then show ?thesis using malloc_inv[OF assms(1) fresh(2) refl fresh(5,3)] by simp
next
  case (hit c a rest)
  then show ?thesis using hit_inv[OF assms(1) hit(2,4,5)] by simp
qed

lemma free_inv:
  assumes "pool_inv m p (l # ls)" "l_data l = Some a"
  shows "pool_inv (mem_free a m) p ls"
proof -
  have na: "a \<notin> set (owned p ls)" and ia: "a \<in> set (owned p (l # ls))"
    using pool_invD(2)[OF assms(1)] assms(2) by (auto simp: owned_def)
  obtain b where b: "m_blocks m a = Some b" "a \<notin> set (owned p ls)"
    using pool_invD(3)[OF assms(1), of a] ia na by blast
  have s: "sized (mem_free a m) x c" if "sized m x c" "x \<noteq> a" for x c
    using that b by (auto simp: sized_def mem_free_def split: option.splits)
  have "set (owned p (l # ls)) = insert a (set (owned p ls))" using assms(2) by (auto simp: owned_def)
  then have "\<forall>x. x \<in> set (owned p ls) \<longleftrightarrow> m_blocks (mem_free a m) x \<noteq> None"
    using pool_invD(3)[OF assms(1)] b by (auto simp: mem_free_def)
  moreover have "distinct (owned p ls)" using assms(1) by (auto simp: pool_inv_def owned_def)
  moreover have "lease_wf (mem_free a m) x" if "x \<in> set ls" for x
  proof -
    have "the (l_data x) \<noteq> a" using that b(2) by (auto simp: owned_def)
    moreover have "lease_wf m x" using that assms(1) by (simp add: pool_inv_def)
    ultimately show ?thesis using s by (auto simp: lease_wf_def split: option.splits)
  qed
  moreover have "sized (mem_free a m) x (kClassSize ! i)" if "i < 4" "x \<in> set (bp_free p ! i)" for i x
  proof -
    have "i < length (bp_free p)" using that(1) assms(1) by (simp add: pool_inv_def)
    then have "x \<in> set (owned p ls)" using that(2) nth_mem[of i "bp_free p"] by (auto simp: owned_def)
    then have "x \<noteq> a" using b(2) by auto
    moreover have "sized m x (kClassSize ! i)" using assms(1) that by (simp add: pool_inv_def)
    ultimately show ?thesis by (simp add: s)
  qed
  ultimately show ?thesis
    using assms(1) b unfolding pool_inv_def by (auto simp: mem_free_def)
qed

lemma recycle_inv:
  assumes "pool_inv m p (l # ls)" "l_data l = Some a" "recycle a (l_cap l) (m, p) = (m', p')" "l_pool l"
  shows "pool_inv m' p' ls"
proof -
  have l: "l_cap l \<in> set kClassSize" "sized m a (l_cap l)" and l4: "length (bp_free p) = 4"
    using assms by (auto simp: pool_inv_def lease_wf_def)
  obtain c where c: "class_of (l_cap l) = Some c" "kClassSize ! c = l_cap l" using class_of_own[OF l(1)] by blast
  note c4 = class_of_Some(1)[OF c(1)]
  have m': "m' = m" and p': "bp_free p' = (bp_free p)[c := a # bp_free p ! c]"
    using assms(3) c by (auto simp: recycle_def)
  have cc: "concat (bp_free p') = concat (take c (bp_free p)) @ (a # bp_free p ! c) @ concat (drop (Suc c) (bp_free p))"
    "concat (bp_free p) = concat (take c (bp_free p)) @ (bp_free p ! c) @ concat (drop (Suc c) (bp_free p))"
    using concat_update(1)[of c "bp_free p" "a # bp_free p ! c"] concat_update(2)[of c "bp_free p"] c4 l4 p' by simp_all
  have "distinct (owned p' ls)" "set (owned p' ls) = set (owned p (l # ls))"
    using assms(1,2) unfolding pool_inv_def owned_def cc by auto
  moreover have "\<forall>i < 4. \<forall>x \<in> set (bp_free p' ! i). sized m x (kClassSize ! i)"
    using assms(1) c(2) l(2) c4 l4 unfolding p' by (auto simp: pool_inv_def nth_list_update)
  ultimately show ?thesis
    using assms(1) l4 unfolding pool_inv_def m' by (simp add: p')
qed

lemma pool_inv_perm:
  assumes "mset ls = mset ls'"
  shows "pool_inv m p ls = pool_inv m p ls'"
proof -
  have "set ls = set ls'" using assms by (metis set_mset_mset)
  moreover have "mset (owned p ls) = mset (owned p ls')" using assms by (simp add: owned_def)
  then have "set (owned p ls) = set (owned p ls')" "distinct (owned p ls) = distinct (owned p ls')"
    by (metis set_mset_mset, metis mset_eq_imp_distinct_iff)
  ultimately show ?thesis by (simp add: pool_inv_def)
qed

lemma release_inv:
  assumes "pool_inv m p ls" "l \<in> set ls" "lease_release l (m, p) = (l', m', p')"
  shows "pool_inv m' p' (remove1 l ls)"
proof -
  have i: "pool_inv m p (l # remove1 l ls)"
    using assms(1,2) pool_inv_perm[of ls "l # remove1 l ls"] by simp
  then obtain a where a: "l_data l = Some a" by (auto simp: pool_inv_def lease_wf_def split: option.splits)
  then show ?thesis
    using assms(3) free_inv[OF i a] recycle_inv[OF i a, of m' p'] by (auto simp: lease_release_def split: if_splits)
qed

lemma write_inv:
  assumes "pool_inv m p ls" "l \<in> set ls" "l_data l = Some a" "off + length s \<le> unat (l_cap l)"
  shows "pool_inv (mem_write a off s m) p ls"
proof -
  obtain b where b: "m_blocks m a = Some b" "length b = unat (l_cap l)"
    using assms(1-3) by (fastforce simp: pool_inv_def lease_wf_def sized_def split: option.splits)
  then have m: "mem_write a off s m = m\<lparr>m_blocks := (m_blocks m)(a \<mapsto> take off b @ s @ drop (off + length s) b)\<rparr>"
    using assms(4) by (simp add: mem_write_def)
  have s: "sized (mem_write a off s m) x c = sized m x c" for x c
    using b assms(4) by (simp add: sized_def m)
  then have "lease_wf (mem_write a off s m) x = lease_wf m x" for x by (simp add: lease_wf_def split: option.split)
  with s show ?thesis using assms(1) b unfolding pool_inv_def by (auto simp: m)
qed

text \<open>The uses of the pool: taking a block, giving one back, and writing within one's own.\<close>

inductive pool_step :: "heap \<times> buffer_lease_t list \<Rightarrow> heap \<times> buffer_lease_t list \<Rightarrow> bool" where
  take_block: "acquire n h = (l, h') \<Longrightarrow> pool_step (h, ls) (h', if l_data l = None then ls else l # ls)"
| give_block: "l \<in> set ls \<Longrightarrow> lease_release l h = (l', h') \<Longrightarrow> pool_step (h, ls) (h', remove1 l ls)"
| use_block: "l \<in> set ls \<Longrightarrow> l_data l = Some a \<Longrightarrow> off + length s \<le> unat (l_cap l) \<Longrightarrow>
    pool_step ((m, p), ls) ((mem_write a off s m, p), ls)"

definition fresh_mem :: "nat \<Rightarrow> mem" where
  "fresh_mem room = \<lparr>m_blocks = (\<lambda>_. None), m_next = 0, m_room = room, m_fault = False\<rparr>"

lemma pool_step_inv:
  assumes "pool_step s s'" "pool_inv (fst (fst s)) (snd (fst s)) (snd s)"
  shows "pool_inv (fst (fst s')) (snd (fst s')) (snd s')"
  using assms
proof (cases rule: pool_step.cases)
  case (take_block n h l h' ls)
  then show ?thesis
    using assms(2) acquire_inv[of "fst h" "snd h" ls n l "fst h'" "snd h'"] by simp
next
  case (give_block l ls h l' h')
  then show ?thesis
    using assms(2) release_inv[of "fst h" "snd h" ls l l' "fst h'" "snd h'"] by simp
next
  case (use_block l ls a off s m p)
  then show ?thesis using assms(2) write_inv[of m p ls l a off s] by simp
qed

lemma pool_init_inv: "pool_inv (fresh_mem room) pool_init []"
proof -
  have "\<forall>i < 4. bp_free pool_init ! i = []"
    by (simp add: pool_init_def eval_nat_numeral All_less_Suc)
  then show ?thesis by (simp add: pool_inv_def pool_init_def fresh_mem_def owned_def)
qed

lemma pool_reachable_inv:
  assumes "pool_step\<^sup>*\<^sup>* ((fresh_mem room, pool_init), []) s"
  shows "pool_inv (fst (fst s)) (snd (fst s)) (snd s)"
  using assms by induction (simp_all add: pool_init_inv pool_step_inv)

text \<open>(C21) However the pool is used, every live block is either on a free list or under exactly one
  lease and none is lost; a leased block has the capacity of its lease; nothing writes or frees
  outside a live block; and a block the pool hands out is as large as asked for and is not leased
  to anyone else.\<close>

theorem pool_exclusive:
  assumes "pool_step\<^sup>*\<^sup>* ((fresh_mem room, pool_init), []) ((m, p), ls)"
  shows "distinct (concat (bp_free p) @ map (\<lambda>l. the (l_data l)) ls) \<and>
    (\<forall>a. m_blocks m a \<noteq> None \<longleftrightarrow> a \<in> set (concat (bp_free p)) \<union> (\<lambda>l. the (l_data l)) ` set ls) \<and>
    (\<forall>l \<in> set ls. \<exists>a b. l_data l = Some a \<and> m_blocks m a = Some b \<and> length b = unat (l_cap l)) \<and>
    \<not> m_fault m \<and>
    (\<forall>n l m' p'. acquire n (m, p) = (l, m', p') \<and> l_data l \<noteq> None \<longrightarrow>
       n \<le> l_cap l \<and> the (l_data l) \<notin> (\<lambda>l. the (l_data l)) ` set ls)"
proof -
  have i: "pool_inv m p ls" using pool_reachable_inv[OF assms] by simp
  have "n \<le> l_cap l \<and> the (l_data l) \<notin> (\<lambda>l. the (l_data l)) ` set ls"
    if "acquire n (m, p) = (l, m', p')" "l_data l \<noteq> None" for n l m' p'
    using acquire_inv[OF i that(1)] that(2) by (auto simp: pool_inv_def owned_def)
  moreover have "\<forall>l \<in> set ls. \<exists>a b. l_data l = Some a \<and> m_blocks m a = Some b \<and> length b = unat (l_cap l)"
    using pool_invD(6)[OF i] lease_wfD by blast
  moreover have "\<forall>a. m_blocks m a \<noteq> None \<longleftrightarrow> a \<in> set (concat (bp_free p)) \<union> (\<lambda>l. the (l_data l)) ` set ls"
    using pool_invD(3)[OF i] by (auto simp: owned_def)
  moreover have "distinct (concat (bp_free p) @ map (\<lambda>l. the (l_data l)) ls)" "\<not> m_fault m"
    using i by (simp_all add: pool_inv_def owned_def)
  ultimately show ?thesis by blast
qed

theorem pool_exclusive_witness:
  "\<exists>l m p. acquire 100 (fresh_mem 9000, pool_init) = (l, m, p) \<and> l_data l \<noteq> None \<and>
    distinct (concat (bp_free p) @ map (\<lambda>l. the (l_data l)) [l]) \<and> \<not> m_fault m"
proof -
  obtain l m p where a: "acquire 100 (fresh_mem 9000, pool_init) = (l, m, p)" by (metis prod.collapse)
  moreover have "l_data (fst (acquire 100 (fresh_mem 9000, pool_init))) \<noteq> None" by code_simp
  ultimately have l: "l_data l \<noteq> None" by simp
  have "pool_step\<^sup>*\<^sup>* ((fresh_mem 9000, pool_init), []) ((m, p), [l])"
    using take_block[OF a, of "[]"] l by (simp add: r_into_rtranclp)
  from pool_exclusive[OF this] show ?thesis using a l by blast
qed

subsection \<open>Bounded stores\<close>

text \<open>
  What the body buffer and the spill buffer promise: a run that fits is appended, one that does
  not fit is refused and changes nothing.  Lengths are 32-bit in the code, so the contract is
  about runs up to \<open>limit\<close>, past which the sum of the lengths wraps around.
\<close>

fun put_all :: "(string \<Rightarrow> 's \<Rightarrow> unit expected \<times> 's) \<Rightarrow> string list \<Rightarrow> 's \<Rightarrow> unit expected \<times> 's" where
  "put_all put [] s = (Inr (), s)"
| "put_all put (d # ds) s = (case put d s of (Inl e, s') \<Rightarrow> (Inl e, s') | (Inr _, s') \<Rightarrow> put_all put ds s')"

locale bounded_store =
  fixes valid :: "'s \<Rightarrow> bool"
    and contents :: "'s \<Rightarrow> string"
    and room :: "'s \<Rightarrow> nat"
    and limit :: nat
    and put :: "string \<Rightarrow> 's \<Rightarrow> unit expected \<times> 's"
    and full :: error_t
  assumes put_fits: "valid s \<Longrightarrow> length d \<le> room s \<Longrightarrow> \<exists>s'. put d s = (Inr (), s') \<and> valid s' \<and>
      contents s' = contents s @ d \<and> room s' = room s - length d"
    and put_full: "valid s \<Longrightarrow> room s < length d \<Longrightarrow> length d \<le> limit \<Longrightarrow> put d s = (Inl full, s)"
begin

lemma puts_fit:
  "valid s \<Longrightarrow> length (concat ds) \<le> room s \<Longrightarrow> \<exists>s'. put_all put ds s = (Inr (), s') \<and> valid s' \<and>
    contents s' = contents s @ concat ds \<and> room s' = room s - length (concat ds)"
proof (induction ds arbitrary: s)
  case (Cons d ds)
  obtain s1 where s1: "put d s = (Inr (), s1)" "valid s1" "contents s1 = contents s @ d" "room s1 = room s - length d"
    using put_fits[of s d] Cons.prems by auto
  then show ?case using Cons.IH[of s1] Cons.prems by auto
qed simp

lemma puts_full:
  "valid s \<Longrightarrow> room s < length (concat ds) \<Longrightarrow> (\<forall>d \<in> set ds. length d \<le> limit) \<Longrightarrow>
   \<exists>s' k. put_all put ds s = (Inl full, s') \<and> valid s' \<and> contents s' = contents s @ concat (take k ds) \<and>
     length (concat (take k ds)) \<le> room s"
proof (induction ds arbitrary: s)
  case (Cons d ds)
  show ?case
  proof (cases "length d \<le> room s")
    case True
    obtain s1 where s1: "put d s = (Inr (), s1)" "valid s1" "contents s1 = contents s @ d" "room s1 = room s - length d"
      using put_fits[OF Cons.prems(1) True] by auto
    then obtain s' k where "put_all put ds s1 = (Inl full, s')" "valid s'" "contents s' = contents s1 @ concat (take k ds)"
      "length (concat (take k ds)) \<le> room s1"
      using Cons.IH[OF s1(2)] s1(4) Cons.prems(2,3) True by force
    then show ?thesis using s1 True by (intro exI[of _ s'] exI[of _ "Suc k"]) auto
  next
    case False
    then have "put d s = (Inl full, s)" using put_full[OF Cons.prems(1)] Cons.prems(3) by simp
    then show ?thesis using Cons.prems(1) by (intro exI[of _ s] exI[of _ 0]) auto
  qed
qed simp

end

definition body_ok :: "body_buffer_t \<times> mem \<Rightarrow> bool" where
  "body_ok s = (let (b, m) = s in
    lease_wf m (bb_lease b) \<and> bb_cap b \<le> l_cap (bb_lease b) \<and> bb_size b \<le> bb_cap b \<and>
    bb_cap b \<le> 0x80000000 \<and> \<not> m_fault m)"

definition body_room :: "body_buffer_t \<times> mem \<Rightarrow> nat" where
  "body_room s = unat (bb_cap (fst s)) - unat (bb_size (fst s))"

definition body_text :: "body_buffer_t \<times> mem \<Rightarrow> string" where
  "body_text s = body_view (fst s) (snd s)"

definition body_put :: "string \<Rightarrow> body_buffer_t \<times> mem \<Rightarrow> unit expected \<times> body_buffer_t \<times> mem" where
  "body_put d s = body_append d (fst s) (snd s)"

lemma body_put_fits:
  assumes "body_ok s" "length d \<le> body_room s"
  shows "\<exists>s'. body_put d s = (Inr (), s') \<and> body_ok s' \<and> body_text s' = body_text s @ d \<and>
    body_room s' = body_room s - length d"
proof -
  obtain b m where s: "s = (b, m)" by (cases s)
  obtain a blk where a: "l_data (bb_lease b) = Some a" "m_blocks m a = Some blk" "length blk = unat (l_cap (bb_lease b))"
    using assms(1) lease_wfD[of m "bb_lease b"] by (auto simp: body_ok_def s)
  have cap: "unat (bb_cap b) \<le> length blk" "unat (bb_size b) + length d \<le> unat (bb_cap b)" "\<not> m_fault m"
    "unat (bb_size b) \<le> unat (bb_cap b)"
    using assms a(3) by (auto simp: body_ok_def body_room_def s word_le_nat_alt)
  then have w: "unat (bb_size b) + length d < 2 ^ 32" using unat_word_less[of "bb_cap b"] by simp
  have u: "unat (bb_size b + of_nat (length d)) = unat (bb_size b) + length d" using unat_add_small[of "bb_size b"] w by simp
  show ?thesis
  proof (cases "d = []")
    case True
    then show ?thesis using assms(1) by (auto simp: body_put_def body_append_def s)
  next
    case False
    then have nz: "(of_nat (length d) :: uint32) \<noteq> 0" using of_nat_word_zero[of "length d", where 'a = 32] w by simp
    define blk' where "blk' = take (unat (bb_size b)) blk @ d @ drop (unat (bb_size b) + length d) blk"
    define b' where "b' = b\<lparr>bb_size := bb_size b + of_nat (length d)\<rparr>"
    define m' where "m' = m\<lparr>m_blocks := (m_blocks m)(a \<mapsto> blk')\<rparr>"
    have le: "\<not> bb_cap b < bb_size b + of_nat (length d)" using u cap by (simp add: word_less_nat_alt)
    have put: "body_put d s = (Inr (), b', m')"
      using nz le a cap by (simp add: body_put_def body_append_def s Let_def mem_write_def b'_def m'_def blk'_def)
    have "body_ok (b', m')"
      using assms(1) a cap u
      by (simp add: body_ok_def s lease_wf_def sized_def b'_def m'_def blk'_def word_le_nat_alt)
    moreover have "body_text (b', m') = body_text s @ d"
    proof -
      have z: "bb_size b = 0 \<Longrightarrow> unat (bb_size b) = 0" by simp
      have "unat (bb_size b + of_nat (length d)) \<noteq> 0" using u False by simp
      then have "bb_size b + of_nat (length d) \<noteq> 0" by (metis unat_0)
      then show ?thesis
        using a cap u z by (auto simp: body_text_def body_view_def s b'_def m'_def blk'_def mem_read_def substr_def)
    qed
    moreover have "body_room (b', m') = body_room s - length d" using u by (simp add: body_room_def b'_def s)
    ultimately show ?thesis using put by blast
  qed
qed

lemma body_put_full:
  assumes "body_ok s" "body_room s < length d" "length d \<le> 2 ^ 31 - 1"
  shows "body_put d s = (Inl (http_error OutputOverflow), s)"
proof -
  obtain b m where s: "s = (b, m)" by (cases s)
  have w: "unat (bb_size b) + length d < 2 ^ 32"
    using assms(1,3) by (auto simp: body_ok_def s word_le_nat_alt)
  have u: "unat (bb_size b + of_nat (length d)) = unat (bb_size b) + length d" using unat_add_small[of "bb_size b"] w by simp
  have "(of_nat (length d) :: uint32) \<noteq> 0"
    using of_nat_word_zero[of "length d", where 'a = 32] w assms(2) by auto
  moreover have "bb_cap b < bb_size b + of_nat (length d)"
    using assms(1,2) u by (auto simp: word_less_nat_alt body_room_def body_ok_def s word_le_nat_alt)
  ultimately show ?thesis by (simp add: body_put_def body_append_def s http_unexpected_Inl Let_def)
qed

interpretation body_store: bounded_store body_ok body_text body_room "2 ^ 31 - 1" body_put "http_error OutputOverflow"
  by unfold_locales (fact body_put_fits body_put_full)+

lemma reserve_exact_ok:
  assumes "pool_inv m p ls" "0 < n" "n \<le> 0x80000000"
    "reserve_exact n body_init (m, p) = (Inr (), b, m', p')"
  shows "body_ok (b, m')" "body_text (b, m') = []" "body_room (b, m') = unat n"
    "pool_inv m' p' (bb_lease b # ls)"
proof -
  have u: "unat (ucast n :: uint32) = unat n"
    using assms(3) by (intro unat_ucast_self) (simp add: word_le_nat_alt)
  have n: "n \<noteq> 0" "\<not> n > 0xffffffff" using assms(2,3) by (auto simp: word_less_nat_alt word_le_nat_alt)
  obtain l where l: "acquire (ucast n) (m, p) = (l, m', p')" "l_data l \<noteq> None"
    "b = body_init\<lparr>bb_lease := l, bb_cap := ucast n, bb_size := 0\<rparr>"
    using assms(4) n by (auto simp: reserve_exact_def body_release_def lease_release_def body_init_def no_lease_def
      body_take_def split: prod.splits if_splits)
  have i: "pool_inv m' p' (l # ls)" "ucast n \<le> l_cap l" using acquire_inv[OF assms(1) l(1)] l(2) by auto
  show "pool_inv m' p' (bb_lease b # ls)" using i l(3) by simp
  have "lease_wf m' l" "\<not> m_fault m'" using pool_invD(6)[OF i(1), of l] pool_invD(7)[OF i(1)] by simp_all
  then show "body_ok (b, m')"
    using i(2) assms(3) u by (simp add: body_ok_def l(3) word_le_nat_alt)
  show "body_text (b, m') = []" by (simp add: body_text_def body_view_def l(3))
  show "body_room (b, m') = unat n" by (simp add: body_room_def l(3) u)
qed

text \<open>(C29) A body buffer reserved for \<open>n\<close> bytes collects exactly the concatenation of the runs
  appended to it when they fit; the first run that does not fit is refused with OutputOverflow,
  leaving the runs before it; no write leaves the block.  Lengths are kept below 2 GiB, where the
  32-bit sum of the code does not wrap.\<close>

theorem body_collects_runs:
  assumes "pool_inv m p ls" "0 < n" "n \<le> 0x80000000"
    "reserve_exact n body_init (m, p) = (Inr (), b, m', p')" "\<forall>d \<in> set ds. length d < 2 ^ 31"
  shows "\<exists>r s. put_all body_put ds (b, m') = (r, s) \<and> \<not> m_fault (snd s) \<and>
    (if length (concat ds) \<le> unat n then r = Inr () \<and> body_text s = concat ds
     else r = http_unexpected OutputOverflow \<and>
       (\<exists>k. body_text s = concat (take k ds) \<and> length (body_text s) \<le> unat n))"
proof -
  note b = reserve_exact_ok[OF assms(1-4)]
  have ok: "body_ok s \<Longrightarrow> \<not> m_fault (snd s)" for s by (auto simp: body_ok_def split: prod.splits)
  show ?thesis
  proof (cases "length (concat ds) \<le> unat n")
    case True
    then show ?thesis using body_store.puts_fit[OF b(1), of ds] b(2,3) ok by auto
  next
    case False
    then have "\<forall>d \<in> set ds. length d \<le> 2 ^ 31 - 1" using assms(5) by auto
    then obtain s k where "put_all body_put ds (b, m') = (Inl (http_error OutputOverflow), s)" "body_ok s"
      "body_text s = concat (take k ds)" "length (concat (take k ds)) \<le> unat n"
      using body_store.puts_full[OF b(1), of ds] b(2,3) False by auto
    then show ?thesis using ok False by (auto simp: http_unexpected_Inl)
  qed
qed

theorem body_collects_runs_witness:
  "\<exists>b m p s. reserve_exact 5 body_init (fresh_mem 9000, pool_init) = (Inr (), b, m, p) \<and>
    put_all body_put [''ab'', ''cde''] (b, m) = (Inr (), s) \<and> body_text s = ''abcde''"
proof -
  obtain r b m p where a: "reserve_exact 5 body_init (fresh_mem 9000, pool_init) = (r, b, m, p)" by (metis prod.collapse)
  moreover have "fst (reserve_exact 5 body_init (fresh_mem 9000, pool_init)) = Inr ()" by code_simp
  ultimately have r: "reserve_exact 5 body_init (fresh_mem 9000, pool_init) = (Inr (), b, m, p)" by simp
  then show ?thesis using body_collects_runs[OF pool_init_inv _ _ r, of "[''ab'', ''cde'']"] by auto
qed

lemma acquire_frame:
  assumes "pool_inv m p ls" "acquire n (m, p) = (l, m', p')" "m_blocks m x \<noteq> None"
  shows "m_blocks m' x = m_blocks m x"
  using assms(2)
proof (cases rule: acquire_cases)
  case (fresh a cap pl)
  then show ?thesis using pool_invD(4)[OF assms(1,3)] by (auto simp: malloc_def split: if_splits)
qed simp_all

lemma release_frame:
  "lease_release l (m, p) = (l', m', p') \<Longrightarrow> l_data l \<noteq> Some x \<Longrightarrow> m_blocks m' x = m_blocks m x"
  by (auto simp: lease_release_def recycle_def mem_free_def Let_def split: option.splits if_splits)

lemma write_read:
  "m_blocks m a = Some b \<Longrightarrow> length s \<le> length b \<Longrightarrow> mem_read a 0 (length s) (mem_write a 0 s m) = s"
  by (simp add: mem_read_def mem_write_def substr_def)

lemma grow_keeps_text:
  assumes "pool_inv m p ls" "bb_lease b \<in> set ls" "body_ok (b, m)" "grow n b (m, p) = (Inr (), b', m', p')"
  shows "body_text (b', m') = body_text (b, m) \<and> n \<le> bb_cap b' \<and>
    (\<exists>ls'. pool_inv m' p' ls' \<and> bb_lease b' \<in> set ls')"
proof (cases "n \<le> bb_cap b")
  case True
  then show ?thesis using assms by (auto simp: grow_def)
next
  case False
  obtain l m1 p1 where l: "acquire n (m, p) = (l, m1, p1)" by (metis prod.collapse)
  then obtain a where a: "l_data l = Some a" using False assms(4) by (auto simp: grow_def split: option.splits)
  have i1: "pool_inv m1 p1 (l # ls)" "n \<le> l_cap l" using acquire_inv[OF assms(1) l] a by auto
  obtain old blk where old: "l_data (bb_lease b) = Some old" "m_blocks m old = Some blk" "length blk = unat (l_cap (bb_lease b))"
    using assms(3) lease_wfD[of m "bb_lease b"] by (auto simp: body_ok_def)
  obtain nb where nb: "m_blocks m1 a = Some nb" "length nb = unat (l_cap l)"
    using lease_wfD[OF pool_invD(6)[OF i1(1), of l]] a by auto
  have same: "m_blocks m1 old = Some blk" using acquire_frame[OF assms(1) l, of old] old(2) by simp
  have ne: "a \<noteq> old" "l \<noteq> bb_lease b"
    using pool_invD(2)[OF i1(1)] assms(2) a old(1) by (auto simp: owned_def image_iff)
  define t where "t = mem_read old 0 (unat (bb_size b)) m1"
  define m2 where "m2 = (if bb_size b > 0 then mem_write a 0 t m1 else m1)"
  have sz: "unat (bb_size b) \<le> length blk" "unat (bb_size b) \<le> length nb" "length t = unat (bb_size b)"
    using assms(3) i1(2) False nb(2) old(3) same
    by (auto simp: body_ok_def word_le_nat_alt t_def mem_read_def substr_def)
  have i2: "pool_inv m2 p1 (l # ls)"
    unfolding m2_def using i1(1) write_inv[OF i1(1), of l a 0 t] a sz nb(2) by simp
  obtain x where r: "lease_release (bb_lease b) (m2, p1) = (x, m', p')" and b': "b' = b\<lparr>bb_lease := l, bb_cap := l_cap l\<rparr>"
    using assms(4) False l a old(1) by (auto simp: grow_def m2_def t_def split: prod.splits if_splits)
  have "pool_inv m' p' (remove1 (bb_lease b) (l # ls))"
    using release_inv[OF i2 _ r] assms(2) by simp
  moreover have "bb_lease b' \<in> set (remove1 (bb_lease b) (l # ls))" using ne(2) b' by simp
  moreover have "body_text (b', m') = body_text (b, m)"
  proof (cases "bb_size b = 0")
    case True
    then show ?thesis by (simp add: body_text_def body_view_def b')
  next
    case nz: False
    then have m2: "m2 = mem_write a 0 t m1" by (simp add: m2_def word_gt_0)
    have "m_blocks m' a = m_blocks m2 a" using release_frame[OF r, of a] old(1) ne(1) by simp
    then have "mem_read a 0 (unat (bb_size b)) m' = mem_read a 0 (length t) (mem_write a 0 t m1)"
      by (simp add: mem_read_def m2 sz(3))
    also have "... = t" using write_read[OF nb(1), of t] sz by simp
    finally show ?thesis
      using nz a old same by (simp add: body_text_def body_view_def b' t_def mem_read_def)
  qed
  ultimately show ?thesis using i1(2) b' by auto
qed

subsection \<open>The spill buffer as a store\<close>

definition spill_ok :: "spill_buffer_t \<Rightarrow> bool" where
  "spill_ok b \<longleftrightarrow> length (sb_data b) = 512 \<and> sb_used b \<le> kCapacity"

definition spill_text :: "spill_buffer_t \<Rightarrow> string" where
  "spill_text b = take (unat (sb_used b)) (sb_data b)"

definition spill_room :: "spill_buffer_t \<Rightarrow> nat" where
  "spill_room b = 512 - unat (sb_used b)"

lemma spill_fits:
  assumes "spill_ok b" "length d \<le> spill_room b"
  shows "\<not> sb_used b + of_nat (length d) > kCapacity" "spill_ok (spill_store d b)"
    "spill_text (spill_store d b) = spill_text b @ d" "spill_room (spill_store d b) = spill_room b - length d"
    "unat (sb_used (spill_store d b)) = unat (sb_used b) + length d"
proof -
  have w: "unat (sb_used b) + length d \<le> 512" "unat (sb_used b) \<le> 512"
    using assms by (auto simp: spill_ok_def spill_room_def kCapacity_def word_le_nat_alt)
  have u: "unat (sb_used b + of_nat (length d)) = unat (sb_used b) + length d"
    using unat_add_small[of "sb_used b" "length d"] w by simp
  show "\<not> sb_used b + of_nat (length d) > kCapacity" "spill_ok (spill_store d b)"
    "spill_text (spill_store d b) = spill_text b @ d" "spill_room (spill_store d b) = spill_room b - length d"
    "unat (sb_used (spill_store d b)) = unat (sb_used b) + length d"
    using assms u w by (auto simp: spill_ok_def spill_store_def spill_text_def spill_room_def kCapacity_def
      word_less_nat_alt word_le_nat_alt)
qed

lemma spill_full:
  assumes "spill_ok b" "spill_room b < length d" "length d \<le> 2 ^ 31"
  shows "sb_used b + of_nat (length d) > kCapacity"
proof -
  have "unat (sb_used b) \<le> 512" using assms(1) by (auto simp: spill_ok_def kCapacity_def word_le_nat_alt)
  then have "unat (sb_used b + of_nat (length d)) = unat (sb_used b) + length d"
    using unat_add_small[of "sb_used b" "length d"] assms(3) by simp
  then show ?thesis using assms(2) by (simp add: spill_room_def kCapacity_def word_less_nat_alt)
qed

interpretation spill_space: bounded_store spill_ok spill_text spill_room "2 ^ 31" spill_extend "http_error HeaderTooLarge"
proof
  fix b and d :: string assume "spill_ok b" "length d \<le> spill_room b"
  from spill_fits[OF this] show "\<exists>b'. spill_extend d b = (Inr (), b') \<and> spill_ok b' \<and>
      spill_text b' = spill_text b @ d \<and> spill_room b' = spill_room b - length d"
    by (simp add: spill_extend_def)
next
  fix b and d :: string assume "spill_ok b" "spill_room b < length d" "length d \<le> 2 ^ 31"
  from spill_full[OF this] show "spill_extend d b = (Inl (http_error HeaderTooLarge), b)"
    by (simp add: spill_extend_def http_unexpected_Inl)
qed

text \<open>A run stored in the spill buffer reads back, also after more runs are stored.\<close>

lemma spill_view_put:
  assumes "spill_ok b" "spill_put d b = (Inr off, b')"  "length d \<le> 2 ^ 31"
  shows "spill_ok b'" "spill_view off (of_nat (length d)) b' = d" "off = sb_used b"
    "unat off + length d = unat (sb_used b')"
proof -
  have r: "length d \<le> spill_room b" "off = sb_used b" "b' = spill_store d b"
    using assms(2) spill_full[OF assms(1) _ assms(3)] linorder_not_le
    by (auto simp: spill_put_def http_unexpected_Inl split: if_splits)
  note f = spill_fits[OF assms(1) r(1)]
  show "spill_ok b'" "off = sb_used b" "unat off + length d = unat (sb_used b')" using f r by auto
  have "unat (of_nat (length d) :: uint32) = length d"
    using assms(3) by (simp add: unsigned_of_nat take_bit_nat_eq_self)
  then show "spill_view off (of_nat (length d)) b' = d"
    using assms(1) by (simp add: spill_view_def substr_def r(2,3) spill_store_def spill_ok_def kCapacity_def word_le_nat_alt)
qed

lemma spill_view_stable:
  assumes "spill_ok b" "length d \<le> spill_room b" "unat off + unat len \<le> unat (sb_used b)"
  shows "spill_view off len (spill_store d b) = spill_view off len b"
  using assms by (simp add: spill_view_def substr_def spill_store_def spill_ok_def kCapacity_def word_le_nat_alt take_drop min_def)

subsection \<open>Views into the header buffer\<close>

text \<open>
  The operations a connection uses on the header buffer while one message is parsed: it receives
  into the writable span, consumes what the parser took, and rewinds to the end of the header
  section, \<open>floor\<close>, to reuse the space behind it for body bytes.
\<close>

datatype head_op = Fill string | Consume uint32 | Rewind

fun head_run :: "uint32 \<Rightarrow> head_op \<Rightarrow> head_buffer_t \<times> mem \<Rightarrow> head_buffer_t \<times> mem" where
  "head_run fl (Fill s) (b, m) = (if length s \<le> unat (snd (writable b)) then head_fill s b m else (b, m))"
| "head_run fl (Consume n) (b, m) = (if n \<le> readable b then consume n b else b, m)"
| "head_run fl Rewind (b, m) = (rewind_to fl b, m)"

definition head_ok :: "uint32 \<Rightarrow> head_buffer_t \<times> mem \<Rightarrow> bool" where
  "head_ok fl s = (let (b, m) = s in
    lease_wf m (hb_lease b) \<and> hb_parsing b \<and> fl \<le> hb_w b \<and> hb_r b \<le> hb_w b \<and> hb_w b \<le> head_capacity b \<and> \<not> m_fault m)"

lemma head_run_ok:
  assumes "head_ok fl s" "unat off + unat len \<le> unat fl"
  shows "head_ok fl (head_run fl op s)"
    "head_view off len (fst (head_run fl op s)) (snd (head_run fl op s)) = head_view off len (fst s) (snd s)"
proof -
  obtain b m where s: "s = (b, m)" by (cases s)
  obtain a blk where a: "l_data (hb_lease b) = Some a" "m_blocks m a = Some blk" "length blk = unat (head_capacity b)"
    using assms(1) lease_wfD[of m "hb_lease b"] by (auto simp: head_ok_def head_capacity_def s)
  have w: "unat fl \<le> unat (hb_w b)" "unat (hb_r b) \<le> unat (hb_w b)" "unat (hb_w b) \<le> unat (head_capacity b)"
    "hb_parsing b" "\<not> m_fault m"
    using assms(1) by (auto simp: head_ok_def s word_le_nat_alt)
  have "head_ok fl (head_run fl op s) \<and> head_view off len (fst (head_run fl op s)) (snd (head_run fl op s)) =
      head_view off len (fst s) (snd s)"
  proof (cases op)
    case (Fill d)
    show ?thesis
    proof (cases "length d \<le> unat (snd (writable b))")
      case True
      then have fit: "unat (hb_w b) + length d \<le> unat (head_capacity b)"
        using a(1) w(3) by (simp add: writable_def unat_sub word_le_nat_alt)
      then have u: "unat (hb_w b + of_nat (length d)) = unat (hb_w b) + length d"
        using unat_add_small[of "hb_w b" "length d"] unat_word_less[of "head_capacity b"] by simp
      define blk' where "blk' = take (unat (hb_w b)) blk @ d @ drop (unat (hb_w b) + length d) blk"
      have run: "head_run fl op s = (b\<lparr>hb_w := hb_w b + of_nat (length d)\<rparr>, m\<lparr>m_blocks := (m_blocks m)(a \<mapsto> blk')\<rparr>)"
        using True Fill a fit by (simp add: s head_fill_def commit_def mem_write_def blk'_def)
      have "length blk' = length blk" "take (unat fl) blk' = take (unat fl) blk"
        using fit a(3) w by (simp_all add: blk'_def)
      moreover have "substr x (unat off) (unat len) = substr (take (unat fl) x) (unat off) (unat len)" for x :: string
        using assms(2) by (simp add: substr_def take_drop min_def)
      ultimately have "substr blk' (unat off) (unat len) = substr blk (unat off) (unat len)" by metis
      then show ?thesis
        using assms(1) a w u fit \<open>length blk' = length blk\<close> unfolding run
        by (auto simp: head_ok_def s head_view_def mem_read_def lease_wf_def sized_def head_capacity_def word_le_nat_alt)
    next
      case False
      then show ?thesis using assms(1) Fill by (simp add: s)
    qed
  next
    case (Consume n)
    then show ?thesis
      using assms(1) w(2) unat_word_less[of "hb_w b"]
      by (auto simp: s head_ok_def consume_def readable_def head_view_def head_capacity_def word_le_nat_alt unat_sub unat_word_ariths)
  next
    case Rewind
    then show ?thesis using assms(1) by (auto simp: s head_ok_def rewind_to_def head_view_def head_capacity_def)
  qed
  then show "head_ok fl (head_run fl op s)"
    "head_view off len (fst (head_run fl op s)) (snd (head_run fl op s)) = head_view off len (fst s) (snd s)" by simp_all
qed

text \<open>(C30) While a message is parsed, no sequence of receives, consumes and rewinds to the end of
  the header section changes what a view recorded inside the header section reads, none writes
  outside the block, and compaction is refused.\<close>

theorem head_views_stable:
  assumes "head_ok fl s" "unat off + unat len \<le> unat fl"
  shows "head_ok fl (fold (head_run fl) ops s) \<and>
    head_view off len (fst (fold (head_run fl) ops s)) (snd (fold (head_run fl) ops s)) = head_view off len (fst s) (snd s) \<and>
    compact (fst (fold (head_run fl) ops s)) (snd (fold (head_run fl) ops s)) = None"
proof -
  have "head_ok fl (fold (head_run fl) ops s) \<and>
    head_view off len (fst (fold (head_run fl) ops s)) (snd (fold (head_run fl) ops s)) = head_view off len (fst s) (snd s)"
    using assms(1)
  proof (induction ops arbitrary: s)
    case (Cons op ops)
    from Cons.IH[of "head_run fl op s"] head_run_ok[OF Cons.prems assms(2), of op] show ?case by simp
  qed simp
  then show ?thesis by (auto simp: head_ok_def compact_def split: prod.splits)
qed

definition demo_head :: "head_buffer_t \<times> mem" where
  "demo_head = (\<lparr>hb_lease = \<lparr>l_pool = False, l_data = Some 0, l_cap = 8\<rparr>, hb_r = 4, hb_w = 5, hb_parsing = True\<rparr>,
    \<lparr>m_blocks = [0 \<mapsto> ''ab: cX__''], m_next = 1, m_room = 0, m_fault = False\<rparr>)"

theorem head_views_stable_witness:
  "head_view 0 2 (fst (fold (head_run 5) [Fill ''yz'', Rewind, Fill ''123''] demo_head))
     (snd (fold (head_run 5) [Fill ''yz'', Rewind, Fill ''123''] demo_head)) = ''ab''"
proof -
  have "head_ok 5 demo_head" "head_view 0 2 (fst demo_head) (snd demo_head) = ''ab''"
    by code_simp+
  then show ?thesis using head_views_stable[of 5 demo_head 0 2 "[Fill ''yz'', Rewind, Fill ''123'']"] by simp
qed

text \<open>Between messages compaction moves exactly the unread bytes to the front.\<close>

lemma compact_keeps_unread:
  assumes "lease_wf m (hb_lease b)" "hb_r b \<le> hb_w b" "hb_w b \<le> head_capacity b" "compact b m = Some (r, b', m')"
  shows "head_view (hb_r b') (readable b') b' m' = head_view (hb_r b) (readable b) b m \<and> m_fault m' = m_fault m \<and>
    readable b' = readable b \<and> (r \<longrightarrow> hb_r b' = 0)"
proof -
  obtain a blk where a: "l_data (hb_lease b) = Some a" "m_blocks m a = Some blk" "length blk = unat (head_capacity b)"
    using assms(1) lease_wfD[of m "hb_lease b"] by (auto simp: head_capacity_def)
  have w: "unat (hb_w b - hb_r b) = unat (hb_w b) - unat (hb_r b)" "unat (hb_r b) \<le> unat (hb_w b)"
    "unat (hb_w b) \<le> length blk"
    using assms(2,3) a(3) by (auto simp: unat_sub word_le_nat_alt)
  show ?thesis
    using assms(4) a w
    by (auto simp: compact_def Let_def head_view_def readable_def mem_read_def mem_write_def substr_def
      word_neq_0_conv[symmetric] split: if_splits)
qed

end
