(* ===== verification/Headers.thy ===== *)
theory Headers
  imports Buffers
begin

text \<open>
  The header section of a message (\<^verbatim>\<open>include/cornet/http/common/headers.h\<close>,
  \<^verbatim>\<open>src/http/common/headers.cc\<close>): entries are offsets into the header buffer or
  the spill buffer, the first 32 are stored inline and the others in a vector, and two bitmaps
  record which enumerated fields are present among the headers and among the trailers.

  The lemmas show that this representation implements the plain list of entries: adding
  appends or refuses, and every lookup is the first matching entry of its own section, so that a
  trailer never answers a header lookup.
\<close>

record header_ref =
  name_off :: uint32
  value_off :: uint32
  name_len :: uint16
  value_len :: uint16
  hfield :: field_t
  spilled :: bool
  name_spilled :: bool
  is_trailer :: bool

definition header_ref0 :: header_ref where
  "header_ref0 = \<lparr>name_off = 0, value_off = 0, name_len = 0, value_len = 0, hfield = Other,
     spilled = False, name_spilled = False, is_trailer = False\<rparr>"

record headers_t =
  h_inline :: "header_ref list"
  h_size :: uint32
  h_trailers :: uint32
  h_bitmap :: uint32
  h_trailer_bitmap :: uint32
  h_overflow :: "header_ref list option"

definition kInline :: nat where "kInline = 32"

text \<open>The buffers the offsets refer to, as bound by \<^verbatim>\<open>bind\<close>; an unbound one is \<open>None\<close>.\<close>

record header_bufs =
  hb_head :: "(head_buffer_t \<times> mem) option"
  hb_spill :: "spill_buffer_t option"

definition headers_init :: headers_t where
  "headers_init = \<lparr>h_inline = replicate 32 header_ref0, h_size = 0, h_trailers = 0, h_bitmap = 0,
     h_trailer_bitmap = 0, h_overflow = None\<rparr>"

definition headers_clear :: "headers_t \<Rightarrow> headers_t" where
  "headers_clear h = h\<lparr>h_size := 0, h_trailers := 0, h_bitmap := 0, h_trailer_bitmap := 0,
     h_overflow := map_option (\<lambda>_. []) (h_overflow h)\<rparr>"

definition field_bit :: "field_t \<Rightarrow> uint32" where
  "field_bit f = push_bit (field_index f) 1"

definition header_store :: "header_ref \<Rightarrow> headers_t \<Rightarrow> headers_t" where
  "header_store r h =
    (if unat (h_size h) < kInline then h\<lparr>h_inline := (h_inline h)[unat (h_size h) := r]\<rparr>
     else h\<lparr>h_overflow := Some ((case h_overflow h of None \<Rightarrow> [] | Some v \<Rightarrow> v) @ [r])\<rparr>)"

definition header_mark :: "header_ref \<Rightarrow> headers_t \<Rightarrow> headers_t" where
  "header_mark r h =
    (if hfield r = Other then h
     else if is_trailer r then h\<lparr>h_trailer_bitmap := h_trailer_bitmap h OR field_bit (hfield r)\<rparr>
     else h\<lparr>h_bitmap := h_bitmap h OR field_bit (hfield r)\<rparr>)"

definition add_header :: "header_ref \<Rightarrow> uint32 \<Rightarrow> headers_t \<Rightarrow> unit expected \<times> headers_t" where
  "add_header r max_entries h =
    (let used = (if is_trailer r then h_trailers h else h_size h - h_trailers h) in
     if used \<ge> max_entries then (http_unexpected TooManyHeaders, h)
     else let h = header_store r h;
              h = h\<lparr>h_size := h_size h + 1\<rparr>;
              h = (if is_trailer r then h\<lparr>h_trailers := h_trailers h + 1\<rparr> else h) in
       (Inr (), header_mark r h))"

definition header_at :: "headers_t \<Rightarrow> nat \<Rightarrow> header_ref" where
  "header_at h i = (if i < kInline then h_inline h ! i
     else (case h_overflow h of None \<Rightarrow> header_ref0 | Some v \<Rightarrow> v ! (i - kInline)))"

definition has_field :: "headers_t \<Rightarrow> field_t \<Rightarrow> bool" where
  "has_field h f \<longleftrightarrow> f \<noteq> Other \<and> h_bitmap h AND field_bit f \<noteq> 0"

definition has_trailer :: "headers_t \<Rightarrow> field_t \<Rightarrow> bool" where
  "has_trailer h f \<longleftrightarrow> f \<noteq> Other \<and> h_trailer_bitmap h AND field_bit f \<noteq> 0"

definition resolve :: "header_bufs \<Rightarrow> uint32 \<Rightarrow> uint16 \<Rightarrow> bool \<Rightarrow> string" where
  "resolve e off len sp =
    (if len = 0 then []
     else if sp then (case hb_spill e of None \<Rightarrow> [] | Some b \<Rightarrow> spill_view off (ucast len) b)
     else (case hb_head e of None \<Rightarrow> [] | Some (b, m) \<Rightarrow> head_view off (ucast len) b m))"

definition ref_name :: "header_bufs \<Rightarrow> header_ref \<Rightarrow> string" where
  "ref_name e r = resolve e (name_off r) (name_len r) (name_spilled r)"

definition ref_value :: "header_bufs \<Rightarrow> header_ref \<Rightarrow> string" where
  "ref_value e r = resolve e (value_off r) (value_len r) (spilled r)"

text \<open>The loop all lookups share: the first entry from \<open>i\<close> on that \<open>P\<close> accepts.\<close>

function scan :: "(header_ref \<Rightarrow> bool) \<Rightarrow> headers_t \<Rightarrow> nat \<Rightarrow> header_ref option" where
  "scan P h i = (if i < unat (h_size h)
     then (if P (header_at h i) then Some (header_at h i) else scan P h (i + 1)) else None)"
  by pat_completeness auto

termination
  by (relation "measure (\<lambda>(P, h, i). unat (h_size h) - i)") auto

declare scan.simps [simp del]

definition value_or_empty :: "header_bufs \<Rightarrow> header_ref option \<Rightarrow> string" where
  "value_or_empty e r = (case r of None \<Rightarrow> [] | Some r \<Rightarrow> ref_value e r)"

definition get_field :: "header_bufs \<Rightarrow> headers_t \<Rightarrow> field_t \<Rightarrow> string" where
  "get_field e h f =
    (if \<not> has_field h f then []
     else value_or_empty e (scan (\<lambda>r. \<not> is_trailer r \<and> hfield r = f) h 0))"

definition trailer_field :: "header_bufs \<Rightarrow> headers_t \<Rightarrow> field_t \<Rightarrow> string" where
  "trailer_field e h f =
    (if \<not> has_trailer h f then []
     else value_or_empty e (scan (\<lambda>r. is_trailer r \<and> hfield r = f) h 0))"

definition trailer_name :: "header_bufs \<Rightarrow> headers_t \<Rightarrow> string \<Rightarrow> string" where
  "trailer_name e h name =
    (if h_trailers h = 0 then []
     else if field_from_name name \<noteq> Other then trailer_field e h (field_from_name name)
     else value_or_empty e (scan (\<lambda>r. is_trailer r \<and> hfield r = Other \<and> iequals (ref_name e r) name) h 0))"

definition get_name :: "header_bufs \<Rightarrow> headers_t \<Rightarrow> string \<Rightarrow> string" where
  "get_name e h name =
    (if field_from_name name \<noteq> Other then get_field e h (field_from_name name)
     else value_or_empty e (scan (\<lambda>r. \<not> is_trailer r \<and> hfield r = Other \<and> iequals (ref_name e r) name) h 0))"

definition ows :: "char \<Rightarrow> bool" where
  "ows c \<longleftrightarrow> c = CHR '' '' \<or> c = CHR 0x09"

definition trim_ows :: "string \<Rightarrow> string" where
  "trim_ows s = rev (dropWhile ows (rev (dropWhile ows s)))"

text \<open>The loop over the comma-separated pieces from position \<open>pos\<close> on.\<close>

function token_loop :: "string \<Rightarrow> string \<Rightarrow> nat \<Rightarrow> bool" where
  "token_loop fv token pos =
    (if pos < length fv
     then (case find_pos ((=) (CHR '','')) (drop pos fv) of
         None \<Rightarrow> iequals (trim_ows (drop pos fv)) token
       | Some k \<Rightarrow> iequals (trim_ows (substr fv pos k)) token \<or> token_loop fv token (pos + k + 1))
     else False)"
  by pat_completeness auto

termination
  by (relation "measure (\<lambda>(v, t, pos). length v - pos)") auto

declare token_loop.simps [simp del]

definition contains_token :: "header_bufs \<Rightarrow> headers_t \<Rightarrow> field_t \<Rightarrow> string \<Rightarrow> bool" where
  "contains_token e h f token =
    (let fv = get_field e h f in if fv = [] then False else token_loop fv token 0)"

subsection \<open>The list of entries\<close>

definition entries :: "headers_t \<Rightarrow> header_ref list" where
  "entries h = map (header_at h) [0..<unat (h_size h)]"

text \<open>The representation invariant.\<close>

definition marks :: "uint32 \<Rightarrow> header_ref list \<Rightarrow> bool" where
  "marks bm rs \<longleftrightarrow> (\<forall>f. f \<noteq> Other \<longrightarrow> (bit bm (field_index f) \<longleftrightarrow> (\<exists>r \<in> set rs. hfield r = f)))"

definition headers_wf :: "headers_t \<Rightarrow> bool" where
  "headers_wf h \<longleftrightarrow>
    length (h_inline h) = kInline \<and>
    length (case h_overflow h of None \<Rightarrow> [] | Some v \<Rightarrow> v) = unat (h_size h) - kInline \<and>
    unat (h_trailers h) = length (filter is_trailer (entries h)) \<and>
    marks (h_bitmap h) (filter (\<lambda>r. \<not> is_trailer r) (entries h)) \<and>
    marks (h_trailer_bitmap h) (filter is_trailer (entries h))"

lemma scan_entries: "scan P h i = find P (drop i (entries h))"
proof (induction P h i rule: scan.induct)
  case (1 P h i)
  show ?case
  proof (cases "i < unat (h_size h)")
    case True
    then have "drop i (entries h) = header_at h i # drop (i + 1) (entries h)"
      using Cons_nth_drop_Suc[of i "entries h"] by (simp add: entries_def)
    then show ?thesis using 1 True by (subst scan.simps) simp
  next
    case False
    then show ?thesis by (subst scan.simps) (simp add: entries_def)
  qed
qed

lemma field_bit_and: "(w AND field_bit f \<noteq> 0) = bit w (field_index f)"
  by (simp add: field_bit_def and_exp_eq_0_iff_not_bit)

lemma bit_field_bit: "f \<noteq> Other \<Longrightarrow> bit (field_bit g) (field_index f) \<longleftrightarrow> field_index f = field_index g"
proof -
  assume "f \<noteq> Other"
  then have "field_index f < 24" by (simp add: field_index_less)
  then show ?thesis by (auto simp: field_bit_def bit_exp_iff)
qed

lemma marks_add:
  assumes "marks bm rs" "hfield r \<noteq> Other"
  shows "marks (bm OR field_bit (hfield r)) (rs @ [r])"
  using assms field_index_inj by (fastforce simp: marks_def bit_or_iff bit_field_bit)

lemma marks_skip: "marks bm rs \<Longrightarrow> hfield r = Other \<Longrightarrow> marks bm (rs @ [r])"
  by (auto simp: marks_def)

lemma header_at_store:
  assumes "headers_wf h" "i \<le> unat (h_size h)"
  shows "header_at (header_store r h) i = (if i = unat (h_size h) then r else header_at h i)"
proof -
  have "length (h_inline h) = kInline"
    "length (case h_overflow h of None \<Rightarrow> [] | Some v \<Rightarrow> v) = unat (h_size h) - kInline"
    using assms(1) by (simp_all add: headers_wf_def)
  then show ?thesis using assms(2)
    by (cases "h_overflow h") (auto simp: header_store_def header_at_def nth_append)
qed

lemma entries_store:
  assumes "headers_wf h" "unat (h_size h) + 1 < 2 ^ 32"
    "h_inline h' = h_inline (header_store r h)" "h_overflow h' = h_overflow (header_store r h)"
    "h_size h' = h_size h + 1"
  shows "entries h' = entries h @ [r]"
proof -
  have s: "unat (h_size h') = Suc (unat (h_size h))" using assms(2,5) unat_add_small[of "h_size h" 1] by simp
  have "header_at h' i = header_at (header_store r h) i" for i by (simp add: header_at_def assms(3,4))
  then have "header_at h' i = (if i = unat (h_size h) then r else header_at h i)" if "i \<le> unat (h_size h)" for i
    using header_at_store[OF assms(1) that] by simp
  then show ?thesis by (simp add: entries_def s)
qed

lemma add_header_ok:
  assumes "headers_wf h" "unat (h_size h) + 1 < 2 ^ 32" "add_header r n h = (Inr (), h')"
  shows "entries h' = entries h @ [r] \<and> headers_wf h'"
proof -
  have e: "entries h' = entries h @ [r]"
    using assms by (intro entries_store) (auto simp: add_header_def header_mark_def header_store_def Let_def http_unexpected_Inl split: if_splits)
  have t: "unat (h_trailers h) < 2 ^ 32 - 1"
  proof -
    have "unat (h_trailers h) \<le> length (entries h)" using assms(1) by (simp add: headers_wf_def)
    then show ?thesis using assms(2) by (simp add: entries_def)
  qed
  then have tr: "unat (h_trailers h + 1) = unat (h_trailers h) + 1" using unat_add_small[of "h_trailers h" 1] by simp
  have sz: "unat (h_size h + 1) = unat (h_size h) + 1" using assms(2) unat_add_small[of "h_size h" 1] by simp
  have "length (h_inline h') = kInline"
    "length (case h_overflow h' of None \<Rightarrow> [] | Some v \<Rightarrow> v) = unat (h_size h') - kInline"
    "unat (h_trailers h') = length (filter is_trailer (entries h'))"
    using assms(1,3) tr sz unfolding e
    by (auto simp: headers_wf_def add_header_def header_mark_def header_store_def Let_def http_unexpected_Inl
      split: if_splits option.splits)
  moreover have "marks (h_bitmap h') (filter (\<lambda>r. \<not> is_trailer r) (entries h'))"
    "marks (h_trailer_bitmap h') (filter is_trailer (entries h'))"
    using assms(1,3) marks_add[of _ _ r] marks_skip[of _ _ r] unfolding e
    by (auto simp: headers_wf_def add_header_def header_mark_def header_store_def Let_def http_unexpected_Inl
      split: if_splits)
  ultimately show ?thesis using e by (simp add: headers_wf_def)
qed

lemma find_snoc: "\<not> P x \<Longrightarrow> find P (xs @ [x]) = find P xs"
  by (induction xs) auto

lemma get_field_find:
  assumes "headers_wf h" "f \<noteq> Other"
  shows "get_field e h f = value_or_empty e (find (\<lambda>r. \<not> is_trailer r \<and> hfield r = f) (entries h))"
proof (cases "has_field h f")
  case False
  then have "\<not> (\<exists>r \<in> set (entries h). \<not> is_trailer r \<and> hfield r = f)"
    using assms by (auto simp: has_field_def field_bit_and headers_wf_def marks_def)
  then have "find (\<lambda>r. \<not> is_trailer r \<and> hfield r = f) (entries h) = None" by (auto simp: find_None_iff)
  then show ?thesis using False by (simp add: get_field_def value_or_empty_def)
qed (simp add: get_field_def scan_entries)

lemma trailer_field_find:
  assumes "headers_wf h" "f \<noteq> Other"
  shows "trailer_field e h f = value_or_empty e (find (\<lambda>r. is_trailer r \<and> hfield r = f) (entries h))"
proof (cases "has_trailer h f")
  case False
  then have "\<not> (\<exists>r \<in> set (entries h). is_trailer r \<and> hfield r = f)"
    using assms by (auto simp: has_trailer_def field_bit_and headers_wf_def marks_def)
  then have "find (\<lambda>r. is_trailer r \<and> hfield r = f) (entries h) = None" by (auto simp: find_None_iff)
  then show ?thesis using False by (simp add: trailer_field_def value_or_empty_def)
qed (simp add: trailer_field_def scan_entries)

text \<open>What a name lookup matches: an enumerated name the entries of that field, another name the
  entries outside the enumeration with an equal name up to case.\<close>

definition name_match :: "header_bufs \<Rightarrow> string \<Rightarrow> header_ref \<Rightarrow> bool" where
  "name_match e name r \<longleftrightarrow> hfield r = field_from_name name \<and> (hfield r = Other \<longrightarrow> iequals (ref_name e r) name)"

lemma get_name_find:
  assumes "headers_wf h"
  shows "get_name e h name = value_or_empty e (find (\<lambda>r. \<not> is_trailer r \<and> name_match e name r) (entries h))"
proof (cases "field_from_name name = Other")
  case True
  then have "(\<lambda>r. \<not> is_trailer r \<and> name_match e name r) =
      (\<lambda>r. \<not> is_trailer r \<and> hfield r = Other \<and> iequals (ref_name e r) name)"
    by (auto simp: name_match_def)
  then show ?thesis using True by (simp add: get_name_def scan_entries)
next
  case False
  then have "(\<lambda>r. \<not> is_trailer r \<and> name_match e name r) = (\<lambda>r. \<not> is_trailer r \<and> hfield r = field_from_name name)"
    by (auto simp: name_match_def)
  then show ?thesis using False get_field_find[OF assms False] by (simp add: get_name_def)
qed

lemma trailer_name_find:
  assumes "headers_wf h"
  shows "trailer_name e h name = value_or_empty e (find (\<lambda>r. is_trailer r \<and> name_match e name r) (entries h))"
proof (cases "h_trailers h = 0")
  case True
  then have "filter is_trailer (entries h) = []" using assms by (simp add: headers_wf_def)
  then have "find (\<lambda>r. is_trailer r \<and> name_match e name r) (entries h) = None"
    by (auto simp: find_None_iff filter_empty_conv)
  then show ?thesis using True by (simp add: trailer_name_def value_or_empty_def)
next
  case nz: False
  show ?thesis
  proof (cases "field_from_name name = Other")
    case True
    then have "(\<lambda>r. is_trailer r \<and> name_match e name r) =
        (\<lambda>r. is_trailer r \<and> hfield r = Other \<and> iequals (ref_name e r) name)"
      by (auto simp: name_match_def)
    then show ?thesis using True nz by (simp add: trailer_name_def scan_entries)
  next
    case False
    then have "(\<lambda>r. is_trailer r \<and> name_match e name r) = (\<lambda>r. is_trailer r \<and> hfield r = field_from_name name)"
      by (auto simp: name_match_def)
    then show ?thesis using False nz trailer_field_find[OF assms False] by (simp add: trailer_name_def)
  qed
qed

lemma used_entries:
  assumes "headers_wf h"
  shows "unat (if t then h_trailers h else h_size h - h_trailers h) =
    length (filter (\<lambda>r. is_trailer r = t) (entries h))"
proof -
  have s: "length (filter is_trailer (entries h)) + length (filter (\<lambda>r. \<not> is_trailer r) (entries h)) = unat (h_size h)"
    using sum_length_filter_compl[of is_trailer "entries h"] by (simp add: entries_def)
  have t: "unat (h_trailers h) = length (filter is_trailer (entries h))" using assms by (simp add: headers_wf_def)
  then have "h_trailers h \<le> h_size h" using s by (simp add: word_le_nat_alt)
  then show ?thesis using s t by (cases t) (simp_all add: unat_sub)
qed

definition spec_add :: "header_ref \<Rightarrow> nat \<Rightarrow> header_ref list \<Rightarrow> header_ref list option" where
  "spec_add r n rs =
    (if length (filter (\<lambda>x. is_trailer x = is_trailer r) rs) \<ge> n then None else Some (rs @ [r]))"

text \<open>(C23) The header section implements a plain list of entries: adding appends, or refuses when the
  entries of that kind have reached their limit, and keeps the representation invariant; the four
  lookups return the value of the first matching entry of their own section, which for an
  enumerated field the bitmaps and for the others the scan find.\<close>

theorem headers_refine_list:
  assumes "headers_wf h" "unat (h_size h) + 1 < 2 ^ 32"
  shows "(case spec_add r (unat n) (entries h) of
      None \<Rightarrow> add_header r n h = (http_unexpected TooManyHeaders, h)
    | Some rs \<Rightarrow> (\<exists>h'. add_header r n h = (Inr (), h') \<and> headers_wf h' \<and> entries h' = rs)) \<and>
    (\<forall>f. f \<noteq> Other \<longrightarrow>
      get_field e h f = value_or_empty e (find (\<lambda>r. \<not> is_trailer r \<and> hfield r = f) (entries h)) \<and>
      trailer_field e h f = value_or_empty e (find (\<lambda>r. is_trailer r \<and> hfield r = f) (entries h))) \<and>
    get_name e h name = value_or_empty e (find (\<lambda>r. \<not> is_trailer r \<and> name_match e name r) (entries h)) \<and>
    trailer_name e h name = value_or_empty e (find (\<lambda>r. is_trailer r \<and> name_match e name r) (entries h))"
proof -
  let ?used = "if is_trailer r then h_trailers h else h_size h - h_trailers h"
  have u: "?used \<ge> n \<longleftrightarrow> length (filter (\<lambda>x. is_trailer x = is_trailer r) (entries h)) \<ge> unat n"
    using used_entries[OF assms(1), of "is_trailer r"] by (simp only: word_le_nat_alt)
  have "case spec_add r (unat n) (entries h) of
      None \<Rightarrow> add_header r n h = (http_unexpected TooManyHeaders, h)
    | Some rs \<Rightarrow> (\<exists>h'. add_header r n h = (Inr (), h') \<and> headers_wf h' \<and> entries h' = rs)"
  proof (cases "?used \<ge> n")
    case True
    then show ?thesis using u by (simp add: spec_add_def add_header_def)
  next
    case False
    then obtain h' where "add_header r n h = (Inr (), h')" by (auto simp: add_header_def Let_def)
    then show ?thesis using add_header_ok[OF assms] u False by (auto simp: spec_add_def)
  qed
  then show ?thesis
    using get_field_find trailer_field_find get_name_find trailer_name_find assms(1) by blast
qed

lemma entries_init [simp]: "entries headers_init = []"
  by (simp add: entries_def headers_init_def)

lemma headers_init_wf: "headers_wf headers_init"
  by (simp add: headers_wf_def marks_def) (simp add: headers_init_def kInline_def)

lemma headers_init_size: "unat (h_size headers_init) + 1 < 2 ^ 32"
  by (simp add: headers_init_def)

lemma headers_clear_wf: "headers_wf h \<Longrightarrow> headers_wf (headers_clear h) \<and> entries (headers_clear h) = []"
  by (auto simp: headers_wf_def marks_def headers_clear_def entries_def split: option.splits)

theorem headers_refine_list_witness:
  "\<exists>h. add_header header_ref0 1 headers_init = (Inr (), h) \<and> entries h = [header_ref0]"
  using headers_refine_list[OF headers_init_wf headers_init_size, where r = header_ref0 and n = 1
    and e = "\<lparr>hb_head = None, hb_spill = None\<rparr>" and name = "[]"]
  by (auto simp: spec_add_def)

text \<open>(C24) A trailer never influences a header lookup: after adding a trailer every lookup by field
  or name and every token test in the header section answers as before.\<close>

theorem trailers_never_answer:
  assumes "headers_wf h" "unat (h_size h) + 1 < 2 ^ 32" "is_trailer r" "add_header r n h = (Inr (), h')"
  shows "get_field e h' f = get_field e h f \<and> get_name e h' name = get_name e h name \<and>
    contains_token e h' f token = contains_token e h f token"
proof -
  note a = add_header_ok[OF assms(1,2,4)]
  have fi: "find P (entries h') = find P (entries h)" if "\<not> P r" for P
    using that a by (simp add: find_snoc)
  have f: "get_field e h' f = get_field e h f" for f
  proof (cases "f = Other")
    case True
    then show ?thesis by (simp add: get_field_def has_field_def)
  next
    case False
    then show ?thesis using get_field_find[of h' f e] get_field_find[of h f e] assms(1,3) a fi by simp
  qed
  moreover have "get_name e h' name = get_name e h name"
    using get_name_find[of h' e name] get_name_find[of h e name] assms(1,3) a fi by simp
  ultimately show ?thesis by (simp add: contains_token_def)
qed

theorem trailers_never_answer_witness:
  "\<exists>h. add_header (header_ref0\<lparr>is_trailer := True, hfield := ContentLength\<rparr>) 1 headers_init = (Inr (), h) \<and>
    get_field \<lparr>hb_head = None, hb_spill = None\<rparr> h ContentLength =
      get_field \<lparr>hb_head = None, hb_spill = None\<rparr> headers_init ContentLength"
proof -
  have "h_trailers headers_init = 0" by (simp add: headers_init_def)
  then obtain h where "add_header (header_ref0\<lparr>is_trailer := True, hfield := ContentLength\<rparr>) 1 headers_init = (Inr (), h)"
    by (simp add: add_header_def Let_def)
  then show ?thesis
    using trailers_never_answer[OF headers_init_wf headers_init_size, of "header_ref0\<lparr>is_trailer := True, hfield := ContentLength\<rparr>" 1 h]
    by auto
qed

subsection \<open>Token lists\<close>

fun split_comma :: "string \<Rightarrow> string list" where
  "split_comma [] = [[]]"
| "split_comma (c # cs) = (if c = CHR '','' then [] # split_comma cs
    else (case split_comma cs of [] \<Rightarrow> [[c]] | p # ps \<Rightarrow> (c # p) # ps))"

lemma split_comma_nonempty: "split_comma s \<noteq> []"
  by (cases s) (auto split: list.split)

lemma split_comma_here:
  "CHR '','' \<notin> set pre \<Longrightarrow> split_comma (pre @ CHR '','' # post) = pre # split_comma post"
  by (induction pre) auto

lemma split_comma_none: "CHR '','' \<notin> set s \<Longrightarrow> split_comma s = [s]"
  by (induction s) auto

lemma iequals_Nil: "iequals [] t \<longleftrightarrow> t = []"
  by (cases t) (simp_all add: iequals_alt)

lemma token_loop_pieces:
  assumes "token \<noteq> []"
  shows "token_loop fv token pos \<longleftrightarrow> (\<exists>p \<in> set (split_comma (drop pos fv)). iequals (trim_ows p) token)"
  using assms
proof (induction fv token pos rule: token_loop.induct)
  case (1 v t pos)
  show ?case
  proof (cases "pos < length v")
    case False
    then show ?thesis using 1(2) by (subst token_loop.simps) (simp add: trim_ows_def iequals_Nil)
  next
    case True
    show ?thesis
    proof (cases "find_pos ((=) (CHR '','')) (drop pos v)")
      case None
      then have "CHR '','' \<notin> set (drop pos v)" by (auto simp: find_pos_None)
      then show ?thesis using True None by (subst token_loop.simps) (simp add: split_comma_none)
    next
      case (Some k)
      obtain pre post where s: "drop pos v = pre @ CHR '','' # post" "length pre = k" "CHR '','' \<notin> set pre"
        using find_char_split[OF Some] by blast
      have "drop (pos + k + 1) v = drop (k + 1) (drop pos v)" by (simp add: add.commute add.left_commute)
      also have "... = post" using s(1,2) by simp
      finally have d: "drop (pos + k + 1) v = post" .
      have "substr v pos k = pre" using s(1,2) by (simp add: substr_def)
      moreover have "split_comma (drop pos v) = pre # split_comma post"
        unfolding s(1) by (rule split_comma_here[OF s(3)])
      ultimately show ?thesis
        using 1(1)[OF True Some 1(2)] True Some d by (subst token_loop.simps) simp
    qed
  qed
qed

text \<open>A token test is true exactly when one of the comma-separated pieces of the field's value,
  with blanks and tabs trimmed, equals the token up to case.\<close>

theorem contains_token_pieces:
  assumes "token \<noteq> []"
  shows "contains_token e h f token \<longleftrightarrow>
    (\<exists>p \<in> set (split_comma (get_field e h f)). iequals (trim_ows p) token)"
  using token_loop_pieces[OF assms, of "get_field e h f" 0] assms
  by (cases "get_field e h f = []") (simp_all add: contains_token_def trim_ows_def iequals_Nil)

definition demo_bufs :: header_bufs where
  "demo_bufs = \<lparr>hb_head = None, hb_spill = Some \<lparr>sb_used = 16, sb_data = ''keep-alive, Close''\<rparr>\<rparr>"

definition demo_headers :: headers_t where
  "demo_headers = snd (add_header (header_ref0\<lparr>value_len := 17, hfield := Connection, spilled := True\<rparr>) 8 headers_init)"

theorem contains_token_pieces_witness:
  "contains_token demo_bufs demo_headers Connection ''close'' \<and> ''close'' \<noteq> []"
proof -
  have "get_field demo_bufs demo_headers Connection = ''keep-alive, Close''" by code_simp
  moreover have "iequals (trim_ows '' Close'') ''close''" by code_simp
  ultimately show ?thesis
    using contains_token_pieces[of "''close''" demo_bufs demo_headers Connection] by auto
qed

end
