(* ===== verification/Router.thy ===== *)
theory Router
  imports Protocol "HOL-Library.AList"
begin

text \<open>
  The request router (\<^verbatim>\<open>include/cornet/http/server/router.h\<close>,
  \<^verbatim>\<open>src/http/server/router.cc\<close>): an exact table keyed by method and normalised
  path, and a trie for paths with parameters that is walked with an explicit backtracking
  stack.  Handlers are values of the type parameter \<open>'h\<close>.

  The lemmas show that the one-pass key equals the key built on the heap, that the small vector
  of the matcher implements a list, that the backtracking walk ends and finds exactly the first
  walk of the trie in the order literal, parameter, wildcard, that a registered static route is
  found under every spelling of its path, and a route table in which a matching wildcard is not
  found.
\<close>

subsection \<open>The small vector\<close>

record 'a small_vec =
  sv_inline :: "'a list"
  sv_spill :: "'a list option"
  sv_size :: nat

definition sv_init :: "nat \<Rightarrow> 'a \<Rightarrow> 'a small_vec" where
  "sv_init n x = \<lparr>sv_inline = replicate n x, sv_spill = None, sv_size = 0\<rparr>"

definition sv_clear :: "'a small_vec \<Rightarrow> 'a small_vec" where
  "sv_clear v = v\<lparr>sv_size := 0, sv_spill := map_option (\<lambda>_. []) (sv_spill v)\<rparr>"

definition sv_push_back :: "'a \<Rightarrow> 'a small_vec \<Rightarrow> 'a small_vec" where
  "sv_push_back x v = (case sv_spill v of
      Some s \<Rightarrow> v\<lparr>sv_spill := Some (s @ [x])\<rparr>
    | None \<Rightarrow>
        if sv_size v < length (sv_inline v)
        then v\<lparr>sv_inline := (sv_inline v)[sv_size v := x], sv_size := sv_size v + 1\<rparr>
        else v\<lparr>sv_spill := Some (take (sv_size v) (sv_inline v) @ [x])\<rparr>)"

definition sv_pop_back :: "'a small_vec \<Rightarrow> 'a small_vec" where
  "sv_pop_back v = (case sv_spill v of
      Some s \<Rightarrow> v\<lparr>sv_spill := Some (butlast s)\<rparr>
    | None \<Rightarrow> v\<lparr>sv_size := sv_size v - 1\<rparr>)"

definition sv_length :: "'a small_vec \<Rightarrow> nat" where
  "sv_length v = (case sv_spill v of Some s \<Rightarrow> length s | None \<Rightarrow> sv_size v)"

definition sv_nth :: "'a small_vec \<Rightarrow> nat \<Rightarrow> 'a" where
  "sv_nth v i = (case sv_spill v of Some s \<Rightarrow> s ! i | None \<Rightarrow> sv_inline v ! i)"

definition sv_back :: "'a small_vec \<Rightarrow> 'a" where
  "sv_back v = (case sv_spill v of Some s \<Rightarrow> last s | None \<Rightarrow> sv_inline v ! (sv_size v - 1))"

subsection \<open>Paths and keys\<close>

definition slash :: "char \<Rightarrow> bool" where
  "slash c \<longleftrightarrow> c = CHR ''/''"

definition not_slash :: "char \<Rightarrow> bool" where
  "not_slash c \<longleftrightarrow> c \<noteq> CHR ''/''"

text \<open>The segments from the offset \<open>off\<close> on, each with its own offset in the path.\<close>

function split_from :: "nat \<Rightarrow> string \<Rightarrow> (nat \<times> string) list" where
  "split_from off p =
    (let r = dropWhile slash p; i = off + length (takeWhile slash p) in
     if r = [] then []
     else (i, takeWhile not_slash r) # split_from (i + length (takeWhile not_slash r)) (dropWhile not_slash r))"
  by pat_completeness auto

definition split_path :: "string \<Rightarrow> (nat \<times> string) list" where
  "split_path p = split_from 0 p"

fun method_slot :: "method_t \<Rightarrow> nat" where
  "method_slot Get = 0"
| "method_slot Head = 1"
| "method_slot Post = 2"
| "method_slot Put = 3"
| "method_slot Delete = 4"
| "method_slot Patch = 5"
| "method_slot Options = 6"
| "method_slot Connect = 7"
| "method_slot Trace = 8"
| "method_slot _ = 9"

definition slot_char :: "method_t \<Rightarrow> char" where
  "slot_char m = char_of (48 + method_slot m)"

text \<open>The loop writes the key behind \<open>out\<close>; \<open>None\<close> is the length 0 for a buffer that is
  too small.\<close>

function key_loop :: "nat \<Rightarrow> string \<Rightarrow> string \<Rightarrow> string option" where
  "key_loop cap out p =
    (let r = dropWhile slash p; seg = takeWhile not_slash r in
     if r = [] then Some out
     else if length out + 1 + length seg > cap then None
     else key_loop cap (out @ CHR ''/'' # seg) (dropWhile not_slash r))"
  by pat_completeness auto

definition normalise_key_into :: "method_t \<Rightarrow> string \<Rightarrow> nat \<Rightarrow> string option" where
  "normalise_key_into m p cap =
    (if cap < 2 then None
     else map_option (\<lambda>k. if length k = 1 then k @ ''/'' else k) (key_loop cap [slot_char m] p))"

definition exact_key :: "method_t \<Rightarrow> string \<Rightarrow> string" where
  "exact_key m p = slot_char m # p"

definition normalise :: "string \<Rightarrow> string" where
  "normalise p = (let s = concat (map (\<lambda>(_, s). CHR ''/'' # s) (split_path p)) in if s = [] then ''/'' else s)"

lemma dropWhile_shorter: "dropWhile slash p \<noteq> [] \<Longrightarrow> length (dropWhile not_slash (dropWhile slash p)) < length p"
proof -
  assume "dropWhile slash p \<noteq> []"
  then obtain c cs where r: "dropWhile slash p = c # cs" by (cases "dropWhile slash p") auto
  then have "not_slash c" using hd_dropWhile[of slash p] by (auto simp: slash_def not_slash_def)
  then have "length (dropWhile not_slash (dropWhile slash p)) \<le> length cs"
    using r length_dropWhile_le[of not_slash cs] by simp
  also have "... < length p" using r length_dropWhile_le[of slash p] by simp
  finally show ?thesis .
qed

termination split_from
  by (relation "measure (\<lambda>(off, p). length p)") (auto simp: dropWhile_shorter)

termination key_loop
  by (relation "measure (\<lambda>(cap, out, p). length p)") (auto simp: dropWhile_shorter)

declare split_from.simps [simp del] key_loop.simps [simp del]

subsection \<open>Routes and the trie\<close>

datatype kind_t = KSync | KAsync | KWebSocket

datatype body_policy_t = Auto | Aggregate | Stream

record 'h route_t =
  r_kind :: kind_t
  r_body :: body_policy_t
  r_fn :: "'h option"
  r_param_names :: "string list"

definition route_valid :: "'h route_t \<Rightarrow> bool" where
  "route_valid r = (r_fn r \<noteq> None)"

datatype 'h node_t = Node (lits: "(string \<times> 'h node_t) list") (par: "'h node_t option")
  (wild: "'h node_t option") (node_routes: "'h route_t option list")

definition kMethodSlots :: nat where "kMethodSlots = 10"

definition empty_node :: "'h node_t" where
  "empty_node = Node [] None None (replicate kMethodSlots None)"

definition has_any_route :: "'h node_t \<Rightarrow> bool" where
  "has_any_route n = list_ex (\<lambda>r. r \<noteq> None) (node_routes n)"

record 'h router_t =
  rt_exact :: "(string \<times> 'h route_t) list"
  rt_root :: "'h node_t"
  rt_fallback :: "'h route_t"
  rt_count :: uint32

definition router_init :: "'h router_t" where
  "router_init = \<lparr>rt_exact = [], rt_root = empty_node,
     rt_fallback = \<lparr>r_kind = KSync, r_body = Auto, r_fn = None, r_param_names = []\<rparr>, rt_count = 0\<rparr>"

definition fallback_route :: "'h router_t \<Rightarrow> 'h route_t option" where
  "fallback_route r = (if route_valid (rt_fallback r) then Some (rt_fallback r) else None)"

definition dynamic_segment :: "string \<Rightarrow> bool" where
  "dynamic_segment s \<longleftrightarrow> s \<noteq> [] \<and> (hd s = CHR '':'' \<or> hd s = CHR ''*'')"

text \<open>The walk of \<^verbatim>\<open>add\<close>, which creates the missing nodes, and the store at its end; the
  names of the parameters are collected on the way.\<close>

fun insert_route :: "string list \<Rightarrow> nat \<Rightarrow> 'h route_t \<Rightarrow> 'h node_t \<Rightarrow> 'h node_t" where
  "insert_route [] slot r n = Node (lits n) (par n) (wild n) ((node_routes n)[slot := Some r])"
| "insert_route (s # ss) slot r n =
    (if hd s = CHR '':'' then
       Node (lits n) (Some (insert_route ss slot (r\<lparr>r_param_names := r_param_names r @ [drop 1 s]\<rparr>)
         (case par n of None \<Rightarrow> empty_node | Some c \<Rightarrow> c))) (wild n) (node_routes n)
     else if hd s = CHR ''*'' then
       Node (lits n) (par n) (Some (insert_route [] slot (r\<lparr>r_param_names := r_param_names r @ [drop 1 s]\<rparr>)
         (case wild n of None \<Rightarrow> empty_node | Some c \<Rightarrow> c))) (node_routes n)
     else
       Node (AList.update s (insert_route ss slot r
         (case map_of (lits n) s of None \<Rightarrow> empty_node | Some c \<Rightarrow> c)) (lits n)) (par n) (wild n) (node_routes n))"

text \<open>
  A second registration of the same static route reads the new route through a pointer into an
  object that \<^verbatim>\<open>emplace\<close> may already have destroyed; that branch has no defined result and is
  \<open>None\<close>.
\<close>

definition router_add :: "method_t \<Rightarrow> string \<Rightarrow> 'h route_t \<Rightarrow> 'h router_t \<Rightarrow> 'h router_t option" where
  "router_add m p route r =
    (let segs = map snd (split_path p); r = r\<lparr>rt_count := rt_count r + 1\<rparr> in
     if \<not> list_ex dynamic_segment segs then
       let key = exact_key m (normalise p) in
       (case map_of (rt_exact r) key of
          Some _ \<Rightarrow> None
        | None \<Rightarrow> Some (r\<lparr>rt_exact := (key, route) # rt_exact r\<rparr>))
     else Some (r\<lparr>rt_root := insert_route segs (method_slot m) route (rt_root r)\<rparr>))"

subsection \<open>Parameter slots\<close>

definition kMax :: nat where "kMax = 8"

type_synonym param_slots = "(string \<times> string) list"

definition slots_add :: "string \<Rightarrow> string \<Rightarrow> param_slots \<Rightarrow> bool \<times> param_slots" where
  "slots_add name v sl = (if length sl \<ge> kMax then (False, sl) else (True, sl @ [(name, v)]))"

definition slots_get :: "param_slots \<Rightarrow> string \<Rightarrow> string" where
  "slots_get sl name = (case map_of sl name of None \<Rightarrow> [] | Some v \<Rightarrow> v)"

subsection \<open>Matching\<close>

datatype alt_t = AltParam | AltWildcard

record 'h match_frame_t =
  f_node :: "'h node_t"
  f_seg :: nat
  f_params :: nat
  f_alt :: alt_t

definition capture :: "string \<Rightarrow> string list \<Rightarrow> string list" where
  "capture s caps = (if length caps < kMax then caps @ [s] else caps)"

text \<open>The state of the walk: the node, the index of the next segment, the captured values and the
  stack of untried alternatives, its top first.\<close>

type_synonym 'h walk = "'h node_t \<times> nat \<times> string list \<times> 'h match_frame_t list"

function try_descend :: "string \<Rightarrow> (nat \<times> string) list \<Rightarrow> 'h walk \<Rightarrow> bool \<times> 'h walk" where
  "try_descend p segs (n, i, caps, st) =
    (if i < length segs then
       let seg = snd (segs ! i) in
       (case map_of (lits n) seg of
          Some c \<Rightarrow>
            let st' = (if par n \<noteq> None then \<lparr>f_node = n, f_seg = i, f_params = length caps, f_alt = AltParam\<rparr> # st
              else if wild n \<noteq> None then \<lparr>f_node = n, f_seg = i, f_params = length caps, f_alt = AltWildcard\<rparr> # st
              else st) in
            try_descend p segs (c, i + 1, caps, st')
        | None \<Rightarrow>
            (case par n of
               Some c \<Rightarrow>
                 let st' = (if wild n \<noteq> None then \<lparr>f_node = n, f_seg = i, f_params = length caps, f_alt = AltWildcard\<rparr> # st
                   else st) in
                 try_descend p segs (c, i + 1, capture seg caps, st')
             | None \<Rightarrow>
                 (case wild n of
                    Some c \<Rightarrow> try_descend p segs (c, length segs, capture (drop (fst (segs ! i)) p) caps, st)
                  | None \<Rightarrow> (False, n, i, caps, st))))
     else (True, n, i, caps, st))"
  by pat_completeness auto

termination
  by (relation "measure (\<lambda>(p, segs, n, i, caps, st). length segs - i)") auto

declare try_descend.simps [simp del]

text \<open>One round of the backtracking loop on the popped frame: the state to descend from, or \<open>None\<close>
  for the \<^verbatim>\<open>continue\<close>.\<close>

definition resume_frame :: "string \<Rightarrow> (nat \<times> string) list \<Rightarrow> string list \<Rightarrow> 'h match_frame_t \<Rightarrow> 'h match_frame_t list \<Rightarrow> 'h walk option" where
  "resume_frame p segs caps f st =
    (let n = f_node f; i = f_seg f; caps = take (f_params f) caps in
     if f_alt f = AltParam \<and> par n \<noteq> None then
       let st' = (if wild n \<noteq> None then \<lparr>f_node = n, f_seg = i, f_params = length caps, f_alt = AltWildcard\<rparr> # st else st) in
       Some (the (par n), i + 1, capture (snd (segs ! i)) caps, st')
     else if wild n \<noteq> None then
       Some (the (wild n), length segs, capture (drop (fst (segs ! i)) p) caps, st)
     else None)"

definition frame_weight :: "nat \<Rightarrow> 'h match_frame_t \<Rightarrow> nat" where
  "frame_weight n f = (if f_alt f = AltParam then 3 ^ (n - f_seg f + 1) else 1)"

function match_loop :: "string \<Rightarrow> (nat \<times> string) list \<Rightarrow> bool \<times> 'h walk \<Rightarrow> bool \<times> 'h walk" where
  "match_loop p segs (matched, n, i, caps, st) =
    (if matched then (True, n, i, caps, st)
     else (case st of
        [] \<Rightarrow> (False, n, i, caps, [])
      | f # st' \<Rightarrow>
          (case resume_frame p segs caps f st' of
             None \<Rightarrow> match_loop p segs (False, f_node f, f_seg f, take (f_params f) caps, st')
           | Some w \<Rightarrow> match_loop p segs (try_descend p segs w))))"
  by pat_completeness auto

text \<open>A descent from segment \<open>i\<close> pushes at most one frame for each later segment.\<close>

definition stack_weight :: "nat \<Rightarrow> 'h match_frame_t list \<Rightarrow> nat" where
  "stack_weight n st = sum_list (map (frame_weight n) st)"

lemma stack_weight_simps [simp]:
  "stack_weight n [] = 0" "stack_weight n (f # st) = frame_weight n f + stack_weight n st"
  by (simp_all add: stack_weight_def)

lemma descend_weight_step:
  assumes "i < n" "w \<le> 3 ^ (n - i + 1)" "2 * W' + 9 \<le> 2 * (w + W) + 3 ^ (n - (i + 1) + 2)"
  shows "2 * W' + 9 \<le> 2 * W + (3 :: nat) ^ (n - i + 2)"
proof -
  have "n - (i + 1) + 2 = n - i + 1" "n - i + 2 = Suc (n - i + 1)" using assms(1) by simp_all
  then show ?thesis using assms(2,3) by simp
qed

lemma frame_weight_le: "frame_weight n f \<le> 3 ^ (n - f_seg f + 1)"
  by (simp add: frame_weight_def)

lemma try_descend_weight:
  "2 * stack_weight (length segs) (snd (snd (snd (snd (try_descend p segs (n, i, caps, st)))))) + 9 \<le>
    2 * stack_weight (length segs) st + 3 ^ (length segs - i + 2)"
proof (induction p segs "(n, i, caps, st)" arbitrary: n i caps st rule: try_descend.induct)
  case (1 p segs n i caps st)
  let ?N = "length segs"
  have p2: "(9 :: nat) \<le> 3 ^ (?N - i + 2)" by simp
  show ?case
  proof (cases "i < ?N")
    case False
    then show ?thesis using p2 by (simp add: try_descend.simps)
  next
    case True
    show ?thesis
    proof (cases "map_of (lits n) (snd (segs ! i))")
      case (Some c)
      define st' where "st' = (if par n \<noteq> None then \<lparr>f_node = n, f_seg = i, f_params = length caps, f_alt = AltParam\<rparr> # st
              else if wild n \<noteq> None then \<lparr>f_node = n, f_seg = i, f_params = length caps, f_alt = AltWildcard\<rparr> # st
              else st)"
      have "\<exists>w \<le> 3 ^ (?N - i + 1). stack_weight ?N st' = w + stack_weight ?N st"
        by (auto simp: st'_def frame_weight_def)
      then obtain w where "w \<le> 3 ^ (?N - i + 1)" "stack_weight ?N st' = w + stack_weight ?N st" by blast
      then show ?thesis
        using 1(3)[OF True refl Some st'_def] descend_weight_step[OF True, of w] Some True
        by (subst try_descend.simps) (simp add: st'_def)
    next
      case lit: None
      show ?thesis
      proof (cases "par n")
        case (Some c)
        define st' where "st' = (if wild n \<noteq> None then \<lparr>f_node = n, f_seg = i, f_params = length caps, f_alt = AltWildcard\<rparr> # st
                   else st)"
        have "\<exists>w \<le> 3 ^ (?N - i + 1). stack_weight ?N st' = w + stack_weight ?N st"
          by (auto simp: st'_def frame_weight_def)
        then obtain w where "w \<le> 3 ^ (?N - i + 1)" "stack_weight ?N st' = w + stack_weight ?N st" by blast
        then show ?thesis
          using 1(2)[OF True refl lit Some st'_def] descend_weight_step[OF True, of w] Some True lit
          by (subst try_descend.simps) (simp add: st'_def)
      next
        case None
        show ?thesis
        proof (cases "wild n")
          case w: None
          then show ?thesis using True lit None p2 by (subst try_descend.simps) simp
        next
          case (Some c)
          have e: "try_descend p segs (n, i, caps, st) =
              try_descend p segs (c, ?N, capture (drop (fst (segs ! i)) p) caps, st)"
            using True lit None Some by (subst try_descend.simps) simp
          have "(3 :: nat) ^ (?N - ?N + 2) = 9" by simp
          then show ?thesis unfolding e using 1(1)[OF True refl lit None Some] p2 by linarith
        qed
      qed
    qed
  qed
qed

lemma resume_weight:
  assumes "resume_frame p segs caps f st = Some (n, i, caps', st')"
  shows "2 * stack_weight (length segs) st' + 3 ^ (length segs - i + 2) < 2 * stack_weight (length segs) (f # st) + 9"
proof (cases "f_alt f = AltParam \<and> par (f_node f) \<noteq> None")
  case True
  then have i: "i = f_seg f + 1" and w: "stack_weight (length segs) st' \<le> 1 + stack_weight (length segs) st"
    using assms by (auto simp: resume_frame_def Let_def frame_weight_def split: if_splits)
  have t: "(3 :: nat) \<le> 3 ^ (length segs - f_seg f + 1)" by simp
  have "length segs - i + 2 = length segs - f_seg f + 1 \<or> length segs - i + 2 = 2" using i by auto
  then have "(3 :: nat) ^ (length segs - i + 2) \<le> 3 ^ (length segs - f_seg f + 1) + 6"
  proof
    assume e: "length segs - i + 2 = length segs - f_seg f + 1"
    show ?thesis unfolding e by simp
  next
    assume e: "length segs - i + 2 = 2"
    show ?thesis unfolding e using t by simp
  qed
  with t have "2 + 3 ^ (length segs - i + 2) < 2 * 3 ^ (length segs - f_seg f + 1) + (9 :: nat)" by linarith
  then show ?thesis using w True by (simp add: frame_weight_def)
next
  case False
  then show ?thesis using assms by (auto simp: resume_frame_def Let_def frame_weight_def split: if_splits)
qed

termination match_loop
proof (relation "measure (\<lambda>(p, segs, b, n, i, caps, st). stack_weight (length segs) st)", goal_cases)
  case (2 p segs matched n i caps st f st')
  then show ?case by (simp add: frame_weight_def)
next
  case (3 p segs matched n i caps st f st' w)
  obtain n' i' c' s' where w: "w = (n', i', c', s')" by (cases w)
  from try_descend_weight[of segs p n' i' c' s'] resume_weight[of p segs caps f st' n' i' c' s'] 3 w
  show ?case by (cases "try_descend p segs w") auto
qed simp

declare match_loop.simps [simp del]

definition collect_params :: "'h route_t \<Rightarrow> string list \<Rightarrow> param_slots" where
  "collect_params r caps = fold (\<lambda>(name, v) sl. snd (slots_add name v sl)) (zip (r_param_names r) caps) []"

record 'h match_t =
  mt_route :: "'h route_t option"
  mt_method_mismatch :: bool

definition exact_find :: "'h router_t \<Rightarrow> method_t \<Rightarrow> string \<Rightarrow> 'h route_t option" where
  "exact_find r m p = (case normalise_key_into m p 256 of
      Some key \<Rightarrow> map_of (rt_exact r) key
    | None \<Rightarrow> map_of (rt_exact r) (exact_key m (normalise p)))"

definition router_match :: "'h router_t \<Rightarrow> method_t \<Rightarrow> string \<Rightarrow> 'h match_t \<times> param_slots" where
  "router_match r m p =
    (case exact_find r m p of
       Some route \<Rightarrow> (\<lparr>mt_route = Some route, mt_method_mismatch = False\<rparr>, [])
     | None \<Rightarrow>
         let segs = split_path p in
         (case match_loop p segs (try_descend p segs (rt_root r, 0, [], [])) of
            (False, _) \<Rightarrow> (\<lparr>mt_route = None, mt_method_mismatch = False\<rparr>, [])
          | (True, n, i, caps, st) \<Rightarrow>
              (case node_routes n ! method_slot m of
                 None \<Rightarrow> (\<lparr>mt_route = None, mt_method_mismatch = has_any_route n\<rparr>, [])
               | Some route \<Rightarrow> (\<lparr>mt_route = Some route, mt_method_mismatch = False\<rparr>, collect_params route caps))))"

subsection \<open>Vectors\<close>

text \<open>What the matcher relies on: a vector is a list that grows and shrinks at its end.\<close>

locale vec =
  fixes valid :: "'v \<Rightarrow> bool"
    and contents :: "'v \<Rightarrow> 'a list"
    and vclear :: "'v \<Rightarrow> 'v"
    and push :: "'a \<Rightarrow> 'v \<Rightarrow> 'v"
    and pop :: "'v \<Rightarrow> 'v"
    and back_elem :: "'v \<Rightarrow> 'a"
    and elem :: "'v \<Rightarrow> nat \<Rightarrow> 'a"
    and len :: "'v \<Rightarrow> nat"
  assumes clear_ok: "valid v \<Longrightarrow> valid (vclear v) \<and> contents (vclear v) = []"
    and push_ok: "valid v \<Longrightarrow> valid (push x v) \<and> contents (push x v) = contents v @ [x]"
    and pop_ok: "valid v \<Longrightarrow> contents v \<noteq> [] \<Longrightarrow> valid (pop v) \<and> contents (pop v) = butlast (contents v)"
    and back_ok: "valid v \<Longrightarrow> contents v \<noteq> [] \<Longrightarrow> back_elem v = last (contents v)"
    and elem_ok: "valid v \<Longrightarrow> i < length (contents v) \<Longrightarrow> elem v i = contents v ! i"
    and len_ok: "valid v \<Longrightarrow> len v = length (contents v)"
begin

lemma pop_push: "valid v \<Longrightarrow> contents (pop (push x v)) = contents v \<and> back_elem (push x v) = x"
  using push_ok[of v x] pop_ok[of "push x v"] back_ok[of "push x v"] by simp

lemma pushes: "valid v \<Longrightarrow> valid (fold push xs v) \<and> contents (fold push xs v) = contents v @ xs"
proof (induction xs arbitrary: v)
  case (Cons x xs)
  from Cons.IH[of "push x v"] push_ok[OF Cons.prems] show ?case by simp
qed simp

lemma refill: "valid v \<Longrightarrow> contents (fold push xs (vclear v)) = xs \<and> len (fold push xs (vclear v)) = length xs"
  using clear_ok[of v] pushes[of "vclear v" xs] len_ok by simp

end

definition sv_ok :: "'a small_vec \<Rightarrow> bool" where
  "sv_ok v \<longleftrightarrow> (sv_spill v = None \<longrightarrow> sv_size v \<le> length (sv_inline v))"

definition sv_list :: "'a small_vec \<Rightarrow> 'a list" where
  "sv_list v = (case sv_spill v of Some s \<Rightarrow> s | None \<Rightarrow> take (sv_size v) (sv_inline v))"

interpretation sv: vec sv_ok sv_list sv_clear sv_push_back sv_pop_back sv_back sv_nth sv_length
proof
  fix v :: "'a small_vec" and x i
  assume ok: "sv_ok v"
  show "sv_ok (sv_clear v) \<and> sv_list (sv_clear v) = []"
    by (auto simp: sv_ok_def sv_list_def sv_clear_def split: option.split)
  show "sv_ok (sv_push_back x v) \<and> sv_list (sv_push_back x v) = sv_list v @ [x]"
    using ok by (auto simp: sv_ok_def sv_list_def sv_push_back_def take_Suc_conv_app_nth split: option.split)
  show "sv_length v = length (sv_list v)"
    using ok by (auto simp: sv_ok_def sv_list_def sv_length_def split: option.split)
  show "sv_ok (sv_pop_back v) \<and> sv_list (sv_pop_back v) = butlast (sv_list v)" if "sv_list v \<noteq> []"
    using ok that by (auto simp: sv_ok_def sv_list_def sv_pop_back_def butlast_take split: option.split)
  show "sv_back v = last (sv_list v)" if "sv_list v \<noteq> []"
    using ok that by (auto simp: sv_ok_def sv_list_def sv_back_def last_conv_nth min_def split: option.split)
  show "sv_nth v i = sv_list v ! i" if "i < length (sv_list v)"
    using ok that by (auto simp: sv_ok_def sv_list_def sv_nth_def split: option.split)
qed

subsection \<open>Keys\<close>

definition segments :: "string \<Rightarrow> string list" where
  "segments p = map snd (split_path p)"

lemma split_from_texts: "map snd (split_from off p) = segments p"
proof -
  have "map snd (split_from off p) = map snd (split_from off' p)" for off'
  proof (induction off p arbitrary: off' rule: split_from.induct)
    case (1 off p)
    show ?case
    proof (cases "dropWhile slash p = []")
      case True
      then show ?thesis by (simp add: split_from.simps)
    next
      case False
      let ?r = "dropWhile slash p" and ?l = "length (takeWhile slash p)"
      let ?k = "length (takeWhile not_slash ?r)"
      have "map snd (split_from x p) = takeWhile not_slash ?r # map snd (split_from (x + ?l + ?k) (dropWhile not_slash ?r))" for x
        using False by (subst split_from.simps) (simp add: Let_def)
      then show ?thesis using 1[OF refl refl False, of "off' + ?l + ?k"] by simp
    qed
  qed
  then show ?thesis by (simp add: segments_def split_path_def)
qed

lemma segments_rec:
  "segments p = (let r = dropWhile slash p in if r = [] then []
    else takeWhile not_slash r # segments (dropWhile not_slash r))"
proof -
  have "segments p = map snd (split_from 0 p)" by (simp add: segments_def split_path_def)
  also have "... = (let r = dropWhile slash p in if r = [] then []
    else takeWhile not_slash r # segments (dropWhile not_slash r))"
    by (subst split_from.simps) (simp add: Let_def split_from_texts)
  finally show ?thesis .
qed

definition join_segments :: "string list \<Rightarrow> string" where
  "join_segments ss = concat (map (\<lambda>s. CHR ''/'' # s) ss)"

lemma key_loop_join:
  "length out \<le> cap \<Longrightarrow> key_loop cap out p =
    (if length (out @ join_segments (segments p)) \<le> cap then Some (out @ join_segments (segments p)) else None)"
proof (induction cap out p rule: key_loop.induct)
  case (1 cap out p)
  let ?r = "dropWhile slash p"
  show ?case
  proof (cases "?r = []")
    case True
    then show ?thesis using 1(2) by (subst key_loop.simps) (simp add: segments_rec[of p] join_segments_def)
  next
    case False
    let ?s = "takeWhile not_slash ?r"
    have e: "out @ join_segments (segments p) = (out @ CHR ''/'' # ?s) @ join_segments (segments (dropWhile not_slash ?r))"
      using False by (simp add: segments_rec[of p] join_segments_def Let_def)
    show ?thesis
    proof (cases "length out + 1 + length ?s > cap")
      case True
      then show ?thesis using False unfolding e by (subst key_loop.simps) (simp add: Let_def)
    next
      case f: False
      then show ?thesis using 1(1)[OF refl refl False f] False unfolding e by (subst key_loop.simps) (simp add: Let_def)
    qed
  qed
qed

lemma normalise_join: "normalise p = (if segments p = [] then ''/'' else join_segments (segments p))"
proof -
  have "concat (map (\<lambda>(_, s). CHR ''/'' # s) (split_path p)) = join_segments (segments p)"
    by (simp add: join_segments_def segments_def case_prod_unfold comp_def)
  moreover have "join_segments (segments p) = [] \<longleftrightarrow> segments p = []" by (cases "segments p") (simp_all add: join_segments_def)
  ultimately show ?thesis by (simp add: normalise_def Let_def)
qed

lemma normalise_key_into_eq:
  assumes "2 \<le> cap"
  shows "normalise_key_into m p cap =
    (if length (exact_key m (normalise p)) \<le> cap then Some (exact_key m (normalise p)) else None)"
proof (cases "segments p")
  case Nil
  then show ?thesis
    using assms key_loop_join[of "[slot_char m]" cap p]
    by (simp add: normalise_key_into_def exact_key_def normalise_join join_segments_def)
next
  case (Cons s ss)
  then have "join_segments (segments p) \<noteq> []" by (simp add: join_segments_def)
  then show ?thesis
    using assms Cons key_loop_join[of "[slot_char m]" cap p]
    by (auto simp: normalise_key_into_def exact_key_def normalise_join)
qed

lemma exact_find_key: "exact_find r m p = map_of (rt_exact r) (exact_key m (normalise p))"
  by (simp add: exact_find_def normalise_key_into_eq)

subsection \<open>The walk\<close>

text \<open>All ways to walk the trie along the segments, in the order of preference.\<close>

fun all_walks :: "string \<Rightarrow> (nat \<times> string) list \<Rightarrow> 'h node_t \<Rightarrow> string list \<Rightarrow> ('h node_t \<times> string list) list" where
  "all_walks p [] n caps = [(n, caps)]"
| "all_walks p (s # ss) n caps =
    (case map_of (lits n) (snd s) of None \<Rightarrow> [] | Some c \<Rightarrow> all_walks p ss c caps) @
    (case par n of None \<Rightarrow> [] | Some c \<Rightarrow> all_walks p ss c (capture (snd s) caps)) @
    (case wild n of None \<Rightarrow> [] | Some c \<Rightarrow> [(c, capture (drop (fst s) p) caps)])"

definition par_walks :: "string \<Rightarrow> (nat \<times> string) list \<Rightarrow> nat \<Rightarrow> 'h node_t \<Rightarrow> string list \<Rightarrow> ('h node_t \<times> string list) list" where
  "par_walks p segs i n caps = (case par n of None \<Rightarrow> []
     | Some c \<Rightarrow> all_walks p (drop (i + 1) segs) c (capture (snd (segs ! i)) caps))"

definition wild_walks :: "string \<Rightarrow> (nat \<times> string) list \<Rightarrow> nat \<Rightarrow> 'h node_t \<Rightarrow> string list \<Rightarrow> ('h node_t \<times> string list) list" where
  "wild_walks p segs i n caps = (case wild n of None \<Rightarrow> [] | Some c \<Rightarrow> [(c, capture (drop (fst (segs ! i)) p) caps)])"

text \<open>The walks a frame stands for, and those of a whole stack.\<close>

definition frame_walks :: "string \<Rightarrow> (nat \<times> string) list \<Rightarrow> string list \<Rightarrow> 'h match_frame_t \<Rightarrow> ('h node_t \<times> string list) list" where
  "frame_walks p segs caps f =
    (if f_alt f = AltParam then par_walks p segs (f_seg f) (f_node f) (take (f_params f) caps) else []) @
    wild_walks p segs (f_seg f) (f_node f) (take (f_params f) caps)"

definition stack_walks :: "string \<Rightarrow> (nat \<times> string) list \<Rightarrow> string list \<Rightarrow> 'h match_frame_t list \<Rightarrow> ('h node_t \<times> string list) list" where
  "stack_walks p segs caps st = concat (map (frame_walks p segs caps) st)"

definition stack_ok :: "(nat \<times> string) list \<Rightarrow> string list \<Rightarrow> 'h match_frame_t list \<Rightarrow> bool" where
  "stack_ok segs caps st \<longleftrightarrow> sorted (rev (map f_params st)) \<and>
    (\<forall>f \<in> set st. f_params f \<le> length caps \<and> f_seg f < length segs)"

lemma stack_walks_simps [simp]:
  "stack_walks p segs caps [] = []"
  "stack_walks p segs caps (f # st) = frame_walks p segs caps f @ stack_walks p segs caps st"
  by (simp_all add: stack_walks_def)

lemma stack_walks_cong:
  assumes "\<forall>f \<in> set st. take (f_params f) caps = take (f_params f) caps'"
  shows "stack_walks p segs caps st = stack_walks p segs caps' st"
proof -
  have "map (frame_walks p segs caps) st = map (frame_walks p segs caps') st"
    using assms by (simp add: frame_walks_def)
  then show ?thesis unfolding stack_walks_def by (rule arg_cong)
qed

lemma stack_capture:
  assumes "stack_ok segs caps st"
  shows "stack_walks p segs (capture s caps) st = stack_walks p segs caps st" "stack_ok segs (capture s caps) st"
proof -
  show "stack_walks p segs (capture s caps) st = stack_walks p segs caps st"
    using assms by (intro stack_walks_cong) (auto simp: stack_ok_def capture_def)
  show "stack_ok segs (capture s caps) st" using assms by (auto simp: stack_ok_def capture_def)
qed

lemma stack_ok_push:
  assumes "stack_ok segs caps st" "f_params f = length caps" "f_seg f < length segs"
  shows "stack_ok segs caps (f # st)"
  using assms by (auto simp: stack_ok_def sorted_append)

lemma stack_pop:
  assumes "stack_ok segs caps (f # st)"
  shows "stack_walks p segs (take (f_params f) caps) st = stack_walks p segs caps st"
    "stack_ok segs (take (f_params f) caps) st"
proof -
  have le: "\<forall>g \<in> set st. f_params g \<le> f_params f" "f_params f \<le> length caps"
    using assms by (auto simp: stack_ok_def sorted_append)
  show "stack_walks p segs (take (f_params f) caps) st = stack_walks p segs caps st"
    using le by (intro stack_walks_cong) (simp add: min_def)
  show "stack_ok segs (take (f_params f) caps) st"
    using assms le by (simp add: stack_ok_def sorted_append)
qed

lemma all_walks_here:
  assumes "i < length segs"
  shows "all_walks p (drop i segs) n caps =
    (case map_of (lits n) (snd (segs ! i)) of None \<Rightarrow> [] | Some c \<Rightarrow> all_walks p (drop (i + 1) segs) c caps) @
    par_walks p segs i n caps @ wild_walks p segs i n caps"
proof -
  have "drop i segs = segs ! i # drop (i + 1) segs" using assms Cons_nth_drop_Suc[of i segs] by simp
  then show ?thesis by (simp add: par_walks_def wild_walks_def cong: option.case_cong)
qed

text \<open>A descent keeps the list of the walks still to be tried, and when it succeeds its result is the
  first of them.\<close>

lemma try_descend_walks:
  assumes "try_descend p segs (n, i, caps, st) = (b, n', i', caps', st')" "i \<le> length segs" "stack_ok segs caps st"
  shows "all_walks p (drop i segs) n caps @ stack_walks p segs caps st =
      (if b then [(n', caps')] else []) @ stack_walks p segs caps' st' \<and> stack_ok segs caps' st'"
  using assms
proof (induction p segs "(n, i, caps, st)" arbitrary: n i caps st rule: try_descend.induct)
  case (1 p segs n i caps st)
  show ?case
  proof (cases "i < length segs")
    case False
    then show ?thesis using 1(4-6) by (auto simp: try_descend.simps)
  next
    case True
    let ?fr = "\<lambda>a. \<lparr>f_node = n, f_seg = i, f_params = length caps, f_alt = a\<rparr>"
    note here = all_walks_here[OF True, of p n caps]
    have fr: "frame_walks p segs caps (?fr AltParam) = par_walks p segs i n caps @ wild_walks p segs i n caps"
      "frame_walks p segs caps (?fr AltWildcard) = wild_walks p segs i n caps"
      by (simp_all add: frame_walks_def)
    have ok: "stack_ok segs caps (?fr a # st)" for a using 1(6) True by (intro stack_ok_push) auto
    show ?thesis
    proof (cases "map_of (lits n) (snd (segs ! i))")
      case (Some c)
      define s' where "s' = (if par n \<noteq> None then ?fr AltParam # st else if wild n \<noteq> None then ?fr AltWildcard # st else st)"
      have "stack_walks p segs caps s' = par_walks p segs i n caps @ wild_walks p segs i n caps @ stack_walks p segs caps st"
        using fr by (auto simp: s'_def par_walks_def wild_walks_def)
      moreover have "try_descend p segs (c, i + 1, caps, s') = (b, n', i', caps', st')"
        using 1(4) True Some by (subst (asm) try_descend.simps) (simp add: s'_def)
      moreover have "stack_ok segs caps s'" using ok 1(6) by (simp add: s'_def)
      ultimately show ?thesis using 1(3)[OF True refl Some s'_def] here Some True by simp
    next
      case lit: None
      show ?thesis
      proof (cases "par n")
        case (Some c)
        define s' where "s' = (if wild n \<noteq> None then ?fr AltWildcard # st else st)"
        have "stack_walks p segs caps s' = wild_walks p segs i n caps @ stack_walks p segs caps st"
          using fr by (auto simp: s'_def wild_walks_def)
        moreover have "try_descend p segs (c, i + 1, capture (snd (segs ! i)) caps, s') = (b, n', i', caps', st')"
          using 1(4) True Some lit by (subst (asm) try_descend.simps) (simp add: s'_def)
        moreover have "stack_ok segs caps s'" using ok 1(6) by (simp add: s'_def)
        ultimately show ?thesis
          using 1(2)[OF True refl lit Some s'_def] here Some True lit stack_capture[of segs caps s']
          by (simp add: par_walks_def)
      next
        case None
        show ?thesis
        proof (cases "wild n")
          case w: None
          then show ?thesis
            using 1(4,6) True lit None here by (subst (asm) try_descend.simps) (auto simp: par_walks_def wild_walks_def)
        next
          case (Some c)
          then have "try_descend p segs (c, length segs, capture (drop (fst (segs ! i)) p) caps, st) = (b, n', i', caps', st')"
            using 1(4) True None lit by (subst (asm) try_descend.simps) simp
          then show ?thesis
            using 1(1)[OF True refl lit None Some] 1(6) here None lit Some stack_capture[OF 1(6)]
            by (simp add: par_walks_def wild_walks_def)
        qed
      qed
    qed
  qed
qed

lemma resume_frame_walks:
  assumes "resume_frame p segs caps f st = Some (n, i, caps', st')" "stack_ok segs caps (f # st)"
  shows "all_walks p (drop i segs) n caps' @ stack_walks p segs caps' st' = stack_walks p segs caps (f # st) \<and>
    i \<le> length segs \<and> stack_ok segs caps' st'"
proof -
  let ?c = "take (f_params f) caps"
  note pop = stack_pop[OF assms(2)]
  have seg: "f_seg f < length segs" and fp: "min (length caps) (f_params f) = f_params f"
    using assms(2) by (simp_all add: stack_ok_def min_def)
  show ?thesis
  proof (cases "f_alt f = AltParam \<and> par (f_node f) \<noteq> None")
    case True
    then obtain c where c: "par (f_node f) = Some c" by auto
    let ?w = "\<lparr>f_node = f_node f, f_seg = f_seg f, f_params = length ?c, f_alt = AltWildcard\<rparr>"
    define s' where "s' = (if wild (f_node f) \<noteq> None then ?w # st else st)"
    have r: "n = c" "i = f_seg f + 1" "caps' = capture (snd (segs ! f_seg f)) ?c" "st' = s'"
      using assms(1) True c by (auto simp: resume_frame_def Let_def s'_def)
    have w: "stack_walks p segs ?c s' = wild_walks p segs (f_seg f) (f_node f) ?c @ stack_walks p segs caps st"
      using pop(1) fp by (auto simp: s'_def frame_walks_def wild_walks_def)
    have k: "stack_ok segs ?c s'" using pop(2) stack_ok_push[OF pop(2), of ?w] seg by (simp add: s'_def)
    show ?thesis
      using stack_capture[OF k] w True c seg by (simp add: r frame_walks_def par_walks_def)
  next
    case False
    then obtain c where c: "wild (f_node f) = Some c" using assms(1) by (auto simp: resume_frame_def Let_def split: if_splits)
    have r: "n = c" "i = length segs" "caps' = capture (drop (fst (segs ! f_seg f)) p) ?c" "st' = st"
      using assms(1) False c by (auto simp: resume_frame_def Let_def)
    show ?thesis
      using stack_capture[OF pop(2)] pop(1) False c by (auto simp: r frame_walks_def par_walks_def wild_walks_def)
  qed
qed

lemma resume_frame_None:
  "resume_frame p segs caps f st = None \<Longrightarrow> frame_walks p segs caps f = []"
  by (auto simp: resume_frame_def Let_def frame_walks_def par_walks_def wild_walks_def split: if_splits option.splits)

lemma match_loop_walks:
  assumes "match_loop p segs (b, n, i, caps, st) = (b', n', i', caps', st')" "stack_ok segs caps st"
  shows "if b then b' \<and> n' = n \<and> caps' = caps
    else (if b' then \<exists>ws. stack_walks p segs caps st = (n', caps') # ws else stack_walks p segs caps st = [])"
  using assms
proof (induction p segs "(b, n, i, caps, st)" arbitrary: b n i caps st rule: match_loop.induct)
  case (1 p segs b n i caps st)
  show ?case
  proof (cases b)
    case True
    then show ?thesis using 1(3) by (simp add: match_loop.simps)
  next
    case nb: False
    show ?thesis
    proof (cases st)
      case Nil
      then show ?thesis using 1(3) nb by (simp add: match_loop.simps)
    next
      case (Cons f st0)
      show ?thesis
      proof (cases "resume_frame p segs caps f st0")
        case None
        then have "match_loop p segs (False, f_node f, f_seg f, take (f_params f) caps, st0) = (b', n', i', caps', st')"
          using 1(3) nb Cons by (subst (asm) match_loop.simps) simp
        then show ?thesis
          using 1(1)[OF nb Cons None] 1(4) nb Cons stack_pop(1)[of segs caps f st0 p] stack_pop(2)[of segs caps f st0] resume_frame_None[OF None] by (cases b') simp_all
      next
        case (Some w)
        obtain n1 i1 c1 s1 where w: "w = (n1, i1, c1, s1)" by (cases w)
        obtain b2 n2 i2 c2 s2 where d: "try_descend p segs w = (b2, n2, i2, c2, s2)" by (metis prod.collapse)
        have l: "match_loop p segs (b2, n2, i2, c2, s2) = (b', n', i', caps', st')"
          using 1(3) nb Cons Some d by (subst (asm) match_loop.simps) simp
        note r = resume_frame_walks[OF Some[unfolded w] 1(4)[unfolded Cons]]
        note t = try_descend_walks[OF d[unfolded w]] r
        show ?thesis
          using 1(2)[OF nb Cons Some d l] t nb Cons by (cases b2) auto
      qed
    qed
  qed
qed

lemma walk_first:
  assumes "match_loop p segs (try_descend p segs (root, 0, [], [])) = (b, n, i, caps, st)"
  shows "if b then \<exists>ws. all_walks p segs root [] = (n, caps) # ws else all_walks p segs root [] = []"
proof -
  obtain b1 n1 i1 c1 s1 where d: "try_descend p segs (root, 0, [], []) = (b1, n1, i1, c1, s1)" by (metis prod.collapse)
  have t: "all_walks p segs root [] = (if b1 then [(n1, c1)] else []) @ stack_walks p segs c1 s1 \<and> stack_ok segs c1 s1"
    using try_descend_walks[OF d] by (simp add: stack_ok_def)
  show ?thesis
    using match_loop_walks[of p segs b1 n1 i1 c1 s1] assms d t by (cases b1) auto
qed

text \<open>(C22) The backtracking walk over the trie always ends, and the router's answer for a path that is
  not in the exact table is decided by the first walk in the order literal before parameter before
  wildcard: no walk gives no route, a first walk to a node without a route for the method gives
  no route and tells whether other methods have one, and otherwise the route of that node is
  returned with the values captured on the walk.\<close>

theorem router_match_first_walk:
  assumes "exact_find r m p = None"
  shows "router_match r m p = (case all_walks p (split_path p) (rt_root r) [] of
      [] \<Rightarrow> (\<lparr>mt_route = None, mt_method_mismatch = False\<rparr>, [])
    | (n, caps) # _ \<Rightarrow>
        (case node_routes n ! method_slot m of
           None \<Rightarrow> (\<lparr>mt_route = None, mt_method_mismatch = has_any_route n\<rparr>, [])
         | Some route \<Rightarrow> (\<lparr>mt_route = Some route, mt_method_mismatch = False\<rparr>, collect_params route caps)))"
proof -
  obtain b n i caps st where
    l: "match_loop p (split_path p) (try_descend p (split_path p) (rt_root r, 0, [], [])) = (b, n, i, caps, st)"
    by (metis prod.collapse)
  show ?thesis
    using walk_first[OF l] assms l by (cases b) (auto simp: router_match_def)
qed

definition plain_route :: "nat \<Rightarrow> nat route_t" where
  "plain_route h = \<lparr>r_kind = KSync, r_body = Auto, r_fn = Some h, r_param_names = []\<rparr>"

fun router_adds :: "(method_t \<times> string \<times> 'h route_t) list \<Rightarrow> 'h router_t \<Rightarrow> 'h router_t option" where
  "router_adds [] r = Some r"
| "router_adds ((m, p, x) # xs) r = (case router_add m p x r of None \<Rightarrow> None | Some r' \<Rightarrow> router_adds xs r')"

definition demo_router :: "nat router_t" where
  "demo_router = the (router_adds [(Get, ''/a/b/:c'', plain_route 1), (Get, ''/a/*rest'', plain_route 2)] router_init)"

theorem router_match_first_walk_witness:
  "router_match demo_router Get ''/a/x/y'' =
    (\<lparr>mt_route = Some (plain_route 2 \<lparr>r_param_names := [''rest'']\<rparr>), mt_method_mismatch = False\<rparr>, [(''rest'', ''x/y'')])"
proof -
  have "exact_find demo_router Get ''/a/x/y'' = None" by code_simp
  moreover have "(case all_walks ''/a/x/y'' (split_path ''/a/x/y'') (rt_root demo_router) [] of
      [] \<Rightarrow> (\<lparr>mt_route = None, mt_method_mismatch = False\<rparr>, [])
    | (n, caps) # _ \<Rightarrow>
        (case node_routes n ! method_slot Get of
           None \<Rightarrow> (\<lparr>mt_route = None, mt_method_mismatch = has_any_route n\<rparr>, [])
         | Some route \<Rightarrow> (\<lparr>mt_route = Some route, mt_method_mismatch = False\<rparr>, collect_params route caps))) =
    (\<lparr>mt_route = Some (plain_route 2 \<lparr>r_param_names := [''rest'']\<rparr>), mt_method_mismatch = False\<rparr>, [(''rest'', ''x/y'')])"
    by code_simp
  ultimately show ?thesis using router_match_first_walk[of demo_router Get "''/a/x/y''"] by simp
qed


text \<open>A path with a static route asked for with another method gives no method mismatch.\<close>

lemma exact_no_mismatch:
  "router_match (the (router_adds [(Get, ''/x'', plain_route 1)] router_init)) Post ''/x'' =
    (\<lparr>mt_route = None, mt_method_mismatch = False\<rparr>, [])"
  by code_simp

subsection \<open>Registered routes\<close>

lemma router_add_exact_keeps:
  assumes "router_add m p x r = Some r'" "map_of (rt_exact r) k = Some y"
  shows "map_of (rt_exact r') k = Some y"
  using assms by (auto simp: router_add_def Let_def split: if_splits option.splits)

lemma router_adds_exact_keeps:
  "router_adds xs r = Some r' \<Longrightarrow> map_of (rt_exact r) k = Some y \<Longrightarrow> map_of (rt_exact r') k = Some y"
  by (induction xs r rule: router_adds.induct) (auto split: option.splits dest: router_add_exact_keeps)

text \<open>A static route stays reachable: whatever routes are registered before and after it, a request
  with its method and a path with the same non-empty segments is answered with that route.\<close>

theorem static_route_reachable:
  assumes "router_adds (xs @ (m, p, x) # ys) router_init = Some r"
    "\<not> list_ex dynamic_segment (segments p)" "segments q = segments p"
  shows "router_match r m q = (\<lparr>mt_route = Some x, mt_method_mismatch = False\<rparr>, [])"
proof -
  have app: "router_adds (as @ bs) r0 = (case router_adds as r0 of None \<Rightarrow> None | Some r1 \<Rightarrow> router_adds bs r1)"
    for as bs and r0 :: "'a router_t"
    by (induction as r0 rule: router_adds.induct) (auto split: option.splits)
  obtain r1 r2 where r: "router_add m p x r1 = Some r2" "router_adds ys r2 = Some r"
    using assms(1) by (auto simp: app split: option.splits)
  have "map_of (rt_exact r2) (exact_key m (normalise p)) = Some x"
    using r(1) assms(2) by (auto simp: router_add_def Let_def segments_def split: option.splits)
  then have "map_of (rt_exact r) (exact_key m (normalise p)) = Some x" by (rule router_adds_exact_keeps[OF r(2)])
  moreover have "normalise q = normalise p" by (simp add: normalise_join assms(3))
  ultimately have "exact_find r m q = Some x" by (simp add: exact_find_key)
  then show ?thesis by (simp add: router_match_def)
qed

theorem static_route_reachable_witness:
  "\<exists>r. router_adds ([] @ (Get, ''/x/y'', plain_route 1) # [(Get, ''/x/:z'', plain_route 2)]) router_init = Some r \<and>
    router_match r Get ''//x/y/'' = (\<lparr>mt_route = Some (plain_route 1), mt_method_mismatch = False\<rparr>, [])"
proof -
  have "router_adds ([] @ (Get, ''/x/y'', plain_route 1) # [(Get, ''/x/:z'', plain_route 2)]) router_init \<noteq> None"
    by code_simp
  then obtain r where r: "router_adds ([] @ (Get, ''/x/y'', plain_route 1) # [(Get, ''/x/:z'', plain_route 2)]) router_init = Some r"
    by auto
  have "\<not> list_ex dynamic_segment (segments ''/x/y'')" "segments ''//x/y/'' = segments ''/x/y''" by code_simp+
  from static_route_reachable[OF r this] r show ?thesis by blast
qed

end
