(* ===== verification/Ws_Frame.thy ===== *)
theory Ws_Frame
  imports Errors
begin

text \<open>
  WebSocket vocabulary and frame headers
  (\<^verbatim>\<open>include/cornet/websocket/common/protocol.h\<close>,
  \<^verbatim>\<open>include/cornet/websocket/common/frame.h\<close>,
  \<^verbatim>\<open>src/websocket/common/frame.cc\<close>): the incremental header decoder, the
  header writer and the word-wise masking of payloads.

  The lemmas show that decoding inverts encoding on every legal header whatever
  follows it, that the decoder accepts nothing but canonical encodings and never
  decides early, and that masking is the byte-wise XOR of RFC 6455, so that it is an
  involution and may be applied run by run.
\<close>

subsection \<open>Enumerations\<close>

datatype opcode_t = Continue | Text | Binary | Close | Ping | Pong

datatype role_t = Client | Server

fun opcode_value :: "opcode_t \<Rightarrow> uint8" where
  "opcode_value Continue = 0x0"
| "opcode_value Text = 0x1"
| "opcode_value Binary = 0x2"
| "opcode_value Close = 0x8"
| "opcode_value Ping = 0x9"
| "opcode_value Pong = 0xA"

text \<open>The cast \<^verbatim>\<open>opcode_t(v)\<close> with the switch over the legal values.\<close>

definition opcode_of :: "uint8 \<Rightarrow> opcode_t option" where
  "opcode_of v = (
     if v = 0x0 then Some Continue else if v = 0x1 then Some Text
     else if v = 0x2 then Some Binary else if v = 0x8 then Some Close
     else if v = 0x9 then Some Ping else if v = 0xA then Some Pong else None)"

definition opcode_is_control :: "opcode_t \<Rightarrow> bool" where
  "opcode_is_control op \<longleftrightarrow> opcode_value op \<ge> 0x8"

definition opcode_is_data :: "opcode_t \<Rightarrow> bool" where
  "opcode_is_data op \<longleftrightarrow> op = Text \<or> op = Binary"

type_synonym close_code_t = uint16

abbreviation "close_Normal \<equiv> (1000 :: close_code_t)"
abbreviation "close_GoingAway \<equiv> (1001 :: close_code_t)"
abbreviation "close_ProtocolError \<equiv> (1002 :: close_code_t)"
abbreviation "close_NoStatus \<equiv> (1005 :: close_code_t)"
abbreviation "close_Abnormal \<equiv> (1006 :: close_code_t)"
abbreviation "close_MessageTooBig \<equiv> (1009 :: close_code_t)"

definition close_code_valid :: "uint16 \<Rightarrow> bool" where
  "close_code_valid c = (
     if c < 1000 then False
     else if c \<ge> 5000 then False
     else c \<noteq> 1004 \<and> c \<noteq> 1005 \<and> c \<noteq> 1006 \<and> c \<noteq> 1015)"

datatype websocket_error_t =
    ReservedBits | InvalidOpcode | UnmaskedFrame | MaskedFrame | FragmentedControl
  | ControlTooLarge | NonCanonicalLength | MessageTooLarge | ContinuationExpected
  | ContinuationUnexpected | InvalidCloseCode | HandshakeFailed | Closed

fun websocket_error_value :: "websocket_error_t \<Rightarrow> int" where
  "websocket_error_value ReservedBits = 1"
| "websocket_error_value InvalidOpcode = 2"
| "websocket_error_value UnmaskedFrame = 3"
| "websocket_error_value MaskedFrame = 4"
| "websocket_error_value FragmentedControl = 5"
| "websocket_error_value ControlTooLarge = 6"
| "websocket_error_value NonCanonicalLength = 7"
| "websocket_error_value MessageTooLarge = 8"
| "websocket_error_value ContinuationExpected = 9"
| "websocket_error_value ContinuationUnexpected = 10"
| "websocket_error_value InvalidCloseCode = 11"
| "websocket_error_value HandshakeFailed = 12"
| "websocket_error_value Closed = 13"

definition websocket_error :: "websocket_error_t \<Rightarrow> error_t" where
  "websocket_error e = error_code (websocket_error_value e) Websocket"

definition websocket_unexpected :: "websocket_error_t \<Rightarrow> 'a expected" where
  "websocket_unexpected e = unexpected (websocket_error_value e) Websocket"

fun opcode_name :: "opcode_t \<Rightarrow> string" where
  "opcode_name Continue = ''continue''"
| "opcode_name Text = ''text''"
| "opcode_name Binary = ''binary''"
| "opcode_name Close = ''close''"
| "opcode_name Ping = ''ping''"
| "opcode_name Pong = ''pong''"

subsection \<open>Frame headers\<close>

definition kMaxFrameHeaderLen :: nat where "kMaxFrameHeaderLen = 14"
definition kMaxControlPayload :: uint64 where "kMaxControlPayload = 125"

record frame_t =
  fin :: bool
  opcode :: opcode_t
  payload_len :: uint64
  masked :: bool
  mask_key :: uint32
  header_len :: nat

definition frame_init :: frame_t where
  "frame_init = \<lparr>fin = False, opcode = Continue, payload_len = 0, masked = False, mask_key = 0, header_len = 0\<rparr>"

record frame_decoder_t =
  dec_role :: role_t
  dec_err :: error_t

datatype result_t = NeedMore | Frame | Error

definition frame_decoder :: "role_t \<Rightarrow> frame_decoder_t" where
  "frame_decoder r = \<lparr>dec_role = r, dec_err = error_code 0 DomNone\<rparr>"

text \<open>
  Four bytes copied into and out of a 32-bit word of a little-endian host, and the
  loop that reads eight bytes in network order.
\<close>

definition le32 :: "bytes \<Rightarrow> uint32" where
  "le32 bs = ucast (bs ! 0) OR push_bit 8 (ucast (bs ! 1)) OR
             push_bit 16 (ucast (bs ! 2)) OR push_bit 24 (ucast (bs ! 3))"

definition bytes32 :: "uint32 \<Rightarrow> bytes" where
  "bytes32 w = map (\<lambda>i. ucast (drop_bit (8 * i) w)) [0..<4]"

definition be64 :: "bytes \<Rightarrow> uint64" where
  "be64 bs = fold (\<lambda>b v. push_bit 8 v OR ucast b) bs 0"

text \<open>
  The stages of \<^verbatim>\<open>frame_decoder_t::parse\<close>.  A stage is done with a value, needs more
  bytes (\<^verbatim>\<open>return result_t::NeedMore\<close>), or fails, which is the lambda
  \<^verbatim>\<open>fail\<close> of the source.
\<close>

datatype 'a partial = Done 'a | Short | Fail websocket_error_t

primrec continue_with :: "'a partial \<Rightarrow> ('a \<Rightarrow> 'b partial) \<Rightarrow> 'b partial" where
  "continue_with (Done a) k = k a"
| "continue_with Short k = Short"
| "continue_with (Fail e) k = Fail e"

text \<open>The two base bytes: reserved bits, opcode, masking policy and control frame shape.\<close>

definition base_bytes :: "role_t \<Rightarrow> uint8 \<Rightarrow> uint8 \<Rightarrow> (bool \<times> opcode_t \<times> bool \<times> uint64) partial" where
  "base_bytes role b0 b1 = (
     if b0 AND 0x70 \<noteq> 0 then Fail ReservedBits
     else case opcode_of (b0 AND 0x0F) of
       None \<Rightarrow> Fail InvalidOpcode
     | Some op \<Rightarrow>
       let f = (b0 AND 0x80 \<noteq> 0); m = (b1 AND 0x80 \<noteq> 0); len = ucast (b1 AND 0x7F) in
       if role = Server \<and> \<not> m then Fail UnmaskedFrame
       else if role = Client \<and> m then Fail MaskedFrame
       else if opcode_is_control op \<and> \<not> f then Fail FragmentedControl
       else if opcode_is_control op \<and> len > kMaxControlPayload then Fail ControlTooLarge
       else Done (f, op, m, len))"

text \<open>The extended length: 2 or 8 further bytes; the result is the length and the offset after it.\<close>

definition extended_len :: "bytes \<Rightarrow> uint64 \<Rightarrow> (uint64 \<times> nat) partial" where
  "extended_len window len = (
     if len = 126 then
       (if length window < 4 then Short
        else let l = push_bit 8 (ucast (window ! 2)) OR ucast (window ! 3) in
             if l \<le> kMaxControlPayload then Fail NonCanonicalLength else Done (l, 4))
     else if len = 127 then
       (if length window < 10 then Short
        else let v = be64 (take 8 (drop 2 window)) in
             if v > 0x7FFFFFFFFFFFFFFF then Fail NonCanonicalLength
             else if v \<le> 0xFFFF then Fail NonCanonicalLength else Done (v, 10))
     else Done (len, 2))"

text \<open>The masking key, if there is one; the result is the key and the offset after it.\<close>

definition read_mask :: "bytes \<Rightarrow> bool \<Rightarrow> nat \<Rightarrow> (uint32 \<times> nat) partial" where
  "read_mask window m off = (
     if m then (if length window < off + 4 then Short
                else Done (le32 (take 4 (drop off window)), off + 4))
     else Done (0, off))"

definition parse_header :: "role_t \<Rightarrow> bytes \<Rightarrow> frame_t partial" where
  "parse_header role window = (
     if length window < 2 then Short
     else continue_with (base_bytes role (window ! 0) (window ! 1)) (\<lambda>(f, op, m, len).
          continue_with (extended_len window len) (\<lambda>(l, off).
          continue_with (read_mask window m off) (\<lambda>(key, off).
            Done \<lparr>fin = f, opcode = op, payload_len = l, masked = m,
                  mask_key = key, header_len = off\<rparr>))))"

definition parse :: "frame_decoder_t \<Rightarrow> bytes \<Rightarrow> frame_t \<Rightarrow> result_t \<times> frame_decoder_t \<times> frame_t" where
  "parse dec window out = (
     if error_truthy (dec_err dec) then (Error, dec, out)
     else case parse_header (dec_role dec) window of
       Short \<Rightarrow> (NeedMore, dec, out)
     | Fail e \<Rightarrow> (Error, dec\<lparr>dec_err := websocket_error e\<rparr>, out)
     | Done f \<Rightarrow> (Frame, dec, f))"

text \<open>\<^verbatim>\<open>write_frame_header\<close>: the bytes written; their number is the returned length.\<close>

definition write_frame_header :: "bool \<Rightarrow> opcode_t \<Rightarrow> uint64 \<Rightarrow> uint32 \<Rightarrow> bytes" where
  "write_frame_header f op len key = (
     let b0 = (if f then 0x80 else 0x00) OR opcode_value op;
         mask_bit = (if key \<noteq> 0 then 0x80 else 0x00 :: uint8) in
     (if len \<le> kMaxControlPayload then [b0, mask_bit OR ucast len]
      else if len \<le> 0xFFFF then
        [b0, mask_bit OR 126, ucast (drop_bit 8 len), ucast len]
      else
        [b0, mask_bit OR 127] @ map (\<lambda>i. ucast (drop_bit (56 - 8 * i) len)) [0..<8]) @
     (if key \<noteq> 0 then bytes32 key else []))"

subsection \<open>Masking\<close>

text \<open>The three loops of \<^verbatim>\<open>apply_mask\<close>, over the buffer and the index \<open>i\<close>.\<close>

function mask_head :: "uint32 \<Rightarrow> uint64 \<Rightarrow> bytes \<Rightarrow> nat \<Rightarrow> bytes \<times> nat" where
  "mask_head key offset data i =
    (if i < length data \<and> (offset + of_nat i) AND 3 \<noteq> 0
     then mask_head key offset
       (data[i := data ! i XOR ucast (drop_bit (unat ((offset + of_nat i) AND 3) * 8) key)]) (i + 1)
     else (data, i))"
  by pat_completeness auto
termination by (relation "measure (\<lambda>(key, offset, data, i). length data - i)") auto

function mask_body :: "uint32 \<Rightarrow> bytes \<Rightarrow> nat \<Rightarrow> bytes \<times> nat" where
  "mask_body key data i =
    (if i + 4 \<le> length data
     then mask_body key
       (take i data @ bytes32 (le32 (take 4 (drop i data)) XOR key) @ drop (i + 4) data) (i + 4)
     else (data, i))"
  by pat_completeness auto
termination by (relation "measure (\<lambda>(key, data, i). length data - i)") (auto simp: bytes32_def)

function mask_tail :: "uint32 \<Rightarrow> bytes \<Rightarrow> nat \<Rightarrow> nat \<Rightarrow> bytes" where
  "mask_tail key data i t =
    (if i < length data
     then mask_tail key (data[i := data ! i XOR ucast (drop_bit (t * 8) key)]) (i + 1) (t + 1)
     else data)"
  by pat_completeness auto
termination by (relation "measure (\<lambda>(key, data, i, t). length data - i)") auto

definition apply_mask :: "uint32 \<Rightarrow> bytes \<Rightarrow> uint64 \<Rightarrow> bytes" where
  "apply_mask key data offset =
    (let (d, i) = mask_head key offset data 0; (d, i) = mask_body key d i in mask_tail key d i 0)"

text \<open>The reference: byte \<open>n\<close> of the payload is combined with byte \<open>n mod 4\<close> of the key.\<close>

definition key_byte :: "uint32 \<Rightarrow> nat \<Rightarrow> uint8" where
  "key_byte key n = ucast (drop_bit (8 * (n mod 4)) key)"

primrec mask_spec :: "uint32 \<Rightarrow> nat \<Rightarrow> bytes \<Rightarrow> bytes" where
  "mask_spec key n [] = []"
| "mask_spec key n (b # bs) = (b XOR key_byte key n) # mask_spec key (Suc n) bs"

declare mask_head.simps [simp del] mask_body.simps [simp del] mask_tail.simps [simp del]

subsection \<open>Masking is byte-wise XOR with the cycled key\<close>

lemma unat_and_3: "unat ((offset + of_nat i :: uint64) AND 3) = (unat offset + i) mod 4"
proof -
  have "w AND 3 = take_bit 2 w" for w :: uint64
    by (simp add: take_bit_eq_mask mask_eq_exp_minus_1)
  then have and3: "unat (w AND 3) = unat w mod 4" for w :: uint64
    by (simp only: unsigned_take_bit_eq) (simp add: take_bit_eq_mod)
  have m: "n mod 2 ^ 64 mod 4 = n mod 4" for n :: nat
    by (rule mod_mod_cancel) (simp add: dvd_def)
  have "unat (of_nat i :: uint64) = i mod 2 ^ 64"
    by (simp add: unsigned_of_nat take_bit_eq_mod)
  moreover have "unat (offset + of_nat i :: uint64) = (unat offset + unat (of_nat i :: uint64)) mod 2 ^ 64"
    by (simp add: unat_word_ariths)
  ultimately show ?thesis
    by (simp only: and3 m) (metis m mod_add_right_eq)
qed

lemma and_3_zero: "(offset + of_nat i :: uint64) AND 3 = 0 \<longleftrightarrow> (unat offset + i) mod 4 = 0"
  by (metis unat_and_3 unat_eq_zero)

lemma mask_spec_append:
  "mask_spec key n (xs @ ys) = mask_spec key n xs @ mask_spec key (n + length xs) ys"
  by (induction xs arbitrary: n) simp_all

lemma mask_spec_length [simp]: "length (mask_spec key n xs) = length xs"
  by (induction xs arbitrary: n) simp_all

lemma key_byte_mod: "m mod 4 = n mod 4 \<Longrightarrow> key_byte key m = key_byte key n"
  by (simp add: key_byte_def)

lemma mask_spec_mod: "m mod 4 = n mod 4 \<Longrightarrow> mask_spec key m xs = mask_spec key n xs"
proof (induction xs arbitrary: m n)
  case (Cons b xs)
  then have "Suc m mod 4 = Suc n mod 4" by (metis mod_Suc)
  from Cons.IH[OF this] key_byte_mod[OF Cons.prems] show ?case by simp
qed simp

lemma mask_tail_spec:
  "t + length xs \<le> 4 \<Longrightarrow> mask_tail key (pre @ xs) (length pre) t = pre @ mask_spec key t xs"
proof (induction xs arbitrary: pre t)
  case Nil
  then show ?case by (simp add: mask_tail.simps)
next
  case (Cons b xs)
  have "mask_tail key (pre @ b # xs) (length pre) t
      = mask_tail key ((pre @ [b XOR ucast (drop_bit (t * 8) key)]) @ xs)
          (length (pre @ [b XOR ucast (drop_bit (t * 8) key)])) (Suc t)"
    by (subst mask_tail.simps) simp
  also have "\<dots> = (pre @ [b XOR ucast (drop_bit (t * 8) key)]) @ mask_spec key (Suc t) xs"
    using Cons.prems by (intro Cons.IH) simp
  also have "ucast (drop_bit (t * 8) key) = key_byte key t"
    using Cons.prems by (simp add: key_byte_def mult.commute)
  finally show ?case by simp
qed

lemma mask_head_spec:
  "\<exists>k \<le> length xs. mask_head key offset (pre @ xs) (length pre) =
      (pre @ mask_spec key (unat offset + length pre) (take k xs) @ drop k xs, length pre + k) \<and>
    (k = length xs \<or> (unat offset + length pre + k) mod 4 = 0)"
proof (induction xs arbitrary: pre)
  case Nil
  then show ?case by (simp add: mask_head.simps)
next
  case (Cons b xs)
  let ?n = "unat offset + length pre"
  show ?case
  proof (cases "?n mod 4 = 0")
    case True
    then show ?thesis
      by (intro exI[of _ 0]) (simp add: mask_head.simps and_3_zero)
  next
    case False
    let ?b = "b XOR key_byte key ?n"
    have step: "mask_head key offset (pre @ b # xs) (length pre)
        = mask_head key offset ((pre @ [?b]) @ xs) (length (pre @ [?b]))"
      using False
      by (subst mask_head.simps) (simp add: and_3_zero unat_and_3 key_byte_def mult.commute)
    obtain k where k: "k \<le> length xs \<and>
        mask_head key offset ((pre @ [?b]) @ xs) (length (pre @ [?b])) =
        ((pre @ [?b]) @ mask_spec key (unat offset + length (pre @ [?b])) (take k xs) @ drop k xs,
         length (pre @ [?b]) + k) \<and>
      (k = length xs \<or> (unat offset + length (pre @ [?b]) + k) mod 4 = 0)"
      using Cons.IH[of "pre @ [?b]"] by (rule exE)
    then show ?thesis
      by (intro exI[of _ "Suc k"]) (auto simp: step)
  qed
qed

lemma le32_byte:
  assumes "length bs = 4" "k < 4"
  shows "ucast (drop_bit (8 * k) (le32 bs)) = bs ! k"
proof (rule bit_word_eqI)
  fix n assume "n < LENGTH(8)"
  then have n: "n < 8" by simp
  have "k = 0 \<or> k = 1 \<or> k = 2 \<or> k = 3" using assms(2) by auto
  then show "bit (ucast (drop_bit (8 * k) (le32 bs)) :: uint8) n = bit (bs ! k) n"
    using n by (elim disjE)
      (auto simp: le32_def bit_ucast_iff bit_drop_bit_eq bit_or_iff bit_push_bit_iff
        dest: bit_imp_le_length)
qed

lemma le32_bytes32 [simp]: "le32 (bytes32 w) = w"
proof (rule bit_word_eqI)
  fix n assume "n < LENGTH(32)"
  then have "n < 8 \<or> (8 \<le> n \<and> n < 16) \<or> (16 \<le> n \<and> n < 24) \<or> (24 \<le> n \<and> n < 32)" by auto
  then show "bit (le32 (bytes32 w)) n = bit w n"
    by (elim disjE)
       (auto simp: le32_def bytes32_def bit_ucast_iff bit_drop_bit_eq bit_or_iff bit_push_bit_iff)
qed

lemma bytes32_length [simp]: "length (bytes32 w) = 4"
  by (simp add: bytes32_def)

lemma bytes32_xor:
  "bytes32 (le32 [a, b, c, d] XOR key) = mask_spec key 0 [a, b, c, d]"
proof -
  have "ucast (drop_bit (8 * k) (le32 [a, b, c, d] XOR key)) = [a, b, c, d] ! k XOR key_byte key k"
    if "k < 4" for k
    using that le32_byte[of "[a, b, c, d]" k]
    by (simp add: drop_bit_xor unsigned_xor_eq key_byte_def)
  from this[of 0] this[of 1] this[of 2] this[of 3] show ?thesis
    by (simp add: bytes32_def upt_rec eval_nat_numeral)
qed

lemma mask_body_spec:
  "\<exists>k \<le> length xs. k mod 4 = 0 \<and> length xs - k < 4 \<and> mask_body key (pre @ xs) (length pre) =
      (pre @ mask_spec key 0 (take k xs) @ drop k xs, length pre + k)"
proof (induction "length xs" arbitrary: pre xs rule: less_induct)
  case less
  show ?case
  proof (cases "length xs < 4")
    case True
    then show ?thesis by (intro exI[of _ 0]) (simp add: mask_body.simps)
  next
    case False
    then obtain a b c d ys where xs: "xs = [a, b, c, d] @ ys"
      by (auto simp: neq_Nil_conv numeral_eq_Suc not_less Suc_le_length_iff)
    let ?w = "mask_spec key 0 [a, b, c, d]"
    have w: "length ?w = 4" by simp
    have step: "mask_body key (pre @ xs) (length pre) = mask_body key ((pre @ ?w) @ ys) (length (pre @ ?w))"
      by (subst mask_body.simps) (simp add: xs bytes32_xor w del: mask_spec.simps mask_spec_length)
    obtain k where k: "k \<le> length ys" "k mod 4 = 0" "length ys - k < 4"
      "mask_body key ((pre @ ?w) @ ys) (length (pre @ ?w)) =
        ((pre @ ?w) @ mask_spec key 0 (take k ys) @ drop k ys, length (pre @ ?w) + k)"
      using less[of ys "pre @ ?w"] xs by auto
    let ?k = "Suc (Suc (Suc (Suc k)))"
    have t: "take ?k xs = [a, b, c, d] @ take k ys" "drop ?k xs = drop k ys"
      by (simp_all add: xs)
    have "mask_spec key 0 (take ?k xs) = ?w @ mask_spec key 0 (take k ys)"
    proof -
      have "mask_spec key (0 + length [a, b, c, d]) (take k ys) = mask_spec key 0 (take k ys)"
        by (rule mask_spec_mod) simp
      then show ?thesis by (simp only: t mask_spec_append)
    qed
    moreover have "?k mod 4 = 0" using k(2) by presburger
    ultimately show ?thesis
      using k step t by (intro exI[of _ ?k]) (simp add: xs)
  qed
qed

lemma mask_spec_split:
  assumes "(n + k) mod 4 = 0 \<or> k = length xs" "k \<le> length xs"
  shows "mask_spec key n (take k xs) @ mask_spec key 0 (drop k xs) = mask_spec key n xs"
proof -
  have "mask_spec key 0 (drop k xs) = mask_spec key (n + k) (drop k xs)"
    using assms by (auto intro: mask_spec_mod)
  then show ?thesis
    using mask_spec_append[of key n "take k xs" "drop k xs"] assms(2) by simp
qed

lemma apply_mask_spec: "apply_mask key data offset = mask_spec key (unat offset) data"
proof -
  obtain h where h: "h \<le> length data" "h = length data \<or> (unat offset + h) mod 4 = 0"
    "mask_head key offset data 0 =
       (mask_spec key (unat offset) (take h data) @ drop h data, h)"
    using mask_head_spec[of data key offset "[]"] by auto
  define pre xs where "pre = mask_spec key (unat offset) (take h data)" and "xs = drop h data"
  have pre: "length pre = h" using h by (simp add: pre_def)
  obtain k where k: "k \<le> length xs" "k mod 4 = 0" "length xs - k < 4"
    "mask_body key (pre @ xs) h = (pre @ mask_spec key 0 (take k xs) @ drop k xs, h + k)"
    using mask_body_spec[of xs key pre] pre by auto
  have "apply_mask key data offset = pre @ mask_spec key 0 (take k xs) @ mask_spec key 0 (drop k xs)"
    using mask_tail_spec[of 0 "drop k xs" key "pre @ mask_spec key 0 (take k xs)"] k pre
    by (simp add: apply_mask_def h(3) flip: pre_def xs_def)
  also have "\<dots> = pre @ mask_spec key 0 xs"
    using k by (subst mask_spec_split) simp_all
  also have "\<dots> = mask_spec key (unat offset) data"
    unfolding pre_def xs_def using h by (intro mask_spec_split) auto
  finally show ?thesis .
qed

lemma mask_spec_involution: "mask_spec key n (mask_spec key n xs) = xs"
  by (induction xs arbitrary: n) (simp_all add: xor.assoc)
subsection \<open>The decoder is incremental\<close>

lemma continue_with_Done_iff:
  "continue_with x k = Done b \<longleftrightarrow> (\<exists>a. x = Done a \<and> k a = Done b)"
  by (cases x) auto

lemma continue_with_not_Short:
  assumes "continue_with x k \<noteq> Short" "x \<noteq> Short \<Longrightarrow> y = x" "\<And>a. x = Done a \<Longrightarrow> k a \<noteq> Short \<Longrightarrow> l a = k a"
  shows "continue_with y l = continue_with x k"
  using assms by (cases x) auto

lemma extended_len_append:
  assumes "extended_len w len \<noteq> Short"
  shows "extended_len (w @ r) len = extended_len w len"
  using assms by (auto simp: extended_len_def nth_append Let_def split: if_splits)

lemma extended_len_off:
  "extended_len w len = Done (l, off) \<Longrightarrow> 2 \<le> length w \<Longrightarrow> off \<le> length w \<and> 2 \<le> off"
  by (auto simp: extended_len_def Let_def split: if_splits)

lemma read_mask_append:
  assumes "read_mask w m off \<noteq> Short"
  shows "read_mask (w @ r) m off = read_mask w m off"
  using assms by (auto simp: read_mask_def)

lemma parse_header_append:
  assumes "parse_header role w \<noteq> Short"
  shows "parse_header role (w @ r) = parse_header role w"
proof -
  have w: "2 \<le> length w" using assms by (auto simp: parse_header_def split: if_splits)
  then show ?thesis
    using assms unfolding parse_header_def
    by (auto simp: nth_append simp del: continue_with.simps
        intro!: continue_with_not_Short extended_len_append read_mask_append)
qed

lemma header_len_bounds:
  assumes "parse_header role w = Done f"
  shows "2 \<le> header_len f" "header_len f \<le> length w"
  using assms
  by (auto simp: parse_header_def continue_with_Done_iff read_mask_def dest!: extended_len_off
      split: if_splits)

subsection \<open>Decoding inverts encoding\<close>

lemma opcode_is_control_iff [simp]:
  "opcode_is_control op \<longleftrightarrow> op = Close \<or> op = Ping \<or> op = Pong"
  by (cases op) (simp_all add: opcode_is_control_def word_le_nat_alt)

lemma opcode_of_value [simp]: "opcode_of (opcode_value op) = Some op"
  by (cases op) (simp_all add: opcode_of_def)

lemma first_byte:
  fixes f op defines "b \<equiv> (if f then 0x80 else 0x00) OR opcode_value op"
  shows "b AND 0x70 = 0" "b AND 0x0F = opcode_value op" "b AND 0x80 \<noteq> 0 \<longleftrightarrow> f"
  unfolding b_def by (cases op; cases f; simp)+

lemma and_0x7F: "(w :: uint8) AND 0x7F = take_bit 7 w"
  by (simp add: take_bit_eq_mask mask_eq_exp_minus_1)

lemma low_seven:
  assumes "w < (0x80 :: uint8)"
  shows "w AND 0x7F = w" "w AND 0x80 = 0"
proof -
  have u: "unat w < 128" using assms by (simp add: word_less_nat_alt)
  show 1: "w AND 0x7F = w"
    unfolding and_0x7F by (rule take_bit_word_self) (use u in simp)
  have "w AND 0x80 = (w AND 0x7F) AND 0x80" by (simp only: 1)
  then show "w AND 0x80 = 0" by (simp add: and.assoc)
qed

lemma second_byte:
  assumes "w < (0x80 :: uint8)"
  shows "((if m then 0x80 else 0) OR w) AND 0x7F = w"
    "((if m then 0x80 else 0) OR w) AND 0x80 \<noteq> 0 \<longleftrightarrow> m"
  using low_seven[OF assms] by (simp_all add: bit.conj_disj_distrib2)

lemma be16:
  assumes "len \<le> (0xFFFF :: uint64)"
  shows "push_bit 8 (ucast (ucast (drop_bit 8 len) :: uint8)) OR ucast (ucast len :: uint8) = len"
proof (rule bit_word_eqI)
  fix n assume "n < LENGTH(64)"
  have "take_bit 16 len = len"
    by (rule take_bit_word_self) (use assms in \<open>simp add: word_le_nat_alt\<close>)
  then have "bit len n \<Longrightarrow> n < 16" by (metis bit_take_bit_iff)
  then show "bit (push_bit 8 (ucast (ucast (drop_bit 8 len) :: uint8)) OR ucast (ucast len :: uint8) :: uint64) n = bit len n"
    using \<open>n < LENGTH(64)\<close>
    by (auto simp: bit_or_iff bit_push_bit_iff bit_ucast_iff bit_drop_bit_eq)
qed

lemma be64_step:
  "push_bit 8 (drop_bit (k + 8) len) OR ucast (ucast (drop_bit k len) :: uint8) = drop_bit k (len :: uint64)"
proof (rule bit_word_eqI)
  fix n assume "n < LENGTH(64)"
  then show "bit (push_bit 8 (drop_bit (k + 8) len) OR ucast (ucast (drop_bit k len) :: uint8)) n = bit (drop_bit k len) n"
    by (cases "n < 8") (auto simp: bit_or_iff bit_push_bit_iff bit_ucast_iff bit_drop_bit_eq add.assoc)
qed

lemma be64_bytes: "be64 (map (\<lambda>i. ucast (drop_bit (56 - 8 * i) len)) [0..<8]) = len"
proof -
  have z: "push_bit 8 (0 :: uint64) = push_bit 8 (drop_bit (56 + 8) len)"
  proof -
    have "drop_bit (56 + 8) len = 0"
      by (intro bit_word_eqI) (auto simp: bit_drop_bit_eq dest: bit_imp_le_length)
    then show ?thesis by simp
  qed
  have "[0..<8] = [0, 1, 2, 3, 4, 5, 6, 7 :: nat]" by (simp add: upt_rec)
  then show ?thesis
    using be64_step[of 56 len] be64_step[of 48 len] be64_step[of 40 len] be64_step[of 32 len]
      be64_step[of 24 len] be64_step[of 16 len] be64_step[of 8 len] be64_step[of 0 len]
    by (simp add: be64_def z)
qed

definition legal_header :: "bool \<Rightarrow> opcode_t \<Rightarrow> uint64 \<Rightarrow> bool" where
  "legal_header f op len \<longleftrightarrow> len \<le> 0x7FFFFFFFFFFFFFFF \<and>
     (opcode_is_control op \<longrightarrow> f \<and> len \<le> kMaxControlPayload)"

lemma base_bytes_encoded:
  assumes "w < 0x80" "opcode_is_control op \<longrightarrow> f \<and> ucast w \<le> kMaxControlPayload"
    "role = (if m then Server else Client)"
  shows "base_bytes role ((if f then 0x80 else 0x00) OR opcode_value op) ((if m then 0x80 else 0) OR w)
    = Done (f, op, m, ucast w)"
  unfolding base_bytes_def first_byte second_byte[OF assms(1)] Let_def opcode_of_value
  using assms by (auto simp: not_le simp del: opcode_is_control_iff)

lemma read_mask_encoded:
  assumes "length pre = off" "m \<longleftrightarrow> key \<noteq> 0"
  shows "read_mask (pre @ (if key \<noteq> 0 then bytes32 key else []) @ rest) m off =
    Done (key, off + (if key \<noteq> 0 then 4 else 0))"
  using assms by (auto simp: read_mask_def)

lemma ucast_small:
  assumes "len \<le> kMaxControlPayload"
  shows "ucast len < (0x80 :: uint8)" "ucast (ucast len :: uint8) = len" "len \<noteq> 126" "len \<noteq> 127"
proof -
  have u: "unat len \<le> 125" using assms by (simp add: word_le_nat_alt kMaxControlPayload_def)
  have v: "unat (ucast len :: uint8) = unat len"
    using u by (intro unat_ucast_self) simp
  show "ucast len < (0x80 :: uint8)" using u v by (simp add: word_less_nat_alt)
  have "unat (ucast (ucast len :: uint8) :: uint64) = unat len"
    using u v unat_ucast_self[of "ucast len :: uint8", where 'b = 64] by simp
  then show "ucast (ucast len :: uint8) = len" by (simp only: word_unat_eq_iff)
  show "len \<noteq> 126" "len \<noteq> 127" using u by auto
qed

lemma parse_header_parts:
  fixes f op w key ext rest
  defines "hdr \<equiv> [(if f then 0x80 else 0x00) OR opcode_value op, (if key \<noteq> 0 then 0x80 else 0) OR w] @ ext"
  defines "msk \<equiv> (if key \<noteq> 0 then bytes32 key else [])"
  assumes "w < 0x80" "opcode_is_control op \<longrightarrow> f \<and> ucast w \<le> kMaxControlPayload"
    and "extended_len (hdr @ msk @ rest) (ucast w) = Done (len, length hdr)"
  shows "parse_header (if key \<noteq> 0 then Server else Client) (hdr @ msk @ rest) =
    Done \<lparr>fin = f, opcode = op, payload_len = len, masked = (key \<noteq> 0), mask_key = key,
          header_len = length (hdr @ msk)\<rparr>"
proof -
  have b: "(hdr @ msk @ rest) ! 0 = (if f then 0x80 else 0x00) OR opcode_value op"
    "(hdr @ msk @ rest) ! 1 = (if key \<noteq> 0 then 0x80 else 0) OR w"
    by (simp_all add: hdr_def)
  have len: "\<not> length (hdr @ msk @ rest) < 2" by (simp add: hdr_def)
  show ?thesis
    unfolding parse_header_def b base_bytes_encoded[OF assms(3,4) refl]
    using len assms(5) read_mask_encoded[of hdr _ "key \<noteq> 0" key rest]
    by (simp add: msk_def)
qed

lemma parse_header_encoded:
  assumes "legal_header f op len"
  shows "parse_header (if key \<noteq> 0 then Server else Client) (write_frame_header f op len key @ rest) =
    Done \<lparr>fin = f, opcode = op, payload_len = len, masked = (key \<noteq> 0), mask_key = key,
          header_len = length (write_frame_header f op len key)\<rparr>"
proof -
  have control: "opcode_is_control op \<longrightarrow> f \<and> len \<le> kMaxControlPayload"
    and small: "len \<le> 0x7FFFFFFFFFFFFFFF"
    using assms by (simp_all add: legal_header_def)
  consider (short) "len \<le> kMaxControlPayload"
    | (medium) "\<not> len \<le> kMaxControlPayload" "len \<le> 0xFFFF"
    | (long) "\<not> len \<le> kMaxControlPayload" "\<not> len \<le> 0xFFFF" by blast
  then show ?thesis
  proof cases
    case short
    then show ?thesis
      using parse_header_parts[of "ucast len" op f key "[]" rest len] control ucast_small[OF short]
      by (simp add: write_frame_header_def Let_def extended_len_def)
  next
    case medium
    then show ?thesis
      using parse_header_parts[of 126 op f key "[ucast (drop_bit 8 len), ucast len]" rest len]
        control be16[OF medium(2)]
      by (simp add: write_frame_header_def Let_def extended_len_def)
  next
    case long
    let ?e = "map (\<lambda>i. ucast (drop_bit (56 - 8 * i) len)) [0..<8] :: bytes"
    have e: "length ?e = 8" by simp
    show ?thesis
      using parse_header_parts[of 127 op f key ?e rest len] long control small be64_bytes[of len] e
      by (simp add: write_frame_header_def Let_def extended_len_def del: upt_Suc)
  qed
qed
subsection \<open>Only canonical encodings are accepted\<close>

lemma all_ones: "(b :: uint8) AND 0xFF = b"
proof -
  have "(0xFF :: uint8) = - 1" by simp
  then show ?thesis by (simp only: and.right_neutral)
qed

lemma split_byte: "(b :: uint8) = (b AND 0x80) OR (b AND 0x70) OR (b AND 0x0F)"
  by (simp add: all_ones flip: bit.conj_disj_distrib)

lemma split_byte7: "(b :: uint8) = (b AND 0x80) OR (b AND 0x7F)"
  by (simp add: all_ones flip: bit.conj_disj_distrib)

lemma bit_0x80: "bit (0x80 :: uint8) i \<longleftrightarrow> i = 7"
proof -
  have "\<forall>i \<in> set [0..<8]. bit (0x80 :: uint8) i \<longleftrightarrow> i = 7"
    by (simp add: upt_rec)
  then show ?thesis using bit_imp_le_length[of "0x80 :: uint8" i] by auto
qed

lemma and_0x80: "(b :: uint8) AND 0x80 = (if b AND 0x80 \<noteq> 0 then 0x80 else 0)"
proof -
  have "b AND 0x80 = (if bit b 7 then 0x80 else 0)"
  proof (rule bit_word_eqI)
    fix n
    show "bit (b AND 0x80) n = bit (if bit b 7 then 0x80 else 0 :: uint8) n"
      by (cases "bit b 7") (auto simp only: bit_and_iff bit_0x80 if_True if_False bit_0_eq bot_apply bot_bool_def)
  qed
  then show ?thesis by (simp split: if_splits)
qed

lemma opcode_of_Some: "opcode_of v = Some op \<Longrightarrow> opcode_value op = v"
  by (auto simp: opcode_of_def split: if_splits)

lemma base_bytes_decoded:
  assumes "base_bytes role b0 b1 = Done (f, op, m, len)"
  shows "b0 = (if f then 0x80 else 0x00) OR opcode_value op"
    "b1 = (if m then 0x80 else 0) OR (b1 AND 0x7F)" "len = ucast (b1 AND 0x7F)"
    "m \<longleftrightarrow> role = Server" "opcode_is_control op \<longrightarrow> f \<and> len \<le> kMaxControlPayload"
proof -
  have r: "b0 AND 0x70 = 0" "opcode_of (b0 AND 0x0F) = Some op" "f \<longleftrightarrow> b0 AND 0x80 \<noteq> 0"
    "m \<longleftrightarrow> b1 AND 0x80 \<noteq> 0" 
    using assms by (auto simp: base_bytes_def Let_def split: if_splits option.splits)
  show "b0 = (if f then 0x80 else 0x00) OR opcode_value op"
    using split_byte[of b0] and_0x80[of b0] r opcode_of_Some[OF r(2)] by simp
  show "b1 = (if m then 0x80 else 0) OR (b1 AND 0x7F)"
    using split_byte7[of b1] and_0x80[of b1] r by simp
qed (use assms in \<open>cases role; auto simp: base_bytes_def Let_def not_less split: if_splits option.splits\<close>)+
lemma be64_le64: "be64 bs = le64 (rev bs)"
  by (induction bs rule: rev_induct) (simp_all add: be64_def or.commute)

lemma be64_byte:
  assumes "length bs = 8" "k < 8"
  shows "ucast (drop_bit (56 - 8 * k) (be64 bs)) = bs ! k"
proof (rule bit_word_eqI)
  fix n assume n: "n < LENGTH(8)"
  define j where "j = 7 - k"
  have e: "56 - 8 * k = 8 * j" "bs ! k = rev bs ! j" "j < 8"
    using assms by (simp_all add: j_def rev_nth)
  show "bit (ucast (drop_bit (56 - 8 * k) (be64 bs)) :: uint8) n = bit (bs ! k) n"
    unfolding e using n assms e by (simp add: bit_ucast_iff bit_drop_bit_eq be64_le64 bit_le64)
qed

lemma bytes_be64:
  assumes "length bs = 8"
  shows "map (\<lambda>i. ucast (drop_bit (56 - 8 * i) (be64 bs))) [0..<8] = bs"
  using assms be64_byte[OF assms] by (intro nth_equalityI) simp_all

lemma bytes_be16:
  fixes a b :: uint8 defines "l \<equiv> push_bit 8 (ucast a) OR ucast b :: uint64"
  shows "ucast (drop_bit 8 l) = a" "ucast l = b" "l \<le> 0xFFFF"
proof -
  show "ucast (drop_bit 8 l) = a" "ucast l = b"
    by (rule bit_word_eqI;
        auto simp: l_def bit_ucast_iff bit_drop_bit_eq bit_or_iff bit_push_bit_iff
          dest: bit_imp_le_length)+
  have "l = take_bit 16 l"
    by (rule bit_word_eqI)
       (auto simp: l_def bit_take_bit_iff bit_ucast_iff bit_or_iff bit_push_bit_iff
         dest: bit_imp_le_length)
  then have "unat l = take_bit 16 (unat l)" by (metis unsigned_take_bit_eq)
  then have "unat l < 2 ^ 16" by (rule ord_eq_less_trans) (rule take_bit_nat_less_exp)
  then show "l \<le> 0xFFFF" by (simp add: word_le_nat_alt)
qed
lemma bytes32_le32:
  assumes "length bs = 4"
  shows "bytes32 (le32 bs) = bs"
  using assms le32_byte[OF assms] by (intro nth_equalityI) (simp_all add: bytes32_def)

lemma take_two:
  assumes "2 \<le> length w"
  shows "take 2 w = [w ! 0, w ! 1]" "take (2 + n) w = [w ! 0, w ! 1] @ take n (drop 2 w)"
proof -
  obtain a b r where "w = a # b # r"
    using assms by (auto simp: Suc_le_length_iff numeral_2_eq_2)
  then show "take 2 w = [w ! 0, w ! 1]" "take (2 + n) w = [w ! 0, w ! 1] @ take n (drop 2 w)"
    by simp_all
qed

text \<open>The seven length bits and the extension bytes of a canonical length.\<close>

definition len_field :: "uint64 \<Rightarrow> uint8 \<times> bytes" where
  "len_field len = (
     if len \<le> kMaxControlPayload then (ucast len, [])
     else if len \<le> 0xFFFF then (126, [ucast (drop_bit 8 len), ucast len])
     else (127, map (\<lambda>i. ucast (drop_bit (56 - 8 * i) len)) [0..<8]))"

lemma write_frame_header_alt:
  "write_frame_header f op len key =
     [(if f then 0x80 else 0x00) OR opcode_value op,
      (if key \<noteq> 0 then 0x80 else 0x00) OR fst (len_field len)] @
     snd (len_field len) @ (if key \<noteq> 0 then bytes32 key else [])"
  by (simp add: write_frame_header_def len_field_def Let_def del: upt_Suc)

lemma seven_bits:
  fixes b :: uint8 defines "len \<equiv> ucast (b AND 0x7F) :: uint64"
  assumes "len \<noteq> 126" "len \<noteq> 127"
  shows "len \<le> kMaxControlPayload" "ucast len = b AND 0x7F"
proof -
  have "unat (b AND 0x7F) < 2 ^ 7"
    unfolding and_0x7F unsigned_take_bit_eq by (rule take_bit_nat_less_exp)
  then have u: "unat (b AND 0x7F) < 128" by simp
  then have l: "unat len = unat (b AND 0x7F)"
    unfolding len_def by (intro unat_ucast_self) simp
  have "unat len \<noteq> unat (126 :: uint64)" "unat len \<noteq> unat (127 :: uint64)"
    using assms(2,3) by (simp_all only: word_unat_eq_iff not_False_eq_True)
  then show "len \<le> kMaxControlPayload"
    using u l by (simp add: word_le_nat_alt kMaxControlPayload_def)
  have "unat (ucast len :: uint8) = unat len"
    using u l by (intro unat_ucast_self) simp
  then show "ucast len = b AND 0x7F" using l by (simp add: word_unat_eq_iff)
qed

lemma extended_len_decoded:
  fixes b :: uint8
  assumes "extended_len w (ucast (b AND 0x7F)) = Done (l, off)" "2 \<le> length w"
  shows "take off w = [w ! 0, w ! 1] @ snd (len_field l) \<and> fst (len_field l) = b AND 0x7F \<and>
    l \<le> 0x7FFFFFFFFFFFFFFF \<and> (ucast (b AND 0x7F) \<le> kMaxControlPayload \<longrightarrow> l \<le> kMaxControlPayload)"
proof -
  let ?len = "ucast (b AND 0x7F) :: uint64"
  have narrow: "?len = ucast n \<Longrightarrow> b AND 0x7F = n" for n :: uint8
  proof -
    have u: "unat (ucast x :: uint64) = unat x" for x :: uint8
      using unat_word_less[of x] by (intro unat_ucast_self) simp
    assume "?len = ucast n"
    then show "b AND 0x7F = n" by (metis u word_unat_eq_iff)
  qed
  consider (m) "?len = 126" | (l) "?len = 127" | (s) "?len \<noteq> 126" "?len \<noteq> 127" by blast
  then show ?thesis
  proof cases
    case m
    have "4 \<le> length w" and l: "l = push_bit 8 (ucast (w ! 2)) OR ucast (w ! 3)"
      and off: "off = 4" "\<not> l \<le> kMaxControlPayload"
      using assms m by (auto simp: extended_len_def Let_def split: if_splits)
    then obtain a1 a2 c d r where "w = [a1, a2, c, d] @ r"
      by (auto simp: Suc_le_length_iff numeral_eq_Suc)
    moreover from this have "l \<le> 0xFFFF" using l bytes_be16(3)[of c d] by simp
    moreover from this have "l \<le> 0x7FFFFFFFFFFFFFFF" by (rule order_trans) simp
    moreover have "\<not> (126 :: uint64) \<le> kMaxControlPayload" by (simp add: kMaxControlPayload_def)
    ultimately show ?thesis
      using l off m narrow[of 126] bytes_be16[of c d] by (simp add: len_field_def)
  next
    case l
    have "10 \<le> length w" and v: "l = be64 (take 8 (drop 2 w))"
      and off: "off = 10" "\<not> l \<le> 0xFFFF" "l \<le> 0x7FFFFFFFFFFFFFFF"
      using assms l by (auto simp: extended_len_def Let_def not_less split: if_splits)
    moreover from this have "\<not> l \<le> kMaxControlPayload"
      by (auto simp: kMaxControlPayload_def word_le_nat_alt)
    moreover have "take 10 w = [w ! 0, w ! 1] @ take 8 (drop 2 w)"
      using take_two(2)[OF assms(2), of 8] by simp
    ultimately show ?thesis
      using l narrow[of 127] bytes_be64[of "take 8 (drop 2 w)"]
      by (simp add: len_field_def kMaxControlPayload_def del: upt_Suc)
  next
    case s
    have "l = ?len" "off = 2" using assms s by (simp_all add: extended_len_def)
    moreover have "l \<le> 0x7FFFFFFFFFFFFFFF"
      using seven_bits(1)[OF s] \<open>l = ?len\<close> by (auto simp: kMaxControlPayload_def word_le_nat_alt)
    ultimately show ?thesis
      using seven_bits[OF s] take_two(1)[OF assms(2)] by (simp add: len_field_def)
  qed
qed

lemma parse_header_canonical:
  assumes p: "parse_header role w = Done fr" and key: "masked fr \<longrightarrow> mask_key fr \<noteq> 0"
  shows "take (header_len fr) w =
      write_frame_header (fin fr) (opcode fr) (payload_len fr) (mask_key fr)"
    "legal_header (fin fr) (opcode fr) (payload_len fr)"
    "masked fr \<longleftrightarrow> role = Server" "mask_key fr \<noteq> 0 \<longrightarrow> masked fr"
proof -
  obtain f op m len l off k hl where b: "base_bytes role (w ! 0) (w ! 1) = Done (f, op, m, len)"
    and e: "extended_len w len = Done (l, off)" and r: "read_mask w m off = Done (k, hl)"
    and fr: "fr = \<lparr>fin = f, opcode = op, payload_len = l, masked = m, mask_key = k, header_len = hl\<rparr>"
    and w: "2 \<le> length w"
    using p by (auto simp: parse_header_def continue_with_Done_iff split: if_splits)
  note B = base_bytes_decoded[OF b]
  note E = extended_len_decoded[OF e[unfolded B(3)] w]
  have mk: "m \<longleftrightarrow> k \<noteq> 0" using key r by (auto simp: fr read_mask_def split: if_splits)
  have hl: "take hl w = take off w @ (if k \<noteq> 0 then bytes32 k else [])"
    using r mk by (auto simp: read_mask_def bytes32_le32 take_add split: if_splits)
  show "take (header_len fr) w =
      write_frame_header (fin fr) (opcode fr) (payload_len fr) (mask_key fr)"
    using E B(1,2) hl mk by (simp add: fr write_frame_header_alt)
  show "legal_header (fin fr) (opcode fr) (payload_len fr)"
    using E B(3,5) by (auto simp: legal_header_def fr)
  show "masked fr \<longleftrightarrow> role = Server" "mask_key fr \<noteq> 0 \<longrightarrow> masked fr"
    using B(4) mk by (simp_all add: fr)
qed
subsection \<open>The interface of an incremental decoder\<close>

text \<open>
  What a reader of a byte stream relies on: the verdict on a window never changes when
  bytes are appended to it, and a decoded unit lies within the window.
\<close>

locale incremental_decoder =
  fixes decode :: "bytes \<Rightarrow> 'a partial" and used :: "'a \<Rightarrow> nat"
  assumes decode_append: "decode w \<noteq> Short \<Longrightarrow> decode (w @ r) = decode w"
    and decode_used: "decode w = Done a \<Longrightarrow> used a \<le> length w"
begin

lemma never_early:
  assumes "decode h = Done a" "used a = length h" "n < length h"
  shows "decode (take n h) = Short"
proof (rule ccontr)
  assume "decode (take n h) \<noteq> Short"
  then have "decode (take n h @ drop n h) = decode (take n h)" by (rule decode_append)
  then have "decode (take n h) = Done a" using assms(1) by simp
  then show False using decode_used assms(2,3) by fastforce
qed

lemma verdict_unique:
  assumes "decode (take m w) \<noteq> Short" "decode (take n w) \<noteq> Short"
  shows "decode (take m w) = decode (take n w)"
  using decode_append[OF assms(1), of "drop m w"] decode_append[OF assms(2), of "drop n w"] by simp

end

interpretation header: incremental_decoder "parse_header role" header_len for role
  by unfold_locales (auto intro: parse_header_append header_len_bounds(2))

lemma mask_word_mod: "unat (offset + of_nat n :: uint64) mod 4 = (unat offset + n) mod 4"
proof -
  have "unat (w AND 3 :: uint64) = unat w mod 4" for w :: uint64
    using unat_and_3[of w 0] by simp
  then show ?thesis using unat_and_3[of offset n] by simp
qed

lemma mask_spec_map:
  "mask_spec key n xs = map (\<lambda>i. xs ! i XOR key_byte key (n + i)) [0..<length xs]"
proof (induction xs arbitrary: n)
  case (Cons b xs)
  then show ?case by (simp add: upt_conv_Cons map_Suc_upt[symmetric] del: upt_Suc)
qed simp

lemma fresh_decoder [simp]:
  "\<not> error_truthy (dec_err (frame_decoder role))" "dec_role (frame_decoder role) = role"
  by (simp_all add: frame_decoder_def error_truthy_def error_code_def)

subsection \<open>Properties\<close>

text \<open>(C3) Decoding inverts encoding: for every legal header (length below \<open>2^63\<close>, control
  frames final and of at most 125 bytes) the decoder of the opposite role reads back exactly
  the fields that \<open>write_frame_header\<close> wrote, with the header's length, whatever bytes
  follow; a zero key means an unmasked frame.\<close>

theorem frame_header_roundtrip:
  assumes "legal_header f op len"
  shows "parse (frame_decoder (if key \<noteq> 0 then Server else Client))
      (write_frame_header f op len key @ rest) out =
    (Frame, frame_decoder (if key \<noteq> 0 then Server else Client),
     \<lparr>fin = f, opcode = op, payload_len = len, masked = (key \<noteq> 0), mask_key = key,
      header_len = length (write_frame_header f op len key)\<rparr>)"
  using parse_header_encoded[OF assms, of key rest] by (simp add: parse_def)

theorem frame_header_roundtrip_witness:
  "parse (frame_decoder Server) (write_frame_header True Binary 70000 0xDEADBEEF @ [1, 2]) frame_init =
    (Frame, frame_decoder Server,
     \<lparr>fin = True, opcode = Binary, payload_len = 70000, masked = True, mask_key = 0xDEADBEEF,
      header_len = length (write_frame_header True Binary 70000 0xDEADBEEF)\<rparr>)"
  using frame_header_roundtrip[of True Binary 70000 "0xDEADBEEF" "[1, 2]" frame_init]
  by (simp add: legal_header_def)

text \<open>The decoder never decides early: on every proper prefix of a legal header it asks
  for more bytes and its error state is untouched.\<close>

theorem frame_header_needs_all:
  assumes "legal_header f op len" "n < length (write_frame_header f op len key)"
  shows "parse (frame_decoder (if key \<noteq> 0 then Server else Client))
      (take n (write_frame_header f op len key)) out =
    (NeedMore, frame_decoder (if key \<noteq> 0 then Server else Client), out)"
  using header.never_early[OF parse_header_encoded[OF assms(1), of key "[]", simplified], of n]
    assms(2) by (simp add: parse_def)

theorem frame_header_needs_all_witness:
  "parse (frame_decoder Client) (take 3 (write_frame_header False Text 300 0)) frame_init =
    (NeedMore, frame_decoder Client, frame_init)"
  using frame_header_needs_all[of False Text 300 3 0 frame_init]
  by (simp add: legal_header_def write_frame_header_def kMaxControlPayload_def Let_def)

text \<open>(C4) Only canonical headers are accepted: whenever the decoder produces a frame (and a
  masked one has a key other than zero), the bytes it consumed are the ones
  \<open>write_frame_header\<close> would write for that frame, the frame is legal, and it is
  masked exactly if this side is the server.\<close>

theorem frame_header_canonical:
  assumes "parse dec window out = (Frame, dec', fr)" "masked fr \<longrightarrow> mask_key fr \<noteq> 0"
  shows "take (header_len fr) window =
      write_frame_header (fin fr) (opcode fr) (payload_len fr) (mask_key fr) \<and>
    legal_header (fin fr) (opcode fr) (payload_len fr) \<and> (masked fr \<longleftrightarrow> dec_role dec = Server)"
proof -
  have "parse_header (dec_role dec) window = Done fr"
    using assms(1) by (auto simp: parse_def split: if_splits partial.splits)
  from parse_header_canonical[OF this assms(2)] show ?thesis by blast
qed

theorem frame_header_canonical_witness:
  "take 2 [0x81, 0x05, 7, 8] = write_frame_header True Text 5 0 \<and> legal_header True Text 5"
proof -
  let ?fr = "\<lparr>fin = True, opcode = Text, payload_len = 5, masked = False, mask_key = 0, header_len = 2\<rparr>"
  have "parse (frame_decoder Client) [0x81, 0x05, 7, 8] ?fr = (Frame, frame_decoder Client, ?fr)"
    by code_simp
  from frame_header_canonical[OF this] show ?thesis by simp
qed

text \<open>(C7) The word-wise \<open>apply_mask\<close> is the byte-wise XOR of RFC 6455: payload byte
  \<open>i\<close> of a run that starts at \<open>offset\<close> is combined with byte
  \<open>(offset + i) mod 4\<close> of the key, for every length and every alignment.\<close>

theorem apply_mask_bytewise:
  "apply_mask key data offset =
     map (\<lambda>i. data ! i XOR key_byte key (unat offset + i)) [0..<length data]"
  by (simp add: apply_mask_spec mask_spec_map)

text \<open>Masking a payload in two runs, the second at the running offset, gives the same bytes
  as masking it at once, and masking twice with the same key restores the payload.\<close>

theorem apply_mask_runs:
  "apply_mask key (xs @ ys) offset =
     apply_mask key xs offset @ apply_mask key ys (offset + of_nat (length xs)) \<and>
   apply_mask key (apply_mask key xs offset) offset = xs"
  using mask_spec_mod[OF mask_word_mod[of offset "length xs"], of key ys]
  by (simp add: apply_mask_spec mask_spec_append mask_spec_involution)

end
