(* ===== verification/Ws_Handshake.thy ===== *)
theory Ws_Handshake
  imports Serializer Ws_Frame
begin

text \<open>
  The WebSocket opening handshake (\<^verbatim>\<open>src/websocket/common/handshake.cc\<close>,
  \<^verbatim>\<open>include/cornet/websocket/common/handshake.h\<close>): SHA-1, base64, the keys and
  the framing of the two handshake messages.

  The lemmas show that the buffered SHA-1 hashes exactly the padded concatenation of
  what it was fed, however the input was cut; that base64 decoding inverts encoding;
  which keys are valid; and what the server's answer is on the wire.
\<close>

subsection \<open>SHA-1\<close>

record sha1_t =
  sha_h :: "uint32 list"
  sha_block :: bytes
  sha_used :: nat
  sha_total :: uint64

definition sha_init_h :: "uint32 list" where
  "sha_init_h = [0x67452301, 0xEFCDAB89, 0x98BADCFE, 0x10325476, 0xC3D2E1F0]"

definition sha1_init :: sha1_t where
  "sha1_init = \<lparr>sha_h = sha_init_h, sha_block = replicate 64 0, sha_used = 0, sha_total = 0\<rparr>"

definition rol :: "uint32 \<Rightarrow> nat \<Rightarrow> uint32" where
  "rol v n = push_bit n v OR drop_bit (32 - n) v"

definition block_word :: "bytes \<Rightarrow> nat \<Rightarrow> uint32" where
  "block_word block i =
     push_bit 24 (ucast (block ! (4 * i))) OR push_bit 16 (ucast (block ! (4 * i + 1))) OR
     push_bit 8 (ucast (block ! (4 * i + 2))) OR ucast (block ! (4 * i + 3))"

definition schedule :: "bytes \<Rightarrow> uint32 list" where
  "schedule block =
     fold (\<lambda>i w. w @ [rol (w ! (i - 3) XOR w ! (i - 8) XOR w ! (i - 14) XOR w ! (i - 16)) 1])
       [16..<80] (map (block_word block) [0..<16])"

definition round_fk :: "nat \<Rightarrow> uint32 \<Rightarrow> uint32 \<Rightarrow> uint32 \<Rightarrow> uint32 \<times> uint32" where
  "round_fk i b c d =
    (if i < 20 then ((b AND c) OR (NOT b AND d), 0x5A827999)
     else if i < 40 then (b XOR c XOR d, 0x6ED9EBA1)
     else if i < 60 then ((b AND c) OR (b AND d) OR (c AND d), 0x8F1BBCDC)
     else (b XOR c XOR d, 0xCA62C1D6))"

fun sha_round :: "uint32 list \<Rightarrow> nat \<Rightarrow> uint32 \<times> uint32 \<times> uint32 \<times> uint32 \<times> uint32 \<Rightarrow>
    uint32 \<times> uint32 \<times> uint32 \<times> uint32 \<times> uint32" where
  "sha_round w i (a, b, c, d, e) =
    (let (f, k) = round_fk i b c d;
         t = rol a 5 + f + e + k + w ! i in
     (t, a, rol b 30, c, d))"

definition compress :: "bytes \<Rightarrow> uint32 list \<Rightarrow> uint32 list" where
  "compress block h =
    (let w = schedule block;
         (a, b, c, d, e) = fold (sha_round w) [0..<80] (h ! 0, h ! 1, h ! 2, h ! 3, h ! 4) in
     [h ! 0 + a, h ! 1 + b, h ! 2 + c, h ! 3 + d, h ! 4 + e])"

text \<open>The loop of \<^verbatim>\<open>update\<close>; the buffer is always left with a free byte.\<close>

function update_loop :: "sha1_t \<Rightarrow> bytes \<Rightarrow> sha1_t" where
  "update_loop s data =
    (if data = [] \<or> 64 \<le> sha_used s then s
     else
       let n = (if 64 - sha_used s < length data then 64 - sha_used s else length data);
           s = s\<lparr>sha_block := take (sha_used s) (sha_block s) @ take n data @ drop (sha_used s + n) (sha_block s),
                 sha_used := sha_used s + n\<rparr>;
           s = (if sha_used s = 64 then s\<lparr>sha_h := compress (sha_block s) (sha_h s), sha_used := 0\<rparr> else s) in
       update_loop s (drop n data))"
  by pat_completeness auto
termination
  by (relation "measure (\<lambda>(s, data). length data)") (auto split: if_splits)

declare update_loop.simps [simp del]

definition sha_update :: "bytes \<Rightarrow> sha1_t \<Rightarrow> sha1_t" where
  "sha_update data s = update_loop (s\<lparr>sha_total := sha_total s + of_nat (length data)\<rparr>) data"

definition be64_bytes_of :: "uint64 \<Rightarrow> bytes" where
  "be64_bytes_of bits = map (\<lambda>i. ucast (drop_bit (56 - 8 * i) bits)) [0..<8]"

definition digest_bytes :: "uint32 list \<Rightarrow> bytes" where
  "digest_bytes h = concat (map (\<lambda>i. [ucast (drop_bit 24 (h ! i)), ucast (drop_bit 16 (h ! i)),
                                     ucast (drop_bit 8 (h ! i)), ucast (h ! i)]) [0..<5])"

definition sha_final :: "sha1_t \<Rightarrow> bytes" where
  "sha_final s =
    (let bits = sha_total s * 8;
         s = sha_update [0x80] s;
         want = (if sha_used s \<le> 56 then 56 - sha_used s else 64 + 56 - sha_used s);
         s = sha_update (replicate want 0) s;
         s = sha_update (be64_bytes_of bits) s in
     digest_bytes (sha_h s))"

subsection \<open>Random bytes and base64\<close>

text \<open>
  \<^verbatim>\<open>random_bytes\<close>: the kernel's answers are a parameter, the list of the chunks
  that successive calls of \<^verbatim>\<open>getrandom\<close> return (an empty chunk is a failed
  call, which the loop repeats).  \<open>None\<close>: the answers given do not suffice and
  the loop is still running.
\<close>

fun random_bytes :: "bytes list \<Rightarrow> nat \<Rightarrow> bytes option" where
  "random_bytes answers 0 = Some []"
| "random_bytes [] (Suc len) = None"
| "random_bytes (chunk # answers) (Suc len) =
    (let got = take (Suc len) chunk in
     map_option ((@) got) (random_bytes answers (Suc len - length got)))"

definition kAlphabet :: string where
  "kAlphabet = ''ABCDEFGHIJKLMNOPQRSTUVWXYZabcdefghijklmnopqrstuvwxyz0123456789+/''"

definition sextet :: "uint32 \<Rightarrow> char" where
  "sextet v = kAlphabet ! unat v"

fun base64_encode :: "bytes \<Rightarrow> string" where
  "base64_encode (a # b # c # rest) =
    (let v = push_bit 16 (ucast a) OR push_bit 8 (ucast b) OR ucast c in
     [sextet (drop_bit 18 v), sextet (drop_bit 12 v AND 0x3F), sextet (drop_bit 6 v AND 0x3F),
      sextet (v AND 0x3F)] @ base64_encode rest)"
| "base64_encode [a, b] =
    (let v = push_bit 16 (ucast a) OR push_bit 8 (ucast b) in
     [sextet (drop_bit 18 v), sextet (drop_bit 12 v AND 0x3F), sextet (drop_bit 6 v AND 0x3F), CHR ''=''])"
| "base64_encode [a] =
    (let v = push_bit 16 (ucast a) in
     [sextet (drop_bit 18 v), sextet (drop_bit 12 v AND 0x3F), CHR ''='', CHR ''=''])"
| "base64_encode [] = []"

text \<open>The lambda \<^verbatim>\<open>val\<close>; its result -1 is \<open>None\<close>.\<close>

definition in_range :: "char \<Rightarrow> char \<Rightarrow> char \<Rightarrow> bool" where
  "in_range lo hi c \<longleftrightarrow> u8 lo \<le> u8 c \<and> u8 c \<le> u8 hi"

definition val :: "char \<Rightarrow> uint32 option" where
  "val c =
    (if in_range (CHR ''A'') (CHR ''Z'') c then Some (ucast (u8 c - u8 (CHR ''A'')))
     else if in_range (CHR ''a'') (CHR ''z'') c then Some (26 + ucast (u8 c - u8 (CHR ''a'')))
     else if in_range (CHR ''0'') (CHR ''9'') c then Some (52 + ucast (u8 c - u8 (CHR ''0'')))
     else if c = CHR ''+'' then Some 62
     else if c = CHR ''/'' then Some 63
     else if c = CHR ''='' then Some 0
     else None)"

text \<open>The inner loop over a group of four characters: the values and the padding count.\<close>

fun decode_group :: "bool \<Rightarrow> nat \<Rightarrow> nat \<Rightarrow> string \<Rightarrow> (uint32 list \<times> nat) option" where
  "decode_group is_last j pad [] = Some ([], pad)"
| "decode_group is_last j pad (c # cs) =
    (if c = CHR ''='' \<and> (\<not> is_last \<or> j < 2) then None
     else if c \<noteq> CHR ''='' \<and> pad \<noteq> 0 then None
     else case val c of
       None \<Rightarrow> None
     | Some v \<Rightarrow>
         (case decode_group is_last (j + 1) (if c = CHR ''='' then pad + 1 else pad) cs of
            None \<Rightarrow> None
          | Some (vs, p) \<Rightarrow> Some (v # vs, p)))"

definition group_bytes :: "uint32 list \<Rightarrow> nat \<Rightarrow> bytes" where
  "group_bytes v n =
    (let w = push_bit 18 (v ! 0) OR push_bit 12 (v ! 1) OR push_bit 6 (v ! 2) OR v ! 3 in
     [ucast (drop_bit 16 w)] @ (if n > 1 then [ucast (drop_bit 8 w)] else []) @
     (if n > 2 then [ucast w] else []))"

text \<open>The outer loop; \<open>o_pos\<close> is the number of bytes written so far.\<close>

function decode_loop :: "nat \<Rightarrow> nat \<Rightarrow> string \<Rightarrow> bytes option" where
  "decode_loop cap o_pos ins =
    (if ins = [] then Some []
     else case decode_group (length ins = 4) 0 0 (take 4 ins) of
       None \<Rightarrow> None
     | Some (v, pad) \<Rightarrow>
         if pad > 2 then None
         else let n = 3 - pad in
           if o_pos + n > cap then None
           else map_option ((@) (group_bytes v n)) (decode_loop cap (o_pos + n) (drop 4 ins)))"
  by pat_completeness auto
termination by (relation "measure (\<lambda>(cap, o_pos, ins). length ins)") auto

declare decode_loop.simps [simp del]

definition base64_decode :: "string \<Rightarrow> nat \<Rightarrow> bytes option" where
  "base64_decode ins cap =
    (if ins = [] \<or> length ins mod 4 \<noteq> 0 then None else decode_loop cap 0 ins)"

subsection \<open>Keys and handshake messages\<close>

definition kRfc6455Guid :: string where
  "kRfc6455Guid = ''258EAFA5-E914-47DA-95CA-C5AB0DC85B11''"

definition kAcceptLen :: nat where "kAcceptLen = 28"
definition kKeyLen :: nat where "kKeyLen = 24"

definition accept_key :: "string \<Rightarrow> string" where
  "accept_key key =
    base64_encode (sha_final (sha_update (map u8 kRfc6455Guid) (sha_update (map u8 key) sha1_init)))"

definition make_key :: "bytes list \<Rightarrow> string option" where
  "make_key answers = map_option base64_encode (random_bytes answers 16)"

definition key_valid :: "string \<Rightarrow> bool" where
  "key_valid key = (if length key \<noteq> kKeyLen then False else base64_decode key 16 \<noteq> None)"

definition kHdrUpgradeWebSocket :: string where
  "kHdrUpgradeWebSocket = ''Upgrade: websocket'' @ CRLF"
definition kHdrConnUpgrade :: string where
  "kHdrConnUpgrade = ''Connection: Upgrade'' @ CRLF"
definition kSecWebSocketKey :: string where "kSecWebSocketKey = ''Sec-WebSocket-Key''"
definition kSecWebSocketAccept :: string where "kSecWebSocketAccept = ''Sec-WebSocket-Accept''"
definition kSecWebSocketProtocol :: string where "kSecWebSocketProtocol = ''Sec-WebSocket-Protocol''"
definition kSecWebSocketVersion :: string where "kSecWebSocketVersion = ''Sec-WebSocket-Version''"

definition frame_handshake_response :: "string \<Rightarrow> string \<Rightarrow> out_buffer_t \<Rightarrow> out_buffer_t" where
  "frame_handshake_response key subprotocol b =
    (if has_crlf subprotocol then fail (http_error InvalidHeader) b
     else
       let line = the (status_line status_SwitchingProtocols);
           b = put_bytes line (length line) b;
           b = put kHdrConnUpgrade (put kHdrUpgradeWebSocket b);
           b = put_bytes '': '' 2 (put kSecWebSocketAccept b);
           b = put_crlf (put_bytes (accept_key key) kAcceptLen b);
           b = (if subprotocol \<noteq> []
                then put_crlf (put subprotocol (put_bytes '': '' 2 (put kSecWebSocketProtocol b)))
                else b) in
       put_crlf b)"

definition frame_handshake_request ::
    "string \<Rightarrow> string \<Rightarrow> string \<Rightarrow> string \<Rightarrow> string \<Rightarrow> out_buffer_t \<Rightarrow> out_buffer_t" where
  "frame_handshake_request host path query key subprotocols b =
    (let b = request_line Get path query Http11 b;
         b = header_field Host host b;
         b = put kHdrConnUpgrade (put kHdrUpgradeWebSocket b);
         b = put_crlf (put key (put_bytes '': '' 2 (put kSecWebSocketKey b)));
         b = put_bytes (''Sec-WebSocket-Version: 13'' @ CRLF) 27 b;
         b = (if subprotocols \<noteq> []
              then put_crlf (put subprotocols (put_bytes '': '' 2 (put kSecWebSocketProtocol b)))
              else b) in
     put_crlf b)"

definition websocket_error_of :: "int \<Rightarrow> websocket_error_t option" where
  "websocket_error_of c = find (\<lambda>e. websocket_error_value e = c)
     [ReservedBits, InvalidOpcode, UnmaskedFrame, MaskedFrame, FragmentedControl, ControlTooLarge,
      NonCanonicalLength, MessageTooLarge, ContinuationExpected, ContinuationUnexpected,
      InvalidCloseCode, HandshakeFailed, Closed]"

definition websocket_error_name :: "int \<Rightarrow> string" where
  "websocket_error_name c = (case websocket_error_of c of
      Some ReservedBits \<Rightarrow> ''reserved frame bits set''
    | Some InvalidOpcode \<Rightarrow> ''reserved opcode on the wire''
    | Some UnmaskedFrame \<Rightarrow> ''unmasked frame from a client''
    | Some MaskedFrame \<Rightarrow> ''masked frame from a server''
    | Some FragmentedControl \<Rightarrow> ''fragmented control frame''
    | Some ControlTooLarge \<Rightarrow> ''control payload over 125 bytes''
    | Some NonCanonicalLength \<Rightarrow> ''frame length not in minimal form''
    | Some MessageTooLarge \<Rightarrow> ''message exceeded the size limit''
    | Some ContinuationExpected \<Rightarrow> ''new message started mid-fragment''
    | Some ContinuationUnexpected \<Rightarrow> ''continue frame with no open message''
    | Some InvalidCloseCode \<Rightarrow> ''close code that must not be sent''
    | Some HandshakeFailed \<Rightarrow> ''opening handshake failed''
    | Some Closed \<Rightarrow> ''session already closed''
    | None \<Rightarrow> ''unknown websocket error'')"

subsection \<open>The buffered hash is the hash of the padded message\<close>

function absorb :: "uint32 list \<Rightarrow> bytes \<Rightarrow> uint32 list \<times> bytes" where
  "absorb h m = (if length m < 64 then (h, m) else absorb (compress (take 64 m) h) (drop 64 m))"
  by pat_completeness auto
termination by (relation "measure (\<lambda>(h, m). length m)") auto

declare absorb.simps [simp del]

lemma absorb_append: "absorb h (m @ d) = (case absorb h m of (h', r) \<Rightarrow> absorb h' (r @ d))"
proof (induction h m rule: absorb.induct)
  case (1 h m)
  show ?case
  proof (cases "length m < 64")
    case True
    then show ?thesis by (simp add: absorb.simps[of h m])
  next
    case False
    then show ?thesis
      using 1[OF False] by (simp add: absorb.simps[of h m] absorb.simps[of h "m @ d"])
  qed
qed

lemma absorb_block: "length b = 64 \<Longrightarrow> absorb h (b @ r) = absorb (compress b h) r"
  by (subst absorb.simps) simp

lemma absorb_rest: "length (snd (absorb h m)) = length m mod 64"
proof (induction h m rule: absorb.induct)
  case (1 h m)
  show ?case
  proof (cases "length m < 64")
    case False
    then show ?thesis using 1[OF False] by (subst absorb.simps) (simp add: le_mod_geq)
  qed (simp add: absorb.simps)
qed

definition sha_holds :: "sha1_t \<Rightarrow> bytes \<Rightarrow> bool" where
  "sha_holds s m \<longleftrightarrow> length (sha_block s) = 64 \<and> sha_used s < 64 \<and>
     absorb sha_init_h m = (sha_h s, take (sha_used s) (sha_block s)) \<and> sha_total s = of_nat (length m)"

lemma update_loop_absorbs:
  assumes "length (sha_block s) = 64" "sha_used s < 64"
  shows "length (sha_block (update_loop s data)) = 64 \<and> sha_used (update_loop s data) < 64 \<and>
    sha_total (update_loop s data) = sha_total s \<and>
    absorb (sha_h s) (take (sha_used s) (sha_block s) @ data) =
      (sha_h (update_loop s data), take (sha_used (update_loop s data)) (sha_block (update_loop s data)))"
  using assms
proof (induction s data rule: update_loop.induct)
  case (1 s data)
  show ?case
  proof (cases "data = []")
    case True
    then show ?thesis using "1.prems" by (simp add: update_loop.simps absorb.simps)
  next
    case False
    define n where "n = (if 64 - sha_used s < length data then 64 - sha_used s else length data)"
    define s1 where "s1 = s\<lparr>sha_block := take (sha_used s) (sha_block s) @ take n data @
        drop (sha_used s + n) (sha_block s), sha_used := sha_used s + n\<rparr>"
    define s2 where "s2 = (if sha_used s1 = 64
        then s1\<lparr>sha_h := compress (sha_block s1) (sha_h s1), sha_used := 0\<rparr> else s1)"
    have n: "n \<le> length data" "0 < n" "sha_used s + n \<le> 64"
      using False "1.prems" by (auto simp: n_def)
    have step: "update_loop s data = update_loop s2 (drop n data)"
      using False "1.prems"(2)
      by (subst update_loop.simps) (simp add: n_def s1_def s2_def Let_def)
    have b1: "length (sha_block s1) = 64" "take (sha_used s1) (sha_block s1) = take (sha_used s) (sha_block s) @ take n data"
      using "1.prems" n by (simp_all add: s1_def)
    have b2: "length (sha_block s2) = 64" "sha_used s2 < 64" "sha_total s2 = sha_total s"
      using b1 n by (auto simp: s2_def s1_def)
    have "absorb (sha_h s) (take (sha_used s) (sha_block s) @ data) =
        absorb (sha_h s1) (take (sha_used s1) (sha_block s1) @ drop n data)"
      using n by (simp add: b1 s1_def[THEN arg_cong, of sha_h])
    also have "\<dots> = absorb (sha_h s2) (take (sha_used s2) (sha_block s2) @ drop n data)"
    proof (cases "sha_used s1 = 64")
      case True
      then have "take (sha_used s1) (sha_block s1) = sha_block s1" using b1(1) by simp
      then show ?thesis
        using True b1(1) by (simp add: s2_def absorb_block)
    qed (simp add: s2_def)
    finally show ?thesis
      using "1.IH"[OF _ n_def s1_def s2_def] False "1.prems"(2) b2 by (simp add: step)
  qed
qed

lemma sha_update_holds: "sha_holds s m \<Longrightarrow> sha_holds (sha_update data s) (m @ data)"
  using update_loop_absorbs[of "s\<lparr>sha_total := sha_total s + of_nat (length data)\<rparr>" data]
  by (simp add: sha_holds_def sha_update_def absorb_append[of sha_init_h m data])

lemma sha_init_holds: "sha_holds sha1_init []"
  by (simp add: sha_holds_def sha1_init_def absorb.simps)

lemma sha_updates_hold: "sha_holds s m \<Longrightarrow> sha_holds (fold sha_update ds s) (m @ concat ds)"
proof (induction ds arbitrary: s m)
  case (Cons d ds)
  from Cons.IH[OF sha_update_holds[OF Cons.prems]] show ?case by simp
qed simp

text \<open>The padding of FIPS 180-1 and the digest of a message.\<close>

definition sha_zeros :: "nat \<Rightarrow> nat" where
  "sha_zeros n = (let r = (n + 1) mod 64 in if r \<le> 56 then 56 - r else 120 - r)"

definition sha_pad :: "bytes \<Rightarrow> bytes" where
  "sha_pad m = m @ [0x80] @ replicate (sha_zeros (length m)) 0 @ be64_bytes_of (of_nat (length m) * 8)"

definition sha1_spec :: "bytes \<Rightarrow> bytes" where
  "sha1_spec m = digest_bytes (fst (absorb sha_init_h (sha_pad m)))"

lemma sha_pad_blocks: "length (sha_pad m) mod 64 = 0"
proof -
  have "length (sha_pad m) = length m + 1 + sha_zeros (length m) + 8"
    by (simp add: sha_pad_def be64_bytes_of_def)
  moreover have "(n + 1 + sha_zeros n + 8) mod 64 = 0" for n
  proof -
    define q r where "q = (n + 1) div 64" and "r = (n + 1) mod 64"
    have "n + 1 = 64 * q + r" "r < 64" by (simp_all add: q_def r_def)
    then have "n + 1 + sha_zeros n + 8 = 64 * (q + (if r \<le> 56 then 1 else 2))"
      by (simp add: sha_zeros_def flip: r_def)
    then show ?thesis by (simp only: mod_mult_self1_is_0)
  qed
  ultimately show ?thesis by simp
qed

lemma sha_holds_used: "sha_holds s m \<Longrightarrow> sha_used s = length m mod 64"
  using absorb_rest[of sha_init_h m] by (auto simp: sha_holds_def)

lemma sha_final_spec:
  assumes "sha_holds s m"
  shows "sha_final s = sha1_spec m"
proof -
  note h1 = sha_update_holds[OF assms, of "[0x80]"]
  have u: "sha_used (sha_update [0x80] s) = (length m + 1) mod 64"
    using sha_holds_used[OF h1] by simp
  have t: "sha_total s = of_nat (length m)" using assms by (simp add: sha_holds_def)
  note h2 = sha_update_holds[OF sha_update_holds[OF h1, of "replicate (sha_zeros (length m)) 0"],
      of "be64_bytes_of (of_nat (length m) * 8)"]
  then show ?thesis
    by (simp add: sha_final_def sha1_spec_def sha_pad_def sha_holds_def u t sha_zeros_def Let_def)
qed

subsection \<open>Base64\<close>

lemma alphabet_table:
  "list_all (\<lambda>i. val (kAlphabet ! i) = Some (of_nat i) \<and> kAlphabet ! i \<noteq> CHR ''='') [0..<64]"
  by (simp add: upt_rec kAlphabet_def val_def in_range_def u8_def)

lemma val_sextet:
  assumes "unat v < 64"
  shows "val (sextet v) = Some v" "sextet v \<noteq> CHR ''=''"
proof -
  have "val (kAlphabet ! unat v) = Some (of_nat (unat v)) \<and> kAlphabet ! unat v \<noteq> CHR ''=''"
    using alphabet_table assms by (simp only: list_all_iff) simp
  then show "val (sextet v) = Some v" "sextet v \<noteq> CHR ''=''" by (simp_all add: sextet_def)
qed

lemma and_0x3F: "(v :: uint32) AND 0x3F = take_bit 6 v"
  by (simp add: take_bit_eq_mask mask_eq_exp_minus_1)

lemma sextet_small: "unat ((v :: uint32) AND 0x3F) < 64"
  using take_bit_nat_less_exp[of 6 "unat v"] by (simp only: and_0x3F unsigned_take_bit_eq) simp

lemma recompose:
  "push_bit 18 (drop_bit 18 v) OR push_bit 12 (drop_bit 12 v AND 0x3F) OR
   push_bit 6 (drop_bit 6 v AND 0x3F) OR (v AND 0x3F) = (v :: uint32)"
proof (rule bit_word_eqI)
  fix n assume n: "n < LENGTH(32)"
  consider "n < 6" | "6 \<le> n" "n < 12" | "12 \<le> n" "n < 18" | "18 \<le> n" by linarith
  then show "bit (push_bit 18 (drop_bit 18 v) OR push_bit 12 (drop_bit 12 v AND 0x3F) OR
      push_bit 6 (drop_bit 6 v AND 0x3F) OR (v AND 0x3F)) n = bit v n"
    unfolding and_0x3F
    by cases (use n in \<open>auto simp: bit_or_iff bit_push_bit_iff bit_drop_bit_eq bit_take_bit_iff\<close>)
qed

lemma three_bytes:
  fixes a b c :: uint8 defines "v \<equiv> push_bit 16 (ucast a) OR push_bit 8 (ucast b) OR ucast c :: uint32"
  shows "unat (drop_bit 18 v) < 64" "ucast (drop_bit 16 v) = a" "ucast (drop_bit 8 v) = b" "ucast v = c"
proof -
  have "drop_bit 18 v = take_bit 6 (drop_bit 18 v)"
    by (rule bit_word_eqI)
       (auto simp: v_def bit_or_iff bit_push_bit_iff bit_drop_bit_eq bit_take_bit_iff bit_ucast_iff
         dest: bit_imp_le_length)
  then show "unat (drop_bit 18 v) < 64" using sextet_small[of "drop_bit 18 v"] by (simp only: and_0x3F)
  show "ucast (drop_bit 16 v) = a" "ucast (drop_bit 8 v) = b" "ucast v = c"
    by (rule bit_word_eqI;
        auto simp: v_def bit_ucast_iff bit_drop_bit_eq bit_or_iff bit_push_bit_iff
          dest: bit_imp_le_length)+
qed

lemma low_zero:
  fixes a b :: uint8
  shows "(push_bit 16 (ucast a) OR push_bit 8 (ucast b) :: uint32) AND 0x3F = 0"
    "drop_bit 6 (push_bit 16 (ucast a) :: uint32) AND 0x3F = 0"
    "(push_bit 16 (ucast a) :: uint32) AND 0x3F = 0"
  unfolding and_0x3F
  by (rule bit_word_eqI; auto simp: bit_or_iff bit_push_bit_iff bit_drop_bit_eq bit_take_bit_iff)+

lemma decode_group_full:
  assumes "unat p < 64" "unat q < 64" "unat r < 64" "unat s < 64"
  shows "decode_group l 0 0 [sextet p, sextet q, sextet r, sextet s] = Some ([p, q, r, s], 0)"
    "decode_group True 0 0 [sextet p, sextet q, sextet r, CHR ''=''] = Some ([p, q, r, 0], 1)"
    "decode_group True 0 0 [sextet p, sextet q, CHR ''='', CHR ''=''] = Some ([p, q, 0, 0], 2)"
  using assms by (simp_all add: val_sextet) (simp_all add: val_def in_range_def u8_def)

lemma encode_length_pos: "d \<noteq> [] \<Longrightarrow> 4 \<le> length (base64_encode d)"
  by (cases d rule: base64_encode.cases) (simp_all add: Let_def)

lemma encode_length: "length (base64_encode d) = 4 * ((length d + 2) div 3)"
  by (induction d rule: base64_encode.induct) (simp_all add: Let_def, presburger)

lemma decode_encode:
  "o_pos + length d \<le> cap \<Longrightarrow> decode_loop cap o_pos (base64_encode d) = Some d"
proof (induction d arbitrary: o_pos rule: base64_encode.induct)
  case (1 a b c rest)
  let ?v = "push_bit 16 (ucast a) OR push_bit 8 (ucast b) OR ucast c :: uint32"
  note t = three_bytes[of a b c]
  have IH: "decode_loop cap (o_pos + 3) (base64_encode rest) = Some rest"
    using "1.IH"[OF refl, of "o_pos + 3"] "1.prems" by simp
  show ?case
    using "1.prems" IH decode_group_full(1)[OF t(1) sextet_small sextet_small sextet_small]
      recompose[of ?v] t
    by (subst decode_loop.simps) (simp add: Let_def group_bytes_def)
next
  case (2 a b)
  let ?v = "push_bit 16 (ucast a) OR push_bit 8 (ucast b) :: uint32"
  have t: "unat (drop_bit 18 ?v) < 64" "ucast (drop_bit 16 ?v) = a" "ucast (drop_bit 8 ?v) = b"
    using three_bytes[of a b 0] by simp_all
  have r: "push_bit 18 (drop_bit 18 ?v) OR push_bit 12 (drop_bit 12 ?v AND 0x3F) OR
      push_bit 6 (drop_bit 6 ?v AND 0x3F) OR 0 = ?v"
    using recompose[of ?v] unfolding low_zero .
  show ?case
    using "2.prems" decode_group_full(2)[OF t(1) sextet_small sextet_small, of 0] r t
    by (subst decode_loop.simps) (simp add: Let_def group_bytes_def decode_loop.simps)
next
  case (3 a)
  let ?v = "push_bit 16 (ucast a) :: uint32"
  have t: "unat (drop_bit 18 ?v) < 64" "ucast (drop_bit 16 ?v) = a"
    using three_bytes[of a 0 0] by simp_all
  have r: "push_bit 18 (drop_bit 18 ?v) OR push_bit 12 (drop_bit 12 ?v AND 0x3F) OR
      push_bit 6 0 OR 0 = ?v"
    using recompose[of ?v] unfolding low_zero .
  show ?case
    using "3.prems" decode_group_full(3)[OF t(1) sextet_small, of 0 0] r t
    by (subst decode_loop.simps) (simp add: Let_def group_bytes_def decode_loop.simps)
qed (simp add: decode_loop.simps)
lemma val_None: "val c = None \<longleftrightarrow> c \<notin> set kAlphabet \<and> c \<noteq> CHR ''=''"
proof -
  have "list_all (\<lambda>c. val c = None \<longleftrightarrow> c \<notin> set kAlphabet \<and> c \<noteq> CHR ''='') Enum.enum"
    by code_simp
  then show ?thesis by (simp only: list_all_iff enum_UNIV) simp
qed

lemma not_padding: "CHR ''='' \<notin> set kAlphabet"
  by (simp add: kAlphabet_def)

lemma decode_group_inner:
  "decode_group False j 0 cs =
     (if set cs \<subseteq> set kAlphabet then Some (map (the \<circ> val) cs, 0) else None)"
proof (induction cs arbitrary: j)
  case (Cons c cs)
  show ?case
    using Cons.IH not_padding val_None[of c] by (cases "val c") auto
qed simp

lemma decode_group_last:
  "decode_group True 0 0 [a, b, c, d] = Some (vs, p) \<longrightarrow>
     a \<in> set kAlphabet \<and> b \<in> set kAlphabet \<and>
     (p = 2 \<longleftrightarrow> c = CHR ''='' \<and> d = CHR ''='') \<and> p \<le> 2"
  "a \<in> set kAlphabet \<Longrightarrow> b \<in> set kAlphabet \<Longrightarrow>
     \<exists>vs. decode_group True 0 0 [a, b, CHR ''='', CHR ''=''] = Some (vs, 2)"
  using not_padding val_None[of a] val_None[of b] val_None[of "CHR ''=''"]
  by (auto split: option.splits if_splits)

lemma decode_loop_inner:
  assumes "4 < length ins"
  shows "decode_loop cap o_pos ins \<noteq> None \<longleftrightarrow>
    set (take 4 ins) \<subseteq> set kAlphabet \<and> o_pos + 3 \<le> cap \<and> decode_loop cap (o_pos + 3) (drop 4 ins) \<noteq> None"
  using assms by (subst decode_loop.simps) (auto simp: decode_group_inner)

lemma decode_loop_last:
  "decode_loop cap o_pos [a, b, c, d] \<noteq> None \<and> o_pos + 1 = cap \<longleftrightarrow>
    a \<in> set kAlphabet \<and> b \<in> set kAlphabet \<and> c = CHR ''='' \<and> d = CHR ''='' \<and> o_pos + 1 = cap"
proof (cases "o_pos + 1 = cap")
  case True
  show ?thesis
  proof (cases "decode_group True 0 0 [a, b, c, d]")
    case None
    then show ?thesis
      using decode_group_last(2)[of a b] by (subst decode_loop.simps) auto
  next
    case (Some g)
    obtain vs p where g: "g = (vs, p)" by (cases g)
    have "decode_loop cap o_pos [a, b, c, d] \<noteq> None \<longleftrightarrow> p = 2"
      using True Some g decode_group_last(1)[of a b c d vs p]
      by (subst decode_loop.simps)
         (auto simp: Let_def decode_loop.simps[of _ _ "[]"] simp del: decode_group.simps)
    then show ?thesis
      using True Some g decode_group_last(1)[of a b c d vs p] by auto
  qed
qed simp

lemma length_4: "length xs = 4 \<longleftrightarrow> (\<exists>a b c d. xs = [a, b, c, d])"
  by (auto simp: length_Suc_conv numeral_eq_Suc)

lemma decode_loop_groups:
  "length ins = 4 * k + 4 \<Longrightarrow> decode_loop cap o_pos ins \<noteq> None \<longleftrightarrow>
    set (take (4 * k) ins) \<subseteq> set kAlphabet \<and> (0 < k \<longrightarrow> o_pos + 3 * k \<le> cap) \<and>
    decode_loop cap (o_pos + 3 * k) (drop (4 * k) ins) \<noteq> None"
proof (induction k arbitrary: ins o_pos)
  case (Suc k)
  have t: "take (4 * Suc k) ins = take 4 ins @ take (4 * k) (drop 4 ins)"
    and e: "drop (4 * Suc k) ins = drop (4 * k) (drop 4 ins)" "o_pos + 3 * Suc k = o_pos + 3 + 3 * k"
    by (simp_all add: take_add add.commute)
  have "decode_loop cap o_pos ins \<noteq> None \<longleftrightarrow> set (take 4 ins) \<subseteq> set kAlphabet \<and> o_pos + 3 \<le> cap \<and>
      decode_loop cap (o_pos + 3) (drop 4 ins) \<noteq> None"
    using Suc.prems by (intro decode_loop_inner) simp
  moreover have "decode_loop cap (o_pos + 3) (drop 4 ins) \<noteq> None \<longleftrightarrow>
      set (take (4 * k) (drop 4 ins)) \<subseteq> set kAlphabet \<and> (0 < k \<longrightarrow> o_pos + 3 + 3 * k \<le> cap) \<and>
      decode_loop cap (o_pos + 3 + 3 * k) (drop (4 * k) (drop 4 ins)) \<noteq> None"
    using Suc.prems by (intro Suc.IH) simp
  moreover have "0 < k \<longrightarrow> o_pos + 3 + 3 * k \<le> cap \<Longrightarrow> o_pos + 3 \<le> cap \<longleftrightarrow> o_pos + 3 + 3 * k \<le> cap"
    by auto
  ultimately show ?case unfolding t e set_append Un_subset_iff by blast
qed simp

lemma key_valid_iff:
  "key_valid key \<longleftrightarrow> (\<exists>s. key = s @ ''=='' \<and> length s = 22 \<and> set s \<subseteq> set kAlphabet)"
proof (cases "length key = 24")
  case True
  have "length (drop 20 key) = 4" using True by simp
  then obtain a b c d where tl: "drop 20 key = [a, b, c, d]"
    by (auto simp only: length_4)
  have "key_valid key \<longleftrightarrow> decode_loop 16 0 key \<noteq> None"
    using True by (auto simp: key_valid_def kKeyLen_def base64_decode_def)
  also have "\<dots> \<longleftrightarrow> set (take 20 key) \<subseteq> set kAlphabet \<and> decode_loop 16 15 (drop 20 key) \<noteq> None"
    using decode_loop_groups[of key 5 16 0] True by simp
  also have "\<dots> \<longleftrightarrow> set (take 20 key) \<subseteq> set kAlphabet \<and> a \<in> set kAlphabet \<and> b \<in> set kAlphabet \<and>
      c = CHR ''='' \<and> d = CHR ''=''"
    using decode_loop_last[of 16 15 a b c d] by (simp add: tl del: not_None_eq)
  also have "\<dots> \<longleftrightarrow> (\<exists>s. key = s @ ''=='' \<and> length s = 22 \<and> set s \<subseteq> set kAlphabet)"
  proof -
    define t where "t = take 20 key"
    have k: "key = (t @ [a, b]) @ [c, d]" "length t = 20"
      using tl True append_take_drop_id[of 20 key] by (simp_all add: t_def)
    have "key = s @ ''=='' \<and> length s = 22 \<longleftrightarrow> s = t @ [a, b] \<and> c = CHR ''='' \<and> d = CHR ''=''" for s
      unfolding k(1) using append_eq_append_conv[of "t @ [a, b]" s "[c, d]" "''==''"] k(2) by auto
    then have "(\<exists>s. key = s @ ''=='' \<and> length s = 22 \<and> set s \<subseteq> set kAlphabet) \<longleftrightarrow>
        set (t @ [a, b]) \<subseteq> set kAlphabet \<and> c = CHR ''='' \<and> d = CHR ''=''" by metis
    then show ?thesis by (auto simp: t_def)
  qed
  finally show ?thesis .
next
  case False
  then show ?thesis by (auto simp: key_valid_def kKeyLen_def)
qed
subsection \<open>The handshake messages\<close>

lemma digest_length: "length (digest_bytes h) = 20"
  by (simp add: digest_bytes_def upt_rec)

lemma accept_key_length: "length (accept_key key) = kAcceptLen"
  by (simp add: accept_key_def encode_length sha_final_def digest_length Let_def kAcceptLen_def)

lemma accept_key_spec: "accept_key key = base64_encode (sha1_spec (map u8 (key @ kRfc6455Guid)))"
  using sha_final_spec[OF sha_update_holds[OF sha_update_holds[OF sha_init_holds]]]
  by (simp add: accept_key_def)

lemma random_bytes_length: "random_bytes answers n = Some bs \<Longrightarrow> length bs = n"
proof (induction answers n arbitrary: bs rule: random_bytes.induct)
  case (3 chunk answers len)
  define got where "got = take (Suc len) chunk"
  obtain r where r: "random_bytes answers (Suc len - length got) = Some r" "bs = got @ r"
    using "3.prems" by (auto simp: got_def Let_def)
  have "length got \<le> Suc len" by (simp add: got_def)
  then show ?case using "3.IH"[OF got_def r(1)] r(2) by simp
qed simp_all

lemma kAcceptLen_text: "put_bytes (accept_key key) kAcceptLen = put_text (accept_key key)"
  by (simp add: put_text_def accept_key_length)

lemma frame_handshake_response_writes:
  assumes "\<not> has_crlf sub" "length sub < 2 ^ 32"
  shows "frame_handshake_response key sub b = fold put_text
    ([''HTTP/1.1 101 Switching Protocols'' @ CRLF, ''Upgrade: websocket'' @ CRLF,
      ''Connection: Upgrade'' @ CRLF, ''Sec-WebSocket-Accept'', '': '', accept_key key, CRLF] @
     (if sub = [] then [] else [''Sec-WebSocket-Protocol'', '': '', sub, CRLF]) @ [CRLF]) b"
proof -
  have l: "status_line status_SwitchingProtocols = Some (''HTTP/1.1 101 Switching Protocols'' @ CRLF)"
    by (simp add: status_line_def CORNET_STATUS_MAP_def)
  show ?thesis
    using assms
    by (simp add: frame_handshake_response_def l Let_def put_small put_literals kAcceptLen_text
        kHdrUpgradeWebSocket_def kHdrConnUpgrade_def kSecWebSocketAccept_def kSecWebSocketProtocol_def
        del: append.simps)
qed

lemma base64_decode_encode:
  assumes "d \<noteq> []" "length d \<le> cap"
  shows "base64_decode (base64_encode d) cap = Some d"
proof -
  have "length (base64_encode d) mod 4 = 0" by (simp add: encode_length)
  moreover have "base64_encode d \<noteq> []" using encode_length_pos[OF assms(1)] by auto
  ultimately show ?thesis using decode_encode[of 0 d cap] assms(2) by (simp add: base64_decode_def)
qed

subsection \<open>Properties\<close>

text \<open>(C8) The buffered SHA-1 computes the digest of the concatenation of everything it was fed,
  padded as FIPS 180-1 says to a whole number of 64-byte blocks, however the input was cut
  into pieces.\<close>

theorem sha1_streaming:
  "sha_final (fold sha_update ds sha1_init) = sha1_spec (concat ds) \<and>
   length (sha_pad (concat ds)) mod 64 = 0"
  using sha_final_spec[OF sha_updates_hold[OF sha_init_holds, of ds]] sha_pad_blocks by simp

text \<open>(C10) Base64: decoding inverts encoding for every non-empty input that fits the destination,
  and the encoding takes four characters for every started group of three bytes.\<close>

theorem base64_roundtrip:
  assumes "d \<noteq> []" "length d \<le> cap"
  shows "base64_decode (base64_encode d) cap = Some d \<and>
    length (base64_encode d) = 4 * ((length d + 2) div 3)"
  using base64_decode_encode[OF assms] encode_length by simp

theorem base64_roundtrip_witness:
  "base64_decode (base64_encode [0, 255, 16, 131]) 16 = Some [0, 255, 16, 131]"
  using base64_roundtrip[of "[0, 255, 16, 131]" 16] by simp

text \<open>A key is accepted exactly when it is twenty-two characters of the base64 alphabet
  followed by two padding characters; every key that \<open>make_key\<close> produces is accepted.
  The four unused bits of the last character are not looked at, so that some accepted keys are
  not the encoding of any byte string.\<close>

theorem key_valid_exactly:
  "(key_valid key \<longleftrightarrow> (\<exists>s. key = s @ ''=='' \<and> length s = 22 \<and> set s \<subseteq> set kAlphabet)) \<and>
   (make_key answers = Some key \<longrightarrow> key_valid key) \<and>
   key_valid ''AAAAAAAAAAAAAAAAAAAAAB=='' \<and> base64_encode d \<noteq> ''AAAAAAAAAAAAAAAAAAAAAB==''"
proof (intro conjI impI key_valid_iff notI)
  assume "make_key answers = Some key"
  then obtain nonce where n: "random_bytes answers 16 = Some nonce" "key = base64_encode nonce"
    by (auto simp: make_key_def)
  have len: "length nonce = 16" using random_bytes_length[OF n(1)] .
  then have "nonce \<noteq> []" by auto
  from base64_decode_encode[OF this, of 16] len n(2) show "key_valid key"
    by (simp add: key_valid_def kKeyLen_def encode_length)
next
  show "key_valid ''AAAAAAAAAAAAAAAAAAAAAB==''"
    unfolding key_valid_iff
    by (rule exI[of _ "''AAAAAAAAAAAAAAAAAAAAAB''"]) (simp add: kAlphabet_def)
next
  assume e: "base64_encode d = ''AAAAAAAAAAAAAAAAAAAAAB==''"
  have "decode_loop 18 0 ''AAAAAAAAAAAAAAAAAAAAAB=='' = Some (replicate 16 0)" by code_simp
  moreover have "length d \<le> 18" using encode_length[of d] e by simp
  ultimately have "d = replicate 16 0" using decode_encode[of 0 d 18] e by simp
  moreover have "base64_encode (replicate 16 0) = ''AAAAAAAAAAAAAAAAAAAAAA==''" by code_simp
  ultimately show False using e by simp
qed

theorem key_valid_exactly_witness:
  "key_valid ''AAECAwQFBgcICQoLDA0ODw==''"
proof -
  have "make_key [[0, 1, 2, 3], [], [4, 5, 6, 7, 8, 9, 10, 11, 12, 13, 14, 15, 99]] =
      Some ''AAECAwQFBgcICQoLDA0ODw==''" by code_simp
  with key_valid_exactly show ?thesis by blast
qed

text \<open>The server's answer: unless the buffer failed, the bytes appended are the 101 status
  line, the two constant headers, the accept value (the base64 of the SHA-1 of the key followed by
  the GUID), the subprotocol if there is one, and the blank line; a subprotocol with a CR or LF
  is never written.\<close>

theorem handshake_response_exact:
  assumes "length sub < 2 ^ 32" "\<not> failed (frame_handshake_response key sub b)"
  shows "\<not> has_crlf sub \<and> ob_data (frame_handshake_response key sub b) = ob_data b @
    ''HTTP/1.1 101 Switching Protocols'' @ CRLF @ ''Upgrade: websocket'' @ CRLF @
    ''Connection: Upgrade'' @ CRLF @
    header_line ''Sec-WebSocket-Accept'' (base64_encode (sha1_spec (map u8 (key @ kRfc6455Guid)))) @
    (if sub = [] then [] else header_line ''Sec-WebSocket-Protocol'' sub) @ CRLF"
proof -
  have sub: "\<not> has_crlf sub"
    using assms(2) failed_fail by (auto simp: frame_handshake_response_def split: if_splits)
  let ?ts = "[''HTTP/1.1 101 Switching Protocols'' @ CRLF, ''Upgrade: websocket'' @ CRLF,
      ''Connection: Upgrade'' @ CRLF, ''Sec-WebSocket-Accept'', '': '', accept_key key, CRLF] @
     (if sub = [] then [] else [''Sec-WebSocket-Protocol'', '': '', sub, CRLF]) @ [CRLF]"
  have w: "frame_handshake_response key sub b = fold put_text ?ts b"
    using sub assms(1) by (rule frame_handshake_response_writes)
  have "ob_data (fold put_text ?ts b) = ob_data b @ concat ?ts"
    using assms(2) out.fold_appends[of ?ts b] unfolding w by blast
  then show ?thesis
    unfolding w using sub by (simp add: header_line_def accept_key_spec)
qed

theorem handshake_response_exact_witness:
  "ob_data (frame_handshake_response ''k'' [] (out_reset 4096)) =
    ''HTTP/1.1 101 Switching Protocols'' @ CRLF @ ''Upgrade: websocket'' @ CRLF @
    ''Connection: Upgrade'' @ CRLF @
    header_line ''Sec-WebSocket-Accept'' (base64_encode (sha1_spec (map u8 (''k'' @ kRfc6455Guid)))) @ CRLF"
proof -
  have l: "length (accept_key ''k'') = 28" by (simp add: accept_key_length kAcceptLen_def)
  have "\<not> failed (frame_handshake_response ''k'' [] (out_reset 4096))"
    by (subst frame_handshake_response_writes)
       (simp_all add: has_crlf_def put_text_def put_bytes_def remaining_def ob_size_def out_reset_def
         failed_def l)
  then show ?thesis
    using handshake_response_exact[of "[]" "''k''" "out_reset 4096"] by (simp add: out_reset_def)
qed

end
