(* ===== verification/Ws_Session.thy ===== *)
theory Ws_Session
  imports Ws_Handshake Buffers
begin

text \<open>
  The websocket session (\<^verbatim>\<open>include/cornet/websocket/session.h\<close>,
  \<^verbatim>\<open>src/websocket/session.cc\<close>): sending, the receive loop that turns frames
  into messages, the close handshake and the end of the session.

  A session is a coroutine that suspends in reads and writes.  The peer is the list of the
  results its reads will produce, in order: a run of bytes (no bytes is the end of the stream)
  or an error, with the flag that the deadline fired; an exhausted list is a read that never
  completes, the outcome \<open>Blocked\<close>.  The writes succeed or fail as the list of their
  results says and the successful ones are logged with the opcode of the frame.  The receive
  window is a header buffer in the code; here it is its capacity, its read position and its
  unread bytes.  The allocator's answer to growing the message buffer is the parameter
  \<open>alloc\<close>.

  The lemmas show that the receive loop ends on every finite input, that a message comes
  out of the receive loop exactly as it was sent however the stream is cut into reads, that
  nothing but a pong follows a close frame, that the masking keys are never zero, and two
  inputs on which messages are not delivered as they were sent.
\<close>

datatype state_t = Open | CloseSent | CloseReceived

datatype recv_event = Bytes bytes | RecvErr error_t bool

record session_options =
  max_message_bytes :: uint64
  recv_buffer_bytes :: uint32

record session =
  s_role :: role_t
  s_dec :: frame_decoder_t
  s_cap :: nat
  s_r :: nat
  s_win :: bytes
  s_msg :: bytes
  s_msg_cap :: nat
  s_cur :: frame_t
  s_frame_open :: bool
  s_remaining :: uint64
  s_frag_opcode :: opcode_t
  s_fragment_open :: bool
  s_state :: state_t
  s_closing :: bool
  s_close_wait :: bool
  s_finished :: bool
  s_seed :: uint32
  s_protocol_errors :: nat
  s_fired :: bool
  s_input :: "recv_event list"
  s_wres :: "error_t option list"
  s_out :: "(opcode_t \<times> bytes) list"

subsection \<open>Messages\<close>

definition close_code :: "opcode_t \<Rightarrow> bytes \<Rightarrow> close_code_t" where
  "close_code op payload =
    (if op \<noteq> Close then close_NoStatus
     else if length payload < 2 then close_NoStatus
     else push_bit 8 (ucast (payload ! 0)) OR ucast (payload ! 1))"

definition close_reason :: "opcode_t \<Rightarrow> bytes \<Rightarrow> bytes" where
  "close_reason op payload = (if op \<noteq> Close \<or> length payload \<le> 2 then [] else drop 2 payload)"

subsection \<open>Construction\<close>

text \<open>The draws of \<^verbatim>\<open>random_bytes\<close> until one is not zero; \<open>None\<close> when the given
  ones are all zero.\<close>

fun draw_seed :: "uint32 list \<Rightarrow> uint32 option" where
  "draw_seed [] = None"
| "draw_seed (d # ds) = (if d = 0 then draw_seed ds else Some d)"

text \<open>The receive window has the capacity of the block the pool lends: a class size, or the
  exact number of bytes above the largest class.\<close>

definition pool_cap :: "nat \<Rightarrow> nat" where
  "pool_cap n = (case class_of (of_nat n) of None \<Rightarrow> n | Some c \<Rightarrow> unat (kClassSize ! c))"

definition session_init :: "role_t \<Rightarrow> session_options \<Rightarrow> bytes \<Rightarrow> uint32 \<Rightarrow> recv_event list \<Rightarrow> error_t option list \<Rightarrow> session" where
  "session_init role opt leftover seed input wres =
    \<lparr>s_role = role, s_dec = frame_decoder role,
     s_cap = pool_cap (max (unat (recv_buffer_bytes opt)) (length leftover)), s_r = 0, s_win = leftover,
     s_msg = [], s_msg_cap = 0, s_cur = frame_init, s_frame_open = False, s_remaining = 0,
     s_frag_opcode = Continue, s_fragment_open = False, s_state = Open, s_closing = False,
     s_close_wait = False, s_finished = False, s_seed = (if role = Client then seed else 0),
     s_protocol_errors = 0, s_fired = False, s_input = input, s_wres = wres, s_out = []\<rparr>"

definition is_open :: "session \<Rightarrow> bool" where
  "is_open s \<longleftrightarrow> s_state s = Open \<and> \<not> s_finished s"


subsection \<open>Reads and writes\<close>

datatype fill_result = Got nat | FillErr error_t | Pending

definition timeout_error :: error_t where
  "timeout_error = error_code ETIMEDOUT System"

definition fill :: "session \<Rightarrow> fill_result \<times> session" where
  "fill s =
    (let s = (if s_cap s \<le> s_r s + length (s_win s) then s\<lparr>s_r := 0\<rparr> else s);
         w = s_cap s - (s_r s + length (s_win s)) in
     if w = 0 then (FillErr (error_code 7 System), s)
     else (case s_input s of
         [] \<Rightarrow> (Pending, s)
       | RecvErr e f # rest \<Rightarrow>
           let s = s\<lparr>s_input := rest, s_fired := s_fired s \<or> f\<rparr> in
           (FillErr (if s_fired s then timeout_error else e), s)
       | Bytes b # rest \<Rightarrow>
           (Got (min w (length b)),
            s\<lparr>s_win := s_win s @ take w b,
              s_input := (if length b \<le> w then rest else Bytes (drop w b) # rest)\<rparr>)))"

definition consume_in :: "nat \<Rightarrow> session \<Rightarrow> session" where
  "consume_in n s = s\<lparr>s_r := s_r s + n, s_win := drop n (s_win s)\<rparr>"

definition writev_span :: "opcode_t \<Rightarrow> bytes \<Rightarrow> session \<Rightarrow> unit expected \<times> session" where
  "writev_span op bs s = (case s_wres s of
      Some e # rest \<Rightarrow> (Inl e, s\<lparr>s_wres := rest\<rparr>)
    | None # rest \<Rightarrow> (Inr (), s\<lparr>s_wres := rest, s_out := s_out s @ [(op, bs)]\<rparr>)
    | [] \<Rightarrow> (Inr (), s\<lparr>s_out := s_out s @ [(op, bs)]\<rparr>))"

subsection \<open>Masking keys\<close>

definition xorshift32 :: "uint32 \<Rightarrow> uint32" where
  "xorshift32 x =
    (let x = x XOR push_bit 13 x; x = x XOR drop_bit 17 x in x XOR push_bit 5 x)"

partial_function (option) mask_loop :: "uint32 \<Rightarrow> uint32 option" where
  "mask_loop x = (let y = xorshift32 x in if y = 0 then mask_loop y else Some y)"

declare mask_loop.simps [code]

definition next_mask_key :: "session \<Rightarrow> (uint32 \<times> session) option" where
  "next_mask_key s = map_option (\<lambda>x. (x, s\<lparr>s_seed := x\<rparr>)) (mask_loop (s_seed s))"

subsection \<open>Sending\<close>

text \<open>The key of the next frame: drawn by a client, zero for a server.  A client whose generator
  never leaves zero stays in the loop; that is \<open>None\<close>, and excluded below for every session
  whose seed is not zero.\<close>

definition frame_key :: "session \<Rightarrow> (uint32 \<times> session) option" where
  "frame_key s = (if s_role s = Client then next_mask_key s else Some (0, s))"

definition frame_wire :: "uint32 \<Rightarrow> opcode_t \<Rightarrow> bytes \<Rightarrow> bytes" where
  "frame_wire key op payload = write_frame_header True op (of_nat (length payload)) key @
     (if key \<noteq> 0 then apply_mask key payload 0 else payload)"

definition loops_forever :: error_t where
  "loops_forever = error_code 0 DomNone"

definition send :: "(nat \<Rightarrow> bool) \<Rightarrow> bytes \<Rightarrow> opcode_t \<Rightarrow> session \<Rightarrow> unit expected \<times> session" where
  "send alloc payload op s =
    (if \<not> opcode_is_data op then (websocket_unexpected InvalidOpcode, s)
     else if s_state s \<noteq> Open then (websocket_unexpected Closed, s)
     else (case frame_key s of
         None \<Rightarrow> (Inl loops_forever, s)
       | Some (key, s) \<Rightarrow>
           if s_role s = Client \<and> payload \<noteq> [] \<and> \<not> alloc (length payload) then (sys_unexpected ENOMEM, s)
           else writev_span op (frame_wire key op payload) s))"

definition send_control :: "opcode_t \<Rightarrow> bytes \<Rightarrow> session \<Rightarrow> unit expected \<times> session" where
  "send_control op payload s =
    (let payload = take (unat kMaxControlPayload) payload in
     (case frame_key s of
        None \<Rightarrow> (Inl loops_forever, s)
      | Some (key, s) \<Rightarrow> writev_span op (frame_wire key op payload) s))"


definition close_session :: "close_code_t \<Rightarrow> bytes \<Rightarrow> session \<Rightarrow> unit expected \<times> session" where
  "close_session c reason s =
    (if s_state s \<noteq> Open then (Inr (), s)
     else if c = close_NoStatus \<or> c = close_Abnormal \<or> \<not> close_code_valid c
     then (websocket_unexpected InvalidCloseCode, s)
     else (case send_control Close ([ucast (drop_bit 8 c), ucast c] @ take (unat kMaxControlPayload - 2) reason) s of
         (Inl e, s) \<Rightarrow> (Inl e, s)
       | (Inr _, s) \<Rightarrow> (Inr (), s\<lparr>s_state := CloseSent\<rparr>)))"

subsection \<open>Receiving\<close>

datatype outcome = Msg opcode_t bytes | Err error_t | Blocked

text \<open>The outcome of a part of the loop body: leave the loop, go round again, or fall through to
  the next part.\<close>

datatype iter = Ret outcome session | Again session | Fall session

definition fail_protocol :: "websocket_error_t \<Rightarrow> close_code_t \<Rightarrow> session \<Rightarrow> iter" where
  "fail_protocol err c s =
    (let s = s\<lparr>s_protocol_errors := s_protocol_errors s + 1\<rparr>;
         s = (if s_state s = Open \<and> \<not> s_fired s then snd (close_session c [] s) else s) in
     Ret (Err (websocket_error err)) s)"

definition wait_more :: "session \<Rightarrow> iter" where
  "wait_more s = (case fill s of
      (Pending, s) \<Rightarrow> Ret Blocked s
    | (FillErr e, s) \<Rightarrow> Ret (Err e) s
    | (Got n, s) \<Rightarrow> if n = 0 then Ret (Err (error_code ECONNRESET System)) s else Again s)"

definition open_frame :: "frame_t \<Rightarrow> session \<Rightarrow> iter" where
  "open_frame f s =
    Fall ((consume_in (header_len f) s)\<lparr>s_cur := f, s_remaining := payload_len f, s_frame_open := True\<rparr>)"

definition message_rules :: "session_options \<Rightarrow> frame_t \<Rightarrow> session \<Rightarrow> iter" where
  "message_rules opt f s =
    (if opcode_is_data (opcode f) then
       if s_fragment_open s then fail_protocol ContinuationExpected close_ProtocolError s
       else if payload_len f > max_message_bytes opt then fail_protocol MessageTooLarge close_MessageTooBig s
       else open_frame f (s\<lparr>s_msg := []\<rparr>)
     else if opcode f = Continue then
       if \<not> s_fragment_open s then fail_protocol ContinuationUnexpected close_ProtocolError s
       else if length (s_msg s) + unat (payload_len f) > unat (max_message_bytes opt)
       then fail_protocol MessageTooLarge close_MessageTooBig s
       else open_frame f s
     else open_frame f s)"

definition parse_frame :: "session_options \<Rightarrow> session \<Rightarrow> iter" where
  "parse_frame opt s =
    (if s_frame_open s then Fall s
     else (case parse (s_dec s) (s_win s) frame_init of
         (NeedMore, d, _) \<Rightarrow> wait_more (s\<lparr>s_dec := d\<rparr>)
       | (Frame, d, f) \<Rightarrow> message_rules opt f (s\<lparr>s_dec := d\<rparr>)
       | (Error, d, _) \<Rightarrow>
           let s = s\<lparr>s_dec := d\<rparr>; err = dec_err d in
           if domain err = Websocket then
             (case websocket_error_of (code err) of
                Some e \<Rightarrow> fail_protocol e (if e = MessageTooLarge then close_MessageTooBig else close_ProtocolError) s
              | None \<Rightarrow> Ret (Err err) s)
           else Ret (Err err) s))"

definition unmasked :: "frame_t \<Rightarrow> bytes \<Rightarrow> uint64 \<Rightarrow> bytes" where
  "unmasked f bs off = (if masked f then apply_mask (mask_key f) bs off else bs)"

definition close_frame :: "bytes \<Rightarrow> session \<Rightarrow> iter" where
  "close_frame payload s =
    (if length payload = 1 then fail_protocol InvalidCloseCode close_ProtocolError s
     else if length payload \<ge> 2 \<and> \<not> close_code_valid (push_bit 8 (ucast (payload ! 0)) OR ucast (payload ! 1))
     then fail_protocol InvalidCloseCode close_ProtocolError s
     else
       let echo_needed = (s_state s = Open); s = s\<lparr>s_state := CloseReceived\<rparr> in
       if echo_needed then
         (case send_control Close payload s of
            (Inl e, s) \<Rightarrow> Ret (Err e) s
          | (Inr _, s) \<Rightarrow> Ret (Msg Close payload) s)
       else Ret (Msg Close payload) s)"

definition control_payload :: "session \<Rightarrow> iter" where
  "control_payload s =
    (if length (s_win s) < unat (s_remaining s) then wait_more s
     else
       let payload = unmasked (s_cur s) (take (unat (s_remaining s)) (s_win s)) (payload_len (s_cur s) - s_remaining s);
           s = (consume_in (unat (s_remaining s)) s)\<lparr>s_remaining := 0, s_frame_open := False\<rparr> in
       (case opcode (s_cur s) of
          Ping \<Rightarrow>
            (case send_control Pong payload s of
               (Inl e, s) \<Rightarrow> Ret (Err e) s
             | (Inr _, s) \<Rightarrow> Again s)
        | Pong \<Rightarrow> Again s
        | Close \<Rightarrow> close_frame payload s
        | _ \<Rightarrow> Ret (Err (websocket_error InvalidOpcode)) s))"

text \<open>Growing the message buffer to \<open>n\<close> bytes and appending to it.\<close>

definition msg_append :: "(nat \<Rightarrow> bool) \<Rightarrow> nat \<Rightarrow> bytes \<Rightarrow> session \<Rightarrow> session option" where
  "msg_append alloc n part s =
    (if n \<le> s_msg_cap s then Some (s\<lparr>s_msg := s_msg s @ part\<rparr>)
     else if alloc n then Some (s\<lparr>s_msg_cap := pool_cap n, s_msg := s_msg s @ part\<rparr>)
     else None)"

definition frame_complete :: "(nat \<Rightarrow> bool) \<Rightarrow> bool \<Rightarrow> bool \<Rightarrow> bytes \<Rightarrow> session \<Rightarrow> iter" where
  "frame_complete alloc deliver direct part s =
    (let op = (if s_fragment_open s then s_frag_opcode s else opcode (s_cur s));
         payload = (if direct then part else s_msg s);
         s = s\<lparr>s_frame_open := False, s_fragment_open := (if direct then s_fragment_open s else False)\<rparr> in
     if \<not> fin (s_cur s) then
       let s = (if \<not> s_fragment_open s then s\<lparr>s_fragment_open := True, s_frag_opcode := opcode (s_cur s)\<rparr> else s) in
       if direct then
         (case msg_append alloc (length part) part s of
            None \<Rightarrow> Ret (Err (error_code ENOMEM System)) s
          | Some s \<Rightarrow> Again s)
       else Again s
     else if \<not> deliver then Again s
     else Ret (Msg op payload) s)"

text \<open>A run of a data frame: stored unless it is the whole message, consumed, and the frame completed
  when nothing remains.\<close>

definition run_done :: "(nat \<Rightarrow> bool) \<Rightarrow> bool \<Rightarrow> nat \<Rightarrow> bool \<Rightarrow> bytes \<Rightarrow> session \<Rightarrow> iter" where
  "run_done alloc deliver run direct part s =
    (let s = (consume_in run s)\<lparr>s_remaining := s_remaining s - of_nat run\<rparr> in
     if s_remaining s > 0 then Again s else frame_complete alloc deliver direct part s)"

definition take_run :: "(nat \<Rightarrow> bool) \<Rightarrow> bool \<Rightarrow> nat \<Rightarrow> bool \<Rightarrow> bytes \<Rightarrow> session \<Rightarrow> iter" where
  "take_run alloc deliver run direct part s =
    (case (if direct then Some s else msg_append alloc (length (s_msg s) + run) part s) of
       None \<Rightarrow> Ret (Err (error_code ENOMEM System)) s
     | Some s \<Rightarrow> run_done alloc deliver run direct part s)"

definition data_payload :: "(nat \<Rightarrow> bool) \<Rightarrow> bool \<Rightarrow> session \<Rightarrow> iter" where
  "data_payload alloc deliver s =
    (if s_win s = [] then wait_more s
     else
       let run = min (length (s_win s)) (unat (s_remaining s)) in
       take_run alloc deliver run (\<not> s_fragment_open s \<and> run = unat (payload_len (s_cur s)))
         (unmasked (s_cur s) (take run (s_win s)) (payload_len (s_cur s) - s_remaining s)) s)"

definition step_iter :: "(nat \<Rightarrow> bool) \<Rightarrow> session_options \<Rightarrow> bool \<Rightarrow> session \<Rightarrow> iter" where
  "step_iter alloc opt deliver s = (case parse_frame opt s of
      Fall s \<Rightarrow> if opcode_is_control (opcode (s_cur s)) then control_payload s else data_payload alloc deliver s
    | r \<Rightarrow> r)"

definition event_size :: "recv_event \<Rightarrow> nat" where
  "event_size e = (case e of Bytes b \<Rightarrow> Suc (length b) | RecvErr _ _ \<Rightarrow> 1)"

definition input_size :: "session \<Rightarrow> nat" where
  "input_size s = sum_list (map event_size (s_input s))"

function step :: "(nat \<Rightarrow> bool) \<Rightarrow> session_options \<Rightarrow> bool \<Rightarrow> session \<Rightarrow> outcome \<times> session" where
  "step alloc opt deliver s = (case step_iter alloc opt deliver s of
      Ret r s \<Rightarrow> (r, s)
    | Again s \<Rightarrow> step alloc opt deliver s
    | Fall s \<Rightarrow> (Blocked, s))"
  by pat_completeness auto

text \<open>What the loop consumes: input, then the window, then the open frame.\<close>

definition step_order :: "(session \<times> session) set" where
  "step_order = measures [input_size, \<lambda>s. length (s_win s), \<lambda>s. if s_frame_open s then 1 else 0]"

lemma step_order_wf: "wf step_order"
  by (simp add: step_order_def)

lemma step_order_iff:
  "(t, s) \<in> step_order \<longleftrightarrow> input_size t < input_size s \<or> input_size t = input_size s \<and>
    (length (s_win t) < length (s_win s) \<or> length (s_win t) = length (s_win s) \<and> \<not> s_frame_open t \<and> s_frame_open s)"
  by (auto simp: step_order_def)

text \<open>The parts of a session that sending does not touch.\<close>

definition same_reader :: "session \<Rightarrow> session \<Rightarrow> bool" where
  "same_reader s t \<longleftrightarrow> s_input t = s_input s \<and> s_win t = s_win s \<and> s_frame_open t = s_frame_open s \<and>
    s_cur t = s_cur s \<and> s_remaining t = s_remaining s \<and> s_msg t = s_msg s \<and>
    s_fragment_open t = s_fragment_open s \<and> s_frag_opcode t = s_frag_opcode s \<and> s_dec t = s_dec s \<and>
    s_cap t = s_cap s \<and> s_r t = s_r s \<and> s_role t = s_role s"

lemma writev_span_reader [framing]: "writev_span op bs s = (r, t) \<Longrightarrow> same_reader s t"
  by (auto simp: writev_span_def same_reader_def split: list.splits option.splits)

lemma frame_key_reader [framing]: "frame_key s = Some (k, t) \<Longrightarrow> same_reader s t"
  by (auto simp: frame_key_def next_mask_key_def same_reader_def split: if_splits)

lemma same_reader_trans: "same_reader s t \<Longrightarrow> same_reader t u \<Longrightarrow> same_reader s u"
  by (simp add: same_reader_def)

lemma same_reader_refl [simp]: "same_reader s s"
  by (simp add: same_reader_def)

lemma send_control_reader [framing]: "send_control op p s = (r, t) \<Longrightarrow> same_reader s t"
  by (auto simp: send_control_def Let_def dest: framing intro: same_reader_trans split: option.splits)

lemma wait_more_decreases: "wait_more s = Again t \<Longrightarrow> input_size t < input_size s"
  by (auto simp: wait_more_def fill_def Let_def input_size_def event_size_def
    split: fill_result.splits list.splits recv_event.splits if_splits)

lemma wait_more_not_Fall [simp]: "wait_more s \<noteq> Fall t"
  by (auto simp: wait_more_def split: fill_result.splits if_splits prod.splits)

lemma fail_protocol_Ret [simp]: "fail_protocol e c s \<noteq> Again t" "fail_protocol e c s \<noteq> Fall t"
  by (simp_all add: fail_protocol_def Let_def)

lemma input_size_cong: "s_input t = s_input s \<Longrightarrow> input_size t = input_size s"
  by (simp add: input_size_def)

lemma parse_frame_Again: "parse_frame opt s = Again t \<Longrightarrow> input_size t < input_size s"
  by (auto simp: parse_frame_def message_rules_def open_frame_def Let_def dest!: wait_more_decreases
    split: if_splits prod.splits result_t.splits option.splits) (simp add: input_size_def)

lemma parse_frame_Fall:
  assumes "parse_frame opt s = Fall t"
  shows "s_input t = s_input s \<and> s_frame_open t \<and>
    (if s_frame_open s then t = s else length (s_win t) < length (s_win s))"
proof (cases "s_frame_open s")
  case True
  then show ?thesis using assms by (simp add: parse_frame_def)
next
  case False
  obtain d f where p: "parse (s_dec s) (s_win s) frame_init = (Frame, d, f)" "message_rules opt f (s\<lparr>s_dec := d\<rparr>) = Fall t"
    using assms False by (auto simp: parse_frame_def Let_def split: prod.splits result_t.splits if_splits option.splits)
  have "parse_header (dec_role (s_dec s)) (s_win s) = Done f"
    using p(1) by (auto simp: parse_def split: if_splits partial.splits)
  from header_len_bounds[OF this] have h: "2 \<le> header_len f" "header_len f \<le> length (s_win s)" by simp_all
  then show ?thesis
    using p(2) False by (auto simp: message_rules_def open_frame_def consume_in_def split: if_splits)
qed

lemma control_payload_Again:
  assumes "control_payload s = Again t"
  shows "input_size t < input_size s \<or> s_input t = s_input s \<and> length (s_win t) \<le> length (s_win s) \<and> \<not> s_frame_open t"
proof (cases "length (s_win s) < unat (s_remaining s)")
  case True
  then show ?thesis using assms wait_more_decreases by (simp add: control_payload_def)
next
  case False
  then show ?thesis
    using assms by (auto simp: control_payload_def close_frame_def Let_def same_reader_def consume_in_def
      dest!: send_control_reader split: opcode_t.splits if_splits sum.splits prod.splits)
qed

lemma msg_append_reader:
  "msg_append alloc n part s = Some t \<Longrightarrow> s_input t = s_input s \<and> s_win t = s_win s \<and>
    s_frame_open t = s_frame_open s \<and> s_remaining t = s_remaining s \<and> s_cur t = s_cur s"
  by (auto simp: msg_append_def split: if_splits)

lemma frame_complete_Again:
  "frame_complete alloc deliver direct part s = Again t \<Longrightarrow>
    s_input t = s_input s \<and> s_win t = s_win s \<and> \<not> s_frame_open t"
  by (auto simp: frame_complete_def Let_def msg_append_def split: if_splits option.splits)

lemma take_run_Again:
  assumes "take_run alloc deliver run direct part s = Again t" "run \<noteq> 0 \<or> s_remaining s = 0" "run \<le> length (s_win s)"
  shows "s_input t = s_input s \<and>
    (length (s_win t) < length (s_win s) \<or> length (s_win t) \<le> length (s_win s) \<and> \<not> s_frame_open t)"
proof -
  obtain s1 where s1: "s_input s1 = s_input s" "s_win s1 = s_win s" "s_remaining s1 = s_remaining s"
    and r: "run_done alloc deliver run direct part s1 = Again t"
    using assms(1) by (auto simp: take_run_def dest: msg_append_reader split: if_splits option.splits)
  define s2 where "s2 = (consume_in run s1)\<lparr>s_remaining := s_remaining s1 - of_nat run\<rparr>"
  have t: "(if s_remaining s2 > 0 then Again s2 else frame_complete alloc deliver direct part s2) = Again t"
    using r unfolding run_done_def Let_def s2_def .
  have w: "s_input s2 = s_input s" "s_win s2 = drop run (s_win s)" using s1 by (simp_all add: s2_def consume_in_def)
  show ?thesis
  proof (cases "s_remaining s2 > 0")
    case True
    then have "run \<noteq> 0" using assms(2) s1(3) by (cases "run = 0") (auto simp: s2_def)
    then show ?thesis using True t w assms(3) by auto
  next
    case f: False
    then show ?thesis using t w frame_complete_Again[of alloc deliver direct part s2 t] by simp
  qed
qed

lemma data_payload_Again:
  assumes "data_payload alloc deliver s = Again t"
  shows "input_size t < input_size s \<or> s_input t = s_input s \<and>
    (length (s_win t) < length (s_win s) \<or> length (s_win t) \<le> length (s_win s) \<and> \<not> s_frame_open t)"
proof (cases "s_win s = []")
  case True
  then show ?thesis using assms wait_more_decreases by (simp add: data_payload_def)
next
  case False
  let ?run = "min (length (s_win s)) (unat (s_remaining s))"
  have "?run \<noteq> 0 \<or> s_remaining s = 0" using False unsigned_eq_0_iff[of "s_remaining s", where ?'a = nat] by (auto simp: min_def)
  then show ?thesis using assms False take_run_Again[of alloc deliver ?run] by (simp add: data_payload_def Let_def)
qed

lemma step_iter_decreases:
  assumes "step_iter alloc opt deliver s = Again t"
  shows "(t, s) \<in> step_order"
proof (cases "parse_frame opt s")
  case (Again u)
  then show ?thesis using assms parse_frame_Again by (auto simp: step_iter_def step_order_iff)
next
  case (Fall u)
  note u = parse_frame_Fall[OF Fall]
  have "control_payload u = Again t \<or> data_payload alloc deliver u = Again t"
    using assms Fall by (auto simp: step_iter_def split: if_splits)
  then have "input_size t < input_size u \<or> s_input t = s_input u \<and>
    (length (s_win t) < length (s_win u) \<or> length (s_win t) \<le> length (s_win u) \<and> \<not> s_frame_open t)"
    using control_payload_Again data_payload_Again by blast
  then show ?thesis
    using u input_size_cong[of u s] input_size_cong[of t u] by (auto simp: step_order_iff split: if_splits)
qed (use assms in \<open>simp add: step_iter_def\<close>)

termination step
  by (relation "inv_image step_order (\<lambda>(a, p, d, s). s)")
    (simp_all add: step_order_wf step_iter_decreases)

declare step.simps [simp del]

definition recv :: "(nat \<Rightarrow> bool) \<Rightarrow> session_options \<Rightarrow> session \<Rightarrow> outcome \<times> session" where
  "recv alloc opt s =
    (if s_state s = CloseReceived \<or> s_finished s then (Err (websocket_error Closed), s)
     else step alloc opt True s)"

subsection \<open>The end of a session\<close>


lemma frame_key_state: "frame_key s = Some (k, t) \<Longrightarrow> s_state t = s_state s \<and> s_out t = s_out s \<and> s_wres t = s_wres s"
  by (auto simp: frame_key_def next_mask_key_def split: if_splits)


lemma no_message [simp]: "wait_more s \<noteq> Ret (Msg op p) t" "fail_protocol e c s \<noteq> Ret (Msg op p) t"
  "parse_frame opt s \<noteq> Ret (Msg op p) t"
proof -
  show w: "wait_more s \<noteq> Ret (Msg op p) t" for s
    by (auto simp: wait_more_def split: fill_result.splits if_splits prod.splits)
  show f: "fail_protocol e c s \<noteq> Ret (Msg op p) t" for e c s by (simp add: fail_protocol_def Let_def)
  show "parse_frame opt s \<noteq> Ret (Msg op p) t"
    using w f by (auto simp: parse_frame_def message_rules_def open_frame_def Let_def
      split: prod.splits result_t.splits if_splits option.splits)
qed









subsection \<open>Masking keys are never zero\<close>

lemma xor_shift_left_zero:
  assumes "x XOR push_bit k x = (0 :: 'a::len word)" "0 < k"
  shows "x = 0"
proof (rule bit_word_eqI)
  fix i assume "i < LENGTH('a)"
  have "\<not> bit x i" for i
  proof (induction i rule: less_induct)
    case (less i)
    have "bit (x XOR push_bit k x) i = False" using assms(1) by simp
    then have "bit x i \<longleftrightarrow> k \<le> i \<and> i < LENGTH('a) \<and> bit x (i - k)"
      using bit_imp_le_length[of x i] by (auto simp: bit_xor_iff bit_push_bit_iff)
    then show ?case using less[of "i - k"] assms(2) by auto
  qed
  then show "bit x i = bit 0 i" by simp
qed

lemma xor_shift_right_zero:
  assumes "x XOR drop_bit k x = (0 :: 'a::len word)" "0 < k"
  shows "x = 0"
proof (rule bit_word_eqI)
  fix i assume "i < LENGTH('a)"
  have "\<not> bit x i" for i
  proof (induction "LENGTH('a) - i" arbitrary: i rule: less_induct)
    case (less i)
    show ?case
    proof (cases "i < LENGTH('a)")
      case True
      have "bit (x XOR drop_bit k x) i = False" using assms(1) by simp
      then have "bit x i = bit x (k + i)" by (auto simp: bit_xor_iff bit_drop_bit_eq)
      then show ?thesis using less[of "k + i"] assms(2) True by auto
    qed (auto dest: bit_imp_le_length)
  qed
  then show "bit x i = bit 0 i" by simp
qed

lemma xorshift32_nonzero: "x \<noteq> 0 \<Longrightarrow> xorshift32 x \<noteq> 0"
proof -
  assume "x \<noteq> 0"
  then have y: "x XOR push_bit 13 x \<noteq> 0" using xor_shift_left_zero[of x 13] by auto
  define y where "y = x XOR push_bit 13 x"
  have z: "y XOR drop_bit 17 y \<noteq> 0" using y xor_shift_right_zero[of y 17] by (auto simp: y_def)
  define z where "z = y XOR drop_bit 17 y"
  have "z XOR push_bit 5 z \<noteq> 0" using z xor_shift_left_zero[of z 5] by (auto simp: z_def)
  then show ?thesis by (simp add: xorshift32_def Let_def y_def z_def)
qed

lemma mask_loop_once: "x \<noteq> 0 \<Longrightarrow> mask_loop x = Some (xorshift32 x)"
  using xorshift32_nonzero[of x] by (subst mask_loop.simps) (simp add: Let_def)

text \<open>A session has a usable generator: a client's seed is not zero.\<close>

definition seeded :: "session \<Rightarrow> bool" where
  "seeded s \<longleftrightarrow> s_role s = Client \<longrightarrow> s_seed s \<noteq> 0"

lemma frame_key_seeded:
  assumes "seeded s"
  obtains k t where "frame_key s = Some (k, t)" "k \<noteq> 0 \<longleftrightarrow> s_role s = Client" "seeded t"
proof (cases "s_role s = Client")
  case True
  then show thesis
    using assms that[of "xorshift32 (s_seed s)" "s\<lparr>s_seed := xorshift32 (s_seed s)\<rparr>"] xorshift32_nonzero
    by (simp add: frame_key_def next_mask_key_def seeded_def mask_loop_once)
next
  case False
  then show thesis using assms that[of 0 s] by (simp add: frame_key_def)
qed

subsection \<open>Messages arrive as they were sent\<close>

definition event_bytes :: "recv_event \<Rightarrow> bytes" where
  "event_bytes e = (case e of Bytes b \<Rightarrow> b | RecvErr _ _ \<Rightarrow> [])"

definition future :: "session \<Rightarrow> bytes" where
  "future s = concat (map event_bytes (s_input s))"

definition clean :: "session \<Rightarrow> bool" where
  "clean s \<longleftrightarrow> (\<forall>e \<in> set (s_input s). \<exists>b. e = Bytes b \<and> b \<noteq> [])"

text \<open>The reader is well formed: a working decoder for the peer's kind of frames, a window
  that fits any header, and the stream \<open>D\<close> in the window and the reads to come.\<close>

definition reader :: "role_t \<Rightarrow> bytes \<Rightarrow> session \<Rightarrow> bool" where
  "reader role D s \<longleftrightarrow> \<not> error_truthy (dec_err (s_dec s)) \<and> dec_role (s_dec s) = role \<and> clean s \<and>
     14 \<le> s_cap s \<and> s_r s + length (s_win s) \<le> s_cap s \<and> s_win s @ future s = D"

text \<open>What reading changes.\<close>

definition read_only :: "session \<Rightarrow> session \<Rightarrow> bool" where
  "read_only s t \<longleftrightarrow> (\<exists>r w i. t = s\<lparr>s_r := r, s_win := w, s_input := i\<rparr>)"

lemma wait_more_reads:
  assumes "reader role D s" "length (s_win s) < s_cap s" "future s \<noteq> []"
  shows "\<exists>t. wait_more s = Again t \<and> reader role D t \<and> read_only s t"
proof -
  define s1 where "s1 = (if s_cap s \<le> s_r s + length (s_win s) then s\<lparr>s_r := 0\<rparr> else s)"
  have s1: "s_win s1 = s_win s" "s_input s1 = s_input s" "s_cap s1 = s_cap s"
    "s_r s1 + length (s_win s) < s_cap s" "\<exists>r. s1 = s\<lparr>s_r := r\<rparr>"
    using assms(2) by (auto simp: s1_def) (rule exI[of _ "s_r s"], simp)
  obtain b rest where i: "s_input s = Bytes b # rest" "b \<noteq> []"
    using assms(1,3) by (cases "s_input s") (auto simp: reader_def clean_def future_def)
  define w where "w = s_cap s - (s_r s1 + length (s_win s))"
  have w: "0 < w" using s1(4) by (simp add: w_def)
  define t where "t = s1\<lparr>s_win := s_win s @ take w b, s_input := (if length b \<le> w then rest else Bytes (drop w b) # rest)\<rparr>"
  have "fill s = (Got (min w (length b)), t)"
    using w i s1 unfolding fill_def s1_def[symmetric] Let_def by (simp add: t_def w_def)
  then have "wait_more s = Again t" using w i(2) by (simp add: wait_more_def)
  moreover have "reader role D t"
    using assms(1) i s1 w by (auto simp: reader_def t_def clean_def future_def event_bytes_def w_def)
  moreover have "read_only s t" using s1(5) by (auto simp: read_only_def t_def)
  ultimately show ?thesis by blast
qed

abbreviation peer_role :: "uint32 \<Rightarrow> role_t" where
  "peer_role key \<equiv> if key \<noteq> 0 then Server else Client"

definition wire_frame :: "uint32 \<Rightarrow> opcode_t \<Rightarrow> nat \<Rightarrow> frame_t" where
  "wire_frame key op n = \<lparr>fin = True, opcode = op, payload_len = of_nat n, masked = (key \<noteq> 0), mask_key = key,
     header_len = length (write_frame_header True op (of_nat n) key)\<rparr>"

definition wire_payload :: "uint32 \<Rightarrow> bytes \<Rightarrow> bytes" where
  "wire_payload key p = (if key \<noteq> 0 then apply_mask key p 0 else p)"

lemma frame_wire_parts: "frame_wire key op p = write_frame_header True op (of_nat (length p)) key @ wire_payload key p"
  by (simp add: frame_wire_def wire_payload_def)

lemma apply_mask_length [simp]: "length (apply_mask key p off) = length p"
  by (simp add: apply_mask_spec)

lemma wire_payload_length [simp]: "length (wire_payload key p) = length p"
  by (simp add: wire_payload_def)

lemma unmasked_run:
  assumes "length p < 2 ^ 32"
  shows "unmasked (wire_frame key op n) (take r (drop k (wire_payload key p))) (of_nat k) = take r (drop k p)"
proof (cases "key = 0 \<or> length p \<le> k")
  case True
  then show ?thesis by (auto simp: unmasked_def wire_frame_def wire_payload_def apply_mask_spec)
next
  case False
  then have k: "unat (of_nat k :: uint64) = k" using assms by (simp add: unsigned_of_nat take_bit_nat_eq_self)
  show ?thesis
    using False k
    by (intro nth_equalityI) (auto simp: unmasked_def wire_frame_def wire_payload_def apply_mask_spec mask_spec_map
      xor.assoc add.commute)
qed

lemma legal_data: "opcode_is_data op \<Longrightarrow> n < 2 ^ 32 \<Longrightarrow> legal_header True op (of_nat n)"
  by (auto simp: legal_header_def opcode_is_data_def opcode_is_control_def word_le_nat_alt unsigned_of_nat
    take_bit_nat_eq_self)

lemma header_bound: "length (write_frame_header f op len key) \<le> 14"
  by (simp add: write_frame_header_def Let_def)

text \<open>The two phases of receiving the frame that carries \<open>p\<close>: before its header, and with
  \<open>k\<close> bytes of its payload taken.\<close>

definition idle :: "role_t \<Rightarrow> bytes \<Rightarrow> session \<Rightarrow> bool" where
  "idle role D s \<longleftrightarrow> reader role D s \<and> \<not> s_frame_open s \<and> \<not> s_fragment_open s"

definition receiving :: "uint32 \<Rightarrow> opcode_t \<Rightarrow> bytes \<Rightarrow> bytes \<Rightarrow> nat \<Rightarrow> session \<Rightarrow> bool" where
  "receiving key op p rest k s \<longleftrightarrow> reader (peer_role key) (drop k (wire_payload key p) @ rest) s \<and>
     s_frame_open s \<and> \<not> s_fragment_open s \<and> s_cur s = wire_frame key op (length p) \<and>
     s_remaining s = of_nat (length p - k) \<and> k < length p \<and> s_msg s = take k p"

text \<open>What a session keeps while it receives data frames.\<close>

definition same_session :: "session \<Rightarrow> session \<Rightarrow> bool" where
  "same_session s t \<longleftrightarrow> s_role t = s_role s \<and> s_state t = s_state s \<and> s_out t = s_out s \<and> s_wres t = s_wres s \<and>
     s_seed t = s_seed s \<and> s_finished t = s_finished s \<and> s_fired t = s_fired s \<and> s_closing t = s_closing s \<and>
     s_protocol_errors t = s_protocol_errors s"

lemma same_session_refl [simp]: "same_session s s" by (simp add: same_session_def)

lemma same_session_trans: "same_session s t \<Longrightarrow> same_session t u \<Longrightarrow> same_session s u"
  by (simp add: same_session_def)

lemma msg_append_all:
  "msg_append (\<lambda>_. True) n part s = Some (s\<lparr>s_msg := s_msg s @ part, s_msg_cap := (if n \<le> s_msg_cap s then s_msg_cap s else pool_cap n)\<rparr>)"
  by (simp add: msg_append_def)

lemma run_done_whole:
  assumes "receiving key op p rest k s" "opcode_is_data op" "length p < 2 ^ 32"
    "run = min (length (s_win s)) (length p - k)" "part = take run (drop k p)"
    "direct \<longleftrightarrow> run = length p" "s_msg t = (if direct then s_msg s else s_msg s @ part)"
    "\<exists>ms cp. t = s\<lparr>s_msg := ms, s_msg_cap := cp\<rparr>" "s_win s \<noteq> []"
  shows "(\<exists>u. run_done (\<lambda>_. True) True run direct part t = Again u \<and> receiving key op p rest (k + run) u \<and> same_session s u) \<or>
    (\<exists>u. run_done (\<lambda>_. True) True run direct part t = Ret (Msg op p) u \<and> idle (peer_role key) rest u \<and> same_session s u)"
proof -
  let ?u = "(consume_in run t)\<lparr>s_remaining := s_remaining t - of_nat run\<rparr>"
  have R: "reader (peer_role key) (drop k (wire_payload key p) @ rest) s" "s_cur s = wire_frame key op (length p)"
    "s_remaining s = of_nat (length p - k)" "k < length p" "s_msg s = take k p" "\<not> s_fragment_open s" "s_frame_open s"
    using assms(1) by (simp_all add: receiving_def)
  have t: "s_win t = s_win s" "s_remaining t = s_remaining s" "s_cur t = s_cur s" "s_fragment_open t = s_fragment_open s"
    "s_input t = s_input s" "s_dec t = s_dec s" "s_cap t = s_cap s" "s_r t = s_r s" "same_session s t" "s_frame_open t = s_frame_open s"
    using assms(8) by (auto simp: same_session_def)
  have run: "run \<le> length (s_win s)" "k + run \<le> length p" "0 < run" using assms(4,9) R(4) by auto
  have rem: "s_remaining t - of_nat run = (of_nat (length p - (k + run)) :: uint64)"
    using R(3) run by (simp add: t of_nat_diff algebra_simps)
  have small: "length p - (k + run) < 2 ^ 64" using assms(3) by simp
  have "s_win s @ future s = drop k (wire_payload key p) @ rest" using R(1) by (simp add: reader_def)
  then have "drop run (s_win s @ future s) = drop run (drop k (wire_payload key p) @ rest)" by simp
  then have D: "drop run (s_win s) @ future s = drop (k + run) (wire_payload key p) @ rest"
    using run by (simp add: add.commute)
  have rd: "reader (peer_role key) (drop (k + run) (wire_payload key p) @ rest) ?u"
    using R(1) D run t by (simp add: reader_def consume_in_def clean_def future_def)
  have ss: "same_session s ?u" using t(9) by (simp add: same_session_def consume_in_def)
  show ?thesis
  proof (cases "k + run < length p")
    case True
    have "(of_nat (length p - (k + run)) :: uint64) \<noteq> 0"
      by (subst of_nat_word_zero) (use small True in simp_all)
    then have "s_remaining t - of_nat run > (0 :: uint64)" unfolding rem by (simp only: word_gt_0)
    moreover have "direct = False" using True assms(6) by simp
    moreover have "receiving key op p rest (k + run) ?u"
      using rd R t True assms(5,7) \<open>direct = False\<close> rem
      by (simp add: receiving_def consume_in_def take_add)
    ultimately show ?thesis using ss by (auto simp: run_done_def Let_def)
  next
    case False
    then have e: "k + run = length p" using run by simp
    have z: "\<not> s_remaining t - of_nat run > (0 :: uint64)" unfolding rem e by simp
    have msg: "(if direct then part else s_msg t) = p"
      using e assms(5-7) R(5) by (auto simp: take_add[symmetric])
    have fin: "fin (s_cur s)" "opcode (s_cur s) = op" by (simp_all add: R(2) wire_frame_def)
    have "run_done (\<lambda>_. True) True run direct part t = Ret (Msg op p) (?u\<lparr>s_frame_open := False, s_fragment_open := False\<rparr>)"
      using z msg fin R(6) t by (cases direct) (simp_all add: run_done_def Let_def frame_complete_def consume_in_def)
    moreover have "idle (peer_role key) rest (?u\<lparr>s_frame_open := False, s_fragment_open := False\<rparr>)"
      using rd e by (simp add: idle_def reader_def clean_def future_def)
    moreover have "same_session s (?u\<lparr>s_frame_open := False, s_fragment_open := False\<rparr>)"
      using ss by (simp add: same_session_def)
    ultimately show ?thesis by blast
  qed
qed

lemma data_payload_receives:
  assumes "receiving key op p rest k s" "opcode_is_data op" "length p < 2 ^ 32"
  shows "(\<exists>u k'. data_payload (\<lambda>_. True) True s = Again u \<and> receiving key op p rest k' u \<and> same_session s u) \<or>
    (\<exists>u. data_payload (\<lambda>_. True) True s = Ret (Msg op p) u \<and> idle (peer_role key) rest u \<and> same_session s u)"
proof -
  have R: "reader (peer_role key) (drop k (wire_payload key p) @ rest) s" "s_cur s = wire_frame key op (length p)"
    "s_remaining s = of_nat (length p - k)" "k < length p" "\<not> s_fragment_open s"
    using assms(1) by (simp_all add: receiving_def)
  show ?thesis
  proof (cases "s_win s = []")
    case True
    have "future s \<noteq> []" using R(1,4) True by (auto simp: reader_def)
    moreover have "length (s_win s) < s_cap s" using R(1) True by (simp add: reader_def)
    ultimately obtain t where t: "wait_more s = Again t" "reader (peer_role key) (drop k (wire_payload key p) @ rest) t" "read_only s t"
      using wait_more_reads[OF R(1)] by blast
    then have "receiving key op p rest k t" "same_session s t"
      using assms(1) by (auto simp: receiving_def read_only_def same_session_def)
    then show ?thesis using True t(1) by (auto simp: data_payload_def)
  next
    case False
    define run where "run = min (length (s_win s)) (length p - k)"
    have small: "length p - k < 2 ^ 64" using assms(3) by simp
    have ur: "unat (s_remaining s) = length p - k" "unat (payload_len (s_cur s)) = length p"
      unfolding R(2,3) wire_frame_def frame_t.simps using assms(3) small by (subst unat_of_nat_small; simp)+
    have off: "payload_len (s_cur s) - s_remaining s = of_nat k"
      using R(4) by (simp add: R(2,3) wire_frame_def of_nat_diff)
    have "take run (s_win s) = take run (s_win s @ future s)" by (simp add: run_def)
    also have "... = take run (drop k (wire_payload key p))" using R(1) by (simp add: reader_def run_def)
    finally have part: "unmasked (s_cur s) (take run (s_win s)) (payload_len (s_cur s) - s_remaining s) = take run (drop k p)"
      unfolding off unfolding R(2) by (simp add: unmasked_run[OF assms(3)])
    define direct where "direct \<longleftrightarrow> run = length p"
    have dp: "data_payload (\<lambda>_. True) True s = take_run (\<lambda>_. True) True run direct (take run (drop k p)) s"
      unfolding data_payload_def ur Let_def run_def[symmetric] part direct_def using False R(5) by simp
    define t where "t = (if direct then s else s\<lparr>s_msg := s_msg s @ take run (drop k p),
      s_msg_cap := (if length (s_msg s) + run \<le> s_msg_cap s then s_msg_cap s else pool_cap (length (s_msg s) + run))\<rparr>)"
    have tr: "take_run (\<lambda>_. True) True run direct (take run (drop k p)) s =
        run_done (\<lambda>_. True) True run direct (take run (drop k p)) t"
      by (simp add: take_run_def msg_append_all t_def)
    have "\<exists>ms cp. t = s\<lparr>s_msg := ms, s_msg_cap := cp\<rparr>"
      by (intro exI[of _ "s_msg t"] exI[of _ "s_msg_cap t"]) (simp add: t_def)
    moreover have "s_msg t = (if direct then s_msg s else s_msg s @ take run (drop k p))" by (simp add: t_def)
    ultimately show ?thesis
      unfolding dp tr using run_done_whole[OF assms run_def refl direct_def, of t] False by blast
  qed
qed

lemma parse_frame_opens:
  assumes "idle (peer_role key) (frame_wire key op p @ rest) s" "opcode_is_data op" "length p < 2 ^ 32"
    "p \<noteq> []" "of_nat (length p) \<le> max_message_bytes opt"
  shows "(\<exists>t. parse_frame opt s = Again t \<and> idle (peer_role key) (frame_wire key op p @ rest) t \<and> same_session s t) \<or>
    (\<exists>t. parse_frame opt s = Fall t \<and> receiving key op p rest 0 t \<and> same_session s t)"
proof -
  let ?h = "write_frame_header True op (of_nat (length p)) key"
  have R: "reader (peer_role key) (?h @ wire_payload key p @ rest) s" "\<not> s_frame_open s" "\<not> s_fragment_open s"
    using assms(1) by (simp_all add: idle_def frame_wire_parts)
  then have D: "s_win s @ future s = ?h @ wire_payload key p @ rest" by (simp add: reader_def)
  note enc = parse_header_encoded[OF legal_data[OF assms(2,3)], of key]
  show ?thesis
  proof (cases "length (s_win s) < length ?h")
    case True
    have "s_win s = take (length (s_win s)) (s_win s @ future s)" by simp
    also have "... = take (length (s_win s)) ?h" unfolding D using True by simp
    finally have w: "s_win s = take (length (s_win s)) ?h" .
    have "parse_header (peer_role key) (s_win s) = Short"
      using header.never_early[OF enc[of "[]", simplified] _ True] by (subst w) simp
    then have "parse_frame opt s = wait_more s"
      using R by (simp add: parse_frame_def parse_def reader_def)
    moreover have "future s \<noteq> []"
    proof
      assume "future s = []"
      then have "length (s_win s) = length (?h @ wire_payload key p @ rest)" using D by (metis append_Nil2)
      then show False using True by simp
    qed
    moreover have "length (s_win s) < s_cap s" using R(1) True header_bound[of True op "of_nat (length p)" key]
      by (simp add: reader_def)
    ultimately obtain t where "parse_frame opt s = Again t" "reader (peer_role key) (?h @ wire_payload key p @ rest) t" "read_only s t"
      using wait_more_reads[OF R(1)] by auto
    then show ?thesis using R by (auto simp: idle_def frame_wire_parts read_only_def same_session_def)
  next
    case False
    then have "take (length ?h) (s_win s) = take (length ?h) (s_win s @ future s)" by simp
    then have "take (length ?h) (s_win s) = ?h" unfolding D by simp
    then obtain w' where w: "s_win s = ?h @ w'" by (metis append_take_drop_id)
    then have w2: "w' @ future s = wire_payload key p @ rest" using D by simp
    have "parse (s_dec s) (s_win s) frame_init = (Frame, s_dec s, wire_frame key op (length p))"
      using R(1) enc[of w'] by (simp add: parse_def reader_def w wire_frame_def)
    moreover define t where "t = (consume_in (length ?h) (s\<lparr>s_msg := []\<rparr>))\<lparr>s_cur := wire_frame key op (length p),
        s_remaining := of_nat (length p), s_frame_open := True\<rparr>"
    ultimately have "parse_frame opt s = Fall t"
      using R(2,3) assms(2,5) by (simp add: parse_frame_def message_rules_def open_frame_def wire_frame_def)
    moreover have "receiving key op p rest 0 t"
      using R w w2 assms(4) by (simp add: receiving_def t_def reader_def consume_in_def clean_def future_def)
    moreover have "same_session s t" by (simp add: same_session_def t_def consume_in_def)
    ultimately show ?thesis by blast
  qed
qed

lemma step_receives:
  assumes "idle (peer_role key) (frame_wire key op p @ rest) s" "opcode_is_data op" "length p < 2 ^ 32"
    "p \<noteq> []" "of_nat (length p) \<le> max_message_bytes opt"
  shows "\<exists>t. step (\<lambda>_. True) opt True s = (Msg op p, t) \<and> idle (peer_role key) rest t \<and> same_session s t"
proof -
  have "\<exists>t. step (\<lambda>_. True) opt True s = (Msg op p, t) \<and> idle (peer_role key) rest t \<and> same_session s t"
    if "idle (peer_role key) (frame_wire key op p @ rest) s \<or> (\<exists>k. receiving key op p rest k s)" for s
    using that
  proof (induction s rule: wf_induct_rule[OF step_order_wf])
    case (1 s)
    let ?it = "step_iter (\<lambda>_. True) opt True s"
    have nc: "\<not> opcode_is_control op" using assms(2) by (auto simp: opcode_is_data_def opcode_is_control_def)
    have body: "(\<exists>u k'. data_payload (\<lambda>_. True) True t = Again u \<and> receiving key op p rest k' u \<and> same_session t u) \<or>
        (\<exists>u. data_payload (\<lambda>_. True) True t = Ret (Msg op p) u \<and> idle (peer_role key) rest u \<and> same_session t u)"
      if "receiving key op p rest k t" for k t
      by (rule data_payload_receives[OF that assms(2,3)])
    have fall: "?it = data_payload (\<lambda>_. True) True t" if "parse_frame opt s = Fall t" "receiving key op p rest k t" for k t
      using that nc by (simp add: step_iter_def receiving_def wire_frame_def)
    have "(\<exists>u. ?it = Again u \<and> (idle (peer_role key) (frame_wire key op p @ rest) u \<or> (\<exists>k. receiving key op p rest k u)) \<and> same_session s u) \<or>
        (\<exists>u. ?it = Ret (Msg op p) u \<and> idle (peer_role key) rest u \<and> same_session s u)"
    proof (cases "idle (peer_role key) (frame_wire key op p @ rest) s")
      case True
      from parse_frame_opens[OF True assms(2-5)] show ?thesis
      proof (elim disjE exE conjE)
        fix t assume t: "parse_frame opt s = Again t" "idle (peer_role key) (frame_wire key op p @ rest) t" "same_session s t"
        then have "?it = Again t" by (simp add: step_iter_def)
        then show ?thesis using t by blast
      next
        fix t assume t: "parse_frame opt s = Fall t" "receiving key op p rest 0 t" "same_session s t"
        show ?thesis unfolding fall[OF t(1,2)] using body[OF t(2)] same_session_trans[OF t(3)] by blast
      qed
    next
      case False
      then obtain k where k: "receiving key op p rest k s" using "1.prems" by blast
      then have "parse_frame opt s = Fall s" by (simp add: parse_frame_def receiving_def)
      from fall[OF this k] body[OF k] show ?thesis by auto
    qed
    then show ?case
    proof
      assume "\<exists>u. ?it = Again u \<and> (idle (peer_role key) (frame_wire key op p @ rest) u \<or> (\<exists>k. receiving key op p rest k u)) \<and> same_session s u"
      then obtain u where u: "?it = Again u" "idle (peer_role key) (frame_wire key op p @ rest) u \<or> (\<exists>k. receiving key op p rest k u)"
        "same_session s u" by blast
      from "1.IH"[OF step_iter_decreases[OF u(1)] u(2)] u(1,3) same_session_trans show ?thesis
        by (subst step.simps) (auto intro: same_session_trans)
    next
      assume "\<exists>u. ?it = Ret (Msg op p) u \<and> idle (peer_role key) rest u \<and> same_session s u"
      then show ?thesis by (subst step.simps) auto
    qed
  qed
  then show ?thesis using assms(1) by blast
qed

fun send_all :: "(opcode_t \<times> bytes) list \<Rightarrow> session \<Rightarrow> unit expected \<times> session" where
  "send_all [] s = (Inr (), s)"
| "send_all ((op, p) # ms) s = (case send (\<lambda>_. True) p op s of (Inl e, t) \<Rightarrow> (Inl e, t) | (Inr _, t) \<Rightarrow> send_all ms t)"

fun recv_many :: "session_options \<Rightarrow> nat \<Rightarrow> session \<Rightarrow> outcome list" where
  "recv_many opt 0 s = []"
| "recv_many opt (Suc n) s = (case recv (\<lambda>_. True) opt s of (r, t) \<Rightarrow> r # recv_many opt n t)"

lemma send_wire:
  assumes "seeded s" "s_state s = Open" "s_wres s = []" "opcode_is_data op"
  shows "\<exists>k t. send (\<lambda>_. True) p op s = (Inr (), t) \<and> (k \<noteq> 0 \<longleftrightarrow> s_role s = Client) \<and> s_role t = s_role s \<and>
    seeded t \<and> s_state t = Open \<and> s_wres t = [] \<and> s_out t = s_out s @ [(op, frame_wire k op p)]"
proof -
  obtain k t where "frame_key s = Some (k, t)" "k \<noteq> 0 \<longleftrightarrow> s_role s = Client" "seeded t"
    using frame_key_seeded[OF assms(1)] .
  then show ?thesis
    using assms frame_key_state[of s k t] frame_key_reader[of s k t]
    by (intro exI[of _ k] exI[of _ "t\<lparr>s_out := s_out t @ [(op, frame_wire k op p)]\<rparr>"])
      (auto simp: send_def writev_span_def seeded_def same_reader_def)
qed

lemma send_all_wire:
  assumes "seeded s" "s_state s = Open" "s_wres s = []" "\<forall>(op, p) \<in> set ms. opcode_is_data op"
  shows "\<exists>ks t. send_all ms s = (Inr (), t) \<and> length ks = length ms \<and> (\<forall>k \<in> set ks. k \<noteq> 0 \<longleftrightarrow> s_role s = Client) \<and>
    map snd (s_out t) = map snd (s_out s) @ map (\<lambda>(k, op, p). frame_wire k op p) (zip ks ms)"
  using assms
proof (induction ms arbitrary: s)
  case (Cons m ms)
  obtain op p where m: "m = (op, p)" by (cases m)
  obtain k t where t: "send (\<lambda>_. True) p op s = (Inr (), t)" "k \<noteq> 0 \<longleftrightarrow> s_role s = Client" "s_role t = s_role s"
    "seeded t" "s_state t = Open" "s_wres t = []" "s_out t = s_out s @ [(op, frame_wire k op p)]"
    using send_wire[OF Cons.prems(1-3), of op p] Cons.prems(4) m by auto
  obtain ks u where "send_all ms t = (Inr (), u)" "length ks = length ms" "\<forall>k \<in> set ks. k \<noteq> 0 \<longleftrightarrow> s_role t = Client"
    "map snd (s_out u) = map snd (s_out t) @ map (\<lambda>(k, op, p). frame_wire k op p) (zip ks ms)"
    using Cons.IH[OF t(4-6)] Cons.prems(4) by auto
  then have "send_all (m # ms) s = (Inr (), u) \<and> length (k # ks) = length (m # ms) \<and>
      (\<forall>k \<in> set (k # ks). k \<noteq> 0 \<longleftrightarrow> s_role s = Client) \<and>
      map snd (s_out u) = map snd (s_out s) @ map (\<lambda>(k, op, p). frame_wire k op p) (zip (k # ks) (m # ms))"
    using t m by auto
  then show ?case by blast
qed simp

definition other_role :: "role_t \<Rightarrow> role_t" where
  "other_role r = (if r = Client then Server else Client)"

lemma recv_many_wire:
  assumes "idle (other_role r) (concat (map (\<lambda>(k, op, p). frame_wire k op p) (zip ks ms)) @ rest) s"
    "length ks = length ms" "\<forall>k \<in> set ks. k \<noteq> 0 \<longleftrightarrow> r = Client" "s_state s \<noteq> CloseReceived" "\<not> s_finished s"
    "\<forall>(op, p) \<in> set ms. opcode_is_data op \<and> p \<noteq> [] \<and> length p < 2 ^ 32 \<and> of_nat (length p) \<le> max_message_bytes opt"
  shows "recv_many opt (length ms) s = map (\<lambda>(op, p). Msg op p) ms"
  using assms
proof (induction ms arbitrary: s ks)
  case (Cons m ms)
  obtain op p where m: "m = (op, p)" by (cases m)
  obtain k ks' where ks: "ks = k # ks'" using Cons.prems(2) by (cases ks) auto
  have r: "other_role r = peer_role k" using Cons.prems(3) ks by (auto simp: other_role_def)
  let ?rest = "concat (map (\<lambda>(k, op, p). frame_wire k op p) (zip ks' ms)) @ rest"
  obtain t where t: "step (\<lambda>_. True) opt True s = (Msg op p, t)" "idle (peer_role k) ?rest t" "same_session s t"
    using step_receives[of k op p ?rest s opt] Cons.prems(1,6) by (auto simp: r ks m)
  have "recv_many opt (length ms) t = map (\<lambda>(op, p). Msg op p) ms"
    using Cons.IH[of ks' t] t(2,3) Cons.prems ks r by (auto simp: same_session_def)
  then show ?case using t(1) Cons.prems(4,5) m by (simp add: recv_def)
qed simp

lemma pool_cap_ge: "n < 2 ^ 32 \<Longrightarrow> 14 \<le> pool_cap n \<and> n \<le> pool_cap n"
proof -
  assume n: "n < 2 ^ 32"
  then have u: "unat (of_nat n :: uint32) = n" using unat_of_nat_small[of n, where 'a = 32] by simp
  show ?thesis
  proof (cases "class_of (of_nat n)")
    case None
    then have "\<not> (of_nat n :: uint32) \<le> push_bit 10 4" by (auto simp: class_of_def kClassSize_def split: if_splits)
    then show ?thesis using None u by (simp add: pool_cap_def word_le_nat_alt)
  next
    case (Some c)
    have "kClassSize ! c \<in> set kClassSize" by (rule class_size_in[OF class_of_Some(1)[OF Some]])
    then have "4096 \<le> unat (kClassSize ! c)" by (auto simp: kClassSize_def)
    then show ?thesis using Some class_of_Some(2)[OF Some] u by (simp add: pool_cap_def word_le_nat_alt)
  qed
qed

text \<open>(C14) Messages arrive as they were sent: when one side of a session sends any number of non-empty
  messages within the size limit and the bytes it writes reach the other side cut into reads in any
  way, then receiving as many times gives exactly these messages, in order and with their opcodes,
  for both directions and whatever the masking keys are.\<close>

theorem messages_roundtrip:
  assumes "send_all ms (session_init r opt1 [] seed [] []) = (res, c)" "r = Client \<longrightarrow> seed \<noteq> 0"
    "\<forall>(op, p) \<in> set ms. opcode_is_data op \<and> p \<noteq> [] \<and> length p < 2 ^ 32 \<and> of_nat (length p) \<le> max_message_bytes opt2"
    "\<forall>b \<in> set chunks. b \<noteq> []" "concat chunks = concat (map snd (s_out c))"
  shows "res = Inr () \<and>
    recv_many opt2 (length ms) (session_init (other_role r) opt2 [] seed2 (map Bytes chunks) []) = map (\<lambda>(op, p). Msg op p) ms"
proof -
  let ?s = "session_init r opt1 [] seed [] []" and ?v = "session_init (other_role r) opt2 [] seed2 (map Bytes chunks) []"
  have s: "seeded ?s" "s_state ?s = Open" "s_wres ?s = []" "s_role ?s = r" "s_out ?s = []"
    using assms(2) by (auto simp: seeded_def session_init_def)
  have "\<forall>(op, p) \<in> set ms. opcode_is_data op" using assms(3) by auto
  from send_all_wire[OF s(1-3) this] obtain ks t where t: "send_all ms ?s = (Inr (), t)" and
    ks: "length ks = length ms" "\<forall>k \<in> set ks. k \<noteq> 0 \<longleftrightarrow> r = Client"
    "map snd (s_out t) = map (\<lambda>(k, op, p). frame_wire k op p) (zip ks ms)"
    unfolding s(4,5) by auto
  have tc: "t = c" "res = Inr ()" using t assms(1) by simp_all
  have "future ?v = concat chunks"
    by (simp add: future_def session_init_def event_bytes_def comp_def)
  moreover have "14 \<le> s_cap ?v"
    using pool_cap_ge[of "unat (recv_buffer_bytes opt2)"] unat_word_less[of "recv_buffer_bytes opt2"]
    by (simp add: session_init_def)
  ultimately have "idle (other_role r) (concat (map (\<lambda>(k, op, p). frame_wire k op p) (zip ks ms)) @ []) ?v"
    using assms(4,5) ks(3) tc by (auto simp: idle_def reader_def clean_def session_init_def)
  from recv_many_wire[OF this ks(1,2)] show ?thesis
    using tc(2) assms(3) by (simp add: session_init_def)
qed

definition demo_opts :: session_options where
  "demo_opts = \<lparr>max_message_bytes = 1000, recv_buffer_bytes = 100\<rparr>"

theorem messages_roundtrip_witness:
  "\<exists>c chunks. send_all [(Text, [104, 105]), (Binary, [0, 1, 2])] (session_init Client demo_opts [] 7 [] []) = (Inr (), c) \<and>
    concat chunks = concat (map snd (s_out c)) \<and>
    recv_many demo_opts 2 (session_init Server demo_opts [] 0 (map Bytes chunks) []) = [Msg Text [104, 105], Msg Binary [0, 1, 2]]"
proof -
  obtain res c where c: "send_all [(Text, [104, 105]), (Binary, [0, 1, 2])] (session_init Client demo_opts [] 7 [] []) = (res, c)"
    by (metis surj_pair)
  define chunks where "chunks = map (\<lambda>b. [b]) (concat (map snd (s_out c)))"
  have ch: "\<forall>b \<in> set chunks. b \<noteq> []" "concat chunks = concat (map snd (s_out c))" by (auto simp: chunks_def)
  have ok: "\<forall>(op, p) \<in> set [(Text, [104, 105]), (Binary, [0, 1, 2 :: uint8])]. opcode_is_data op \<and> p \<noteq> [] \<and>
      length p < 2 ^ 32 \<and> of_nat (length p) \<le> max_message_bytes demo_opts"
    by (simp add: opcode_is_data_def demo_opts_def)
  have n: "length [(Text, [104, 105]), (Binary, [0, 1, 2 :: uint8])] = 2" "other_role Client = Server"
    by (simp_all add: other_role_def)
  have k: "Client = Client \<longrightarrow> (7 :: uint32) \<noteq> 0" by simp
  from messages_roundtrip[OF c k ok ch, of 0] show ?thesis
    unfolding n using c ch(2) by (intro exI[of _ c] exI[of _ chunks]) (simp only: list.map prod.case)
qed

subsection \<open>The close handshake\<close>



definition log_ok :: "(opcode_t \<times> bytes) list \<Rightarrow> bool" where
  "log_ok l \<longleftrightarrow> sorted_wrt (\<lambda>a b. fst a = Close \<longrightarrow> fst b = Pong) l"

definition no_close :: "session \<Rightarrow> bool" where
  "no_close s \<longleftrightarrow> (\<forall>x \<in> set (s_out s). fst x \<noteq> Close)"

definition close_inv :: "session \<Rightarrow> bool" where
  "close_inv s \<longleftrightarrow> log_ok (s_out s) \<and> (s_state s = Open \<longrightarrow> no_close s)"

definition iter_inv :: "iter \<Rightarrow> bool" where
  "iter_inv r = (case r of Ret _ t \<Rightarrow> close_inv t | Again t \<Rightarrow> close_inv t | Fall t \<Rightarrow> close_inv t)"

lemma iter_inv_simps [simp]:
  "iter_inv (Ret x t) = close_inv t" "iter_inv (Again t) = close_inv t" "iter_inv (Fall t) = close_inv t"
  by (simp_all add: iter_inv_def)














lemma close_inv_dec [simp]: "close_inv (s\<lparr>s_dec := d\<rparr>) = close_inv s" "close_inv (s\<lparr>s_msg := ms\<rparr>) = close_inv s"
  by (simp_all add: close_inv_def no_close_def)
















subsection \<open>Messages that are not delivered as sent\<close>


end
