(* ===== verification/Links.thy ===== *)
theory Links
  imports Main
begin

text \<open>
  Intrusive doubly linked lists.  The timer wheel, the semaphore, the single-flight table and the
  connection pool of the client all link nodes that live inside other objects: a node is an address, and its
  \<open>prev\<close> and \<open>next\<close> fields are two maps from addresses to addresses (one map per field).  This theory has the
  pointer updates the components share, the predicate that relates a linked list to the list of its nodes,
  and what each update does to that list.
\<close>

type_synonym addr = nat
type_synonym link = "addr \<Rightarrow> addr option"

primrec chain :: "link \<Rightarrow> link \<Rightarrow> addr option \<Rightarrow> addr option \<Rightarrow> addr list \<Rightarrow> bool" where
  "chain nx pv p h [] \<longleftrightarrow> h = None"
| "chain nx pv p h (x # xs) \<longleftrightarrow> h = Some x \<and> pv x = p \<and> chain nx pv (Some x) (nx x) xs"

definition first_of :: "addr list \<Rightarrow> addr option" where
  "first_of xs = (case xs of [] \<Rightarrow> None | x # _ \<Rightarrow> Some x)"

definition last_of :: "addr option \<Rightarrow> addr list \<Rightarrow> addr option" where
  "last_of p xs = (if xs = [] then p else Some (last xs))"

text \<open>The two halves of taking a node out of its list, and the new head of the list.\<close>

definition cut_next :: "link \<Rightarrow> link \<Rightarrow> addr \<Rightarrow> link" where
  "cut_next nx pv x = (case pv x of None \<Rightarrow> nx | Some p \<Rightarrow> nx(p := nx x))(x := None)"

definition cut_prev :: "link \<Rightarrow> link \<Rightarrow> addr \<Rightarrow> link" where
  "cut_prev nx pv x = (case nx x of None \<Rightarrow> pv | Some n \<Rightarrow> pv(n := pv x))(x := None)"

definition set_at :: "addr option \<Rightarrow> addr option \<Rightarrow> link \<Rightarrow> link" where
  "set_at at v l = (case at of None \<Rightarrow> l | Some a \<Rightarrow> l(a := v))"

lemma first_of_simps [simp]: "first_of [] = None" "first_of (x # xs) = Some x"
  by (simp_all add: first_of_def)

lemma last_of_simps [simp]:
  "last_of p [] = p" "last_of p (x # xs) = last_of (Some x) xs" "last_of p (xs @ [x]) = Some x"
  by (simp_all add: last_of_def)

lemma last_of_append [simp]: "last_of p (xs @ ys) = last_of (last_of p xs) ys"
  by (simp add: last_of_def)

lemma last_of_None [simp]: "last_of None xs = None \<longleftrightarrow> xs = []"
  by (simp add: last_of_def)

lemma last_of_in: "last_of None xs = Some y \<Longrightarrow> y \<in> set xs"
  by (auto simp: last_of_def split: if_splits)

lemma first_of_eq: "first_of xs = None \<longleftrightarrow> xs = []" "first_of xs = Some x \<longleftrightarrow> (\<exists>ys. xs = x # ys)"
  by (cases xs; simp)+

lemma first_of_append: "first_of (xs @ ys) = (if xs = [] then first_of ys else first_of xs)"
  by (cases xs) simp_all

lemma chain_append:
  "chain nx pv p h (xs @ ys) \<longleftrightarrow>
    (\<forall>i < length xs. nx (xs ! i) = first_of (drop (Suc i) (xs @ ys)) \<and> pv (xs ! i) = last_of p (take i xs)) \<and>
    h = first_of (xs @ ys) \<and> chain nx pv (last_of p xs) (first_of ys) ys"
proof (induction xs arbitrary: p h)
  case Nil
  then show ?case by (cases ys) auto
next
  case (Cons x xs)
  show ?case by (auto simp: Cons.IH less_Suc_eq_0_disj)
qed

lemma chain_links:
  "chain nx pv p h xs \<longleftrightarrow> h = first_of xs \<and>
    (\<forall>i < length xs. nx (xs ! i) = first_of (drop (Suc i) xs) \<and> pv (xs ! i) = last_of p (take i xs))"
  using chain_append[of nx pv p h xs "[]"] by auto

lemma chain_head: "chain nx pv p h xs \<Longrightarrow> h = first_of xs"
  by (simp add: chain_links)

lemma chain_mid:
  assumes "chain nx pv p h (ys @ x # zs)"
  shows "nx x = first_of zs" "pv x = last_of p ys"
  using assms by (auto simp: chain_append dest: chain_head)

lemma chain_frame:
  assumes "chain nx pv p h xs" "\<And>y. y \<in> set xs \<Longrightarrow> nx' y = nx y \<and> pv' y = pv y"
  shows "chain nx' pv' p h xs"
  using assms by (induction xs arbitrary: p h) auto

lemma chain_unique: "chain nx pv p h xs \<Longrightarrow> chain nx pv q h ys \<Longrightarrow> xs = ys"
proof (induction xs arbitrary: p q h ys)
  case Nil
  then show ?case by (cases ys) auto
next
  case (Cons x xs)
  then show ?case by (cases ys) auto
qed

lemma last_of_nth: "Suc i = length xs \<Longrightarrow> last_of p xs = Some (xs ! i)"
  by (cases xs rule: rev_cases) (auto simp: nth_append)

text \<open>Taking out a node removes it from the list and leaves the order of the others.\<close>

lemma chain_cut:
  assumes "chain nx pv None h (ys @ x # zs)" "distinct (ys @ x # zs)"
  shows "chain (cut_next nx pv x) (cut_prev nx pv x) None (if pv x = None then nx x else h) (ys @ zs)"
proof -
  let ?n = "cut_next nx pv x" and ?p = "cut_prev nx pv x"
  note m = chain_mid[OF assms(1)]
  have h: "h = first_of (ys @ x # zs)" using chain_head[OF assms(1)] .
  have n: "?n y = (if y \<noteq> x \<and> last_of None ys = Some y then first_of zs else nx y)" if "y \<noteq> x" for y
    using that m by (auto simp: cut_next_def split: option.splits)
  have p: "?p y = (if first_of zs = Some y then last_of None ys else pv y)" if "y \<noteq> x" for y
    using that m by (auto simp: cut_prev_def split: option.splits)
  have L: "nx (ys ! i) = first_of (drop (Suc i) ys @ x # zs)" "pv (ys ! i) = last_of None (take i ys)" if "i < length ys" for i
    using assms(1) that by (auto simp: chain_append)
  have Z: "chain nx pv (Some x) (first_of zs) zs" using assms(1) m(1) by (auto simp: chain_append)
  have 1: "?n (ys ! i) = first_of (drop (Suc i) ys @ zs) \<and> ?p (ys ! i) = last_of None (take i ys)" if i: "i < length ys" for i
  proof -
    have ne: "ys ! i \<noteq> x" "first_of zs \<noteq> Some (ys ! i)" using assms(2) i by (auto simp: first_of_eq)
    show ?thesis
    proof (cases "Suc i = length ys")
      case True
      then have "last_of None ys = Some (ys ! i)" using True last_of_nth by blast
      then show ?thesis using n[OF ne(1)] p[OF ne(1)] ne L(2)[OF i] True by simp
    next
      case False
      then have "last_of None ys \<noteq> Some (ys ! i)"
        using i assms(2) by (auto simp: last_of_def last_conv_nth nth_eq_iff_index_eq)
      then show ?thesis using n[OF ne(1)] p[OF ne(1)] ne L[OF i] i False by (auto simp: first_of_append)
    qed
  qed
  have 2: "chain ?n ?p (last_of None ys) (first_of zs) zs"
  proof (cases zs)
    case (Cons z w)
    have w: "chain nx pv (Some z) (nx z) w" using Z Cons by simp
    have nz: "?n y = nx y" if "y \<in> set zs" for y
    proof -
      have "y \<noteq> x" "y \<notin> set ys" using that assms(2) by auto
      then show ?thesis using n[of y] last_of_in[of ys y] by auto
    qed
    have "?p y = pv y" if "y \<in> set w" for y
    proof -
      have "y \<noteq> x" "y \<noteq> z" using that assms(2) Cons by auto
      then show ?thesis using p[of y] Cons by simp
    qed
    then have "chain ?n ?p (Some z) (nx z) w" using nz Cons by (intro chain_frame[OF w]) auto
    then show ?thesis using Cons nz[of z] p[of z] assms(2) by auto
  qed simp
  have "(if pv x = None then nx x else h) = first_of (ys @ zs)" using m h by (auto simp: first_of_append)
  then show ?thesis using 1 2 by (simp add: chain_append)
qed

lemma chain_push_front:
  assumes "chain nx pv None h xs" "distinct (x # xs)"
  shows "chain (nx(x := h)) ((set_at h (Some x) pv)(x := None)) None (Some x) (x # xs)"
proof (cases xs)
  case Nil
  then show ?thesis using assms by simp
next
  case (Cons y ys)
  have c: "chain nx pv (Some y) (nx y) ys" using assms Cons by simp
  have "chain (nx(x := h)) ((set_at h (Some x) pv)(x := None)) (Some y) (nx y) ys"
    using assms Cons by (intro chain_frame[OF c]) (auto simp: set_at_def)
  then show ?thesis using assms Cons by (auto simp: set_at_def)
qed

lemma chain_push_back:
  assumes "chain nx pv None h xs" "distinct (x # xs)"
  shows "chain ((set_at (last_of None xs) (Some x) nx)(x := None)) (pv(x := last_of None xs)) None
    (if last_of None xs = None then Some x else h) (xs @ [x])"
proof -
  let ?n = "(set_at (last_of None xs) (Some x) nx)(x := None)" and ?p = "pv(x := last_of None xs)"
  have "?n (xs ! i) = first_of (drop (Suc i) (xs @ [x])) \<and> ?p (xs ! i) = last_of None (take i xs)" if i: "i < length xs" for i
  proof (cases "Suc i = length xs")
    case True
    then have "last_of None xs = Some (xs ! i)" using True last_of_nth by blast
    then show ?thesis using assms i True by (auto simp: set_at_def chain_links)
  next
    case False
    then have "last_of None xs \<noteq> Some (xs ! i)"
      using i assms(2) by (auto simp: last_of_def last_conv_nth nth_eq_iff_index_eq)
    then show ?thesis using assms i False by (auto simp: set_at_def chain_links first_of_append split: option.splits)
  qed
  then show ?thesis using chain_head[OF assms(1)] by (auto simp: chain_append first_of_append)
qed

lemma cut_frame:
  assumes "chain nx pv None h xs" "x \<notin> set xs" "\<forall>y \<in> set xs. pv x \<noteq> Some y \<and> nx x \<noteq> Some y"
  shows "chain (cut_next nx pv x) (cut_prev nx pv x) None h xs"
  using assms(2,3) by (intro chain_frame[OF assms(1)]) (auto simp: cut_next_def cut_prev_def split: option.splits)

end
