(* ===== verification/Timer_Wheel.thy ===== *)
theory Timer_Wheel
  imports Links Prelude "HOL-Library.Signed_Division"
begin

text \<open>
  The hashed timing wheel (\<open>timer_wheel.cc\<close>, \<open>timer_wheel.h\<close>): 512 slots, each the head of an intrusive list
  of timer nodes, a cursor that moves one slot per tick, and per node the laps it still has to wait.  A node
  is an address; its fields are maps from addresses.  The callback of a timer is user code: \<open>advance\<close> takes what
  calling a function pointer with an owner does to the wheel.  The loop over a slot may not end when a callback
  relinks the timers the loop walks, so it is a partial function.
\<close>

definition kSlots :: nat where
  "kSlots = 512"

definition kDefaultTick :: int where
  "kDefaultTick = 500"

record wheel =
  tw_tick :: int
  tw_slots :: "nat \<Rightarrow> addr option"
  tw_cursor :: uint32
  tw_armed :: uint32
  tw_ticks :: uint64
  tw_running :: bool
  tw_runner_live :: bool
  tw_spawned :: nat
  n_prev :: link
  n_next :: link
  n_owner :: "addr \<Rightarrow> nat"
  n_on_expire :: "addr \<Rightarrow> nat option"
  n_rounds :: "addr \<Rightarrow> uint32"
  n_slot :: "addr \<Rightarrow> int"

text \<open>A fresh wheel, with the owners and callbacks its nodes will have.\<close>

definition timer_wheel :: "int \<Rightarrow> (addr \<Rightarrow> nat) \<Rightarrow> (addr \<Rightarrow> nat option) \<Rightarrow> wheel" where
  "timer_wheel tick owners callbacks = \<lparr>tw_tick = (if tick > 0 then tick else kDefaultTick), tw_slots = (\<lambda>_. None),
     tw_cursor = 0, tw_armed = 0, tw_ticks = 0, tw_running = True, tw_runner_live = False, tw_spawned = 0,
     n_prev = (\<lambda>_. None), n_next = (\<lambda>_. None), n_owner = owners, n_on_expire = callbacks,
     n_rounds = (\<lambda>_. 0), n_slot = (\<lambda>_. -1)\<rparr>"

definition node_armed :: "wheel \<Rightarrow> addr \<Rightarrow> bool" where
  "node_armed w x \<longleftrightarrow> n_slot w x \<ge> 0"

definition link_node :: "addr \<Rightarrow> nat \<Rightarrow> wheel \<Rightarrow> wheel" where
  "link_node x s w = w\<lparr>n_slot := (n_slot w)(x := int s),
     n_next := (n_next w)(x := tw_slots w s),
     n_prev := (set_at (tw_slots w s) (Some x) (n_prev w))(x := None),
     tw_slots := (tw_slots w)(s := Some x),
     tw_armed := tw_armed w + 1\<rparr>"

definition unlink_node :: "addr \<Rightarrow> wheel \<Rightarrow> wheel" where
  "unlink_node x w = (if \<not> node_armed w x then w
     else w\<lparr>tw_slots := (if n_prev w x = None then (tw_slots w)(nat (n_slot w x) := n_next w x) else tw_slots w),
       n_next := cut_next (n_next w) (n_prev w) x,
       n_prev := cut_prev (n_next w) (n_prev w) x,
       n_slot := (n_slot w)(x := -1),
       tw_armed := tw_armed w - 1\<rparr>)"

definition ensure_runner :: "wheel \<Rightarrow> wheel" where
  "ensure_runner w = (if tw_runner_live w \<or> \<not> tw_running w then w
     else w\<lparr>tw_runner_live := True, tw_spawned := Suc (tw_spawned w)\<rparr>)"

text \<open>The ticks of a delay: division truncates towards zero, and the quotient is read as an unsigned number.\<close>

definition delay_ticks :: "int \<Rightarrow> int \<Rightarrow> uint64" where
  "delay_ticks tick delay = (let t = word_of_int ((delay + tick - 1) sdiv tick) in if t = 0 then 1 else t)"

definition arm :: "addr \<Rightarrow> int \<Rightarrow> wheel \<Rightarrow> wheel" where
  "arm x delay w = (let w = unlink_node x w;
     ticks = delay_ticks (tw_tick w) delay;
     w = w\<lparr>n_rounds := (n_rounds w)(x := ucast ((ticks - 1) div 512))\<rparr>;
     slot = unat ((ucast (tw_cursor w) + ticks) mod 512)
     in ensure_runner (link_node x slot w))"

definition cancel :: "addr \<Rightarrow> wheel \<Rightarrow> wheel" where
  "cancel x w = unlink_node x w"

definition stop :: "wheel \<Rightarrow> wheel" where
  "stop w = w\<lparr>tw_running := False\<rparr>"

type_synonym callbacks = "nat \<Rightarrow> nat \<Rightarrow> wheel \<Rightarrow> wheel"

definition expire :: "callbacks \<Rightarrow> addr \<Rightarrow> wheel \<Rightarrow> wheel" where
  "expire call x w = (let w = unlink_node x w in
     case n_on_expire w x of None \<Rightarrow> w | Some f \<Rightarrow> call f (n_owner w x) w)"

text \<open>The walk over a slot; besides the wheel it gives the timers that expired, in order.\<close>

partial_function (option) advance_loop :: "callbacks \<Rightarrow> addr option \<Rightarrow> addr list \<Rightarrow> wheel \<Rightarrow> (wheel \<times> addr list) option" where
  "advance_loop call node fired w = (case node of
      None \<Rightarrow> Some (w, fired)
    | Some x \<Rightarrow> (let nxt = n_next w x in
        if n_rounds w x > 0
        then advance_loop call nxt fired (w\<lparr>n_rounds := (n_rounds w)(x := n_rounds w x - 1)\<rparr>)
        else advance_loop call nxt (fired @ [x]) (expire call x w)))"

definition next_tick :: "wheel \<Rightarrow> wheel" where
  "next_tick w = w\<lparr>tw_cursor := (tw_cursor w + 1) mod 512, tw_ticks := tw_ticks w + 1\<rparr>"

definition advance :: "callbacks \<Rightarrow> wheel \<Rightarrow> (wheel \<times> addr list) option" where
  "advance call w = (let w = next_tick w in advance_loop call (tw_slots w (unat (tw_cursor w))) [] w)"

text \<open>The runner: the test at the head of its loop, which ends it or lets it sleep for a tick, and what it does
  when the sleep returns.\<close>

definition run_enter :: "bool \<Rightarrow> wheel \<Rightarrow> bool \<times> wheel" where
  "run_enter ctx_running w = (if tw_armed w > 0 \<and> tw_running w \<and> ctx_running then (True, w)
     else (False, w\<lparr>tw_runner_live := False\<rparr>))"

definition run_wake :: "callbacks \<Rightarrow> bool \<Rightarrow> bool \<Rightarrow> wheel \<Rightarrow> (bool \<times> wheel \<times> addr list) option" where
  "run_wake call ok ctx_running w =
    (if \<not> ok \<or> \<not> tw_running w then Some (False, w\<lparr>tw_runner_live := False\<rparr>, [])
     else map_option (\<lambda>(w, fired). let (more, w) = run_enter ctx_running w in (more, w, fired)) (advance call w))"

definition wheel_destroy :: "wheel \<Rightarrow> wheel" where
  "wheel_destroy w = w\<lparr>n_prev := (\<lambda>x. if node_armed w x then None else n_prev w x),
     n_next := (\<lambda>x. if node_armed w x then None else n_next w x),
     n_slot := (\<lambda>x. if node_armed w x then -1 else n_slot w x), tw_slots := (\<lambda>_. None), tw_armed := 0\<rparr>"

subsection \<open>The lists of the wheel\<close>

definition wheel_rep :: "wheel \<Rightarrow> (nat \<Rightarrow> addr list) \<Rightarrow> bool" where
  "wheel_rep w L \<longleftrightarrow> (\<forall>s. chain (n_next w) (n_prev w) None (tw_slots w s) (L s) \<and> distinct (L s)) \<and>
     (\<forall>s. set (L s) = {x. n_slot w x = int s})"

lemma wheel_rep_disjoint: "wheel_rep w L \<Longrightarrow> x \<in> set (L s) \<Longrightarrow> x \<in> set (L t) \<longleftrightarrow> s = t"
  by (auto simp: wheel_rep_def)

lemma rep_unlink:
  assumes "wheel_rep w L" "node_armed w x"
  obtains s ys zs where "n_slot w x = int s" "L s = ys @ x # zs" "wheel_rep (unlink_node x w) (L(s := ys @ zs))"
proof -
  define s where "s = nat (n_slot w x)"
  have s: "n_slot w x = int s" using assms(2) by (simp add: s_def node_armed_def)
  then have "x \<in> set (L s)" using assms(1) by (auto simp: wheel_rep_def)
  then obtain ys zs where L: "L s = ys @ x # zs" by (meson split_list)
  have c: "chain (n_next w) (n_prev w) None (tw_slots w s) (ys @ x # zs)" and d: "distinct (ys @ x # zs)"
    using assms(1) L unfolding wheel_rep_def by metis+
  have 1: "chain (n_next (unlink_node x w)) (n_prev (unlink_node x w)) None (tw_slots (unlink_node x w) s) (ys @ zs)"
    using chain_cut[OF c d] assms(2) s by (auto simp: unlink_node_def)
  have 2: "chain (n_next (unlink_node x w)) (n_prev (unlink_node x w)) None (tw_slots (unlink_node x w) t) (L t)" if "t \<noteq> s" for t
  proof -
    have t: "chain (n_next w) (n_prev w) None (tw_slots w t) (L t)" using assms(1) by (simp add: wheel_rep_def)
    have m: "n_next w x = first_of zs" "n_prev w x = last_of None ys" using chain_mid[OF c] .
    have "y \<notin> set (L s)" if "y \<in> set (L t)" for y
      using that \<open>t \<noteq> s\<close> wheel_rep_disjoint[OF assms(1)] by blast
    then have out: "y \<noteq> x \<and> y \<notin> set ys \<and> y \<notin> set zs" if "y \<in> set (L t)" for y using that L by auto
    have "last_of None ys \<noteq> Some y \<and> first_of zs \<noteq> Some y" if "y \<in> set (L t)" for y
      using out[OF that] by (auto simp: first_of_eq dest: last_of_in)
    then have "chain (cut_next (n_next w) (n_prev w) x) (cut_prev (n_next w) (n_prev w) x) None (tw_slots w t) (L t)"
      using out m by (intro cut_frame[OF t]) auto
    then show ?thesis using assms(2) s that by (auto simp: unlink_node_def)
  qed
  have "set (ys @ zs) = set (L s) - {x}" using L d by auto
  then have 3: "set ((L(s := ys @ zs)) t) = {y. n_slot (unlink_node x w) y = int t}" for t
    using assms s by (auto simp: unlink_node_def wheel_rep_def)
  have "wheel_rep (unlink_node x w) (L(s := ys @ zs))"
    unfolding wheel_rep_def using 1 2 3 d assms(1) by (auto simp: wheel_rep_def)
  then show ?thesis using that s L by blast
qed

lemma rep_link:
  assumes "wheel_rep w L" "\<not> node_armed w x"
  shows "wheel_rep (link_node x s w) (L(s := x # L s))"
proof -
  have out: "x \<notin> set (L t)" for t using assms by (auto simp: wheel_rep_def node_armed_def)
  have c: "chain (n_next w) (n_prev w) None (tw_slots w t) (L t)" "distinct (L t)" for t
    using assms(1) by (auto simp: wheel_rep_def)
  let ?w = "link_node x s w"
  have 1: "chain (n_next ?w) (n_prev ?w) None (tw_slots ?w s) (x # L s)"
    using chain_push_front[OF c(1)[of s]] out c(2) by (simp add: link_node_def)
  have 2: "chain (n_next ?w) (n_prev ?w) None (tw_slots ?w t) (L t)" if "t \<noteq> s" for t
  proof -
    have "tw_slots w s \<noteq> Some y" if "y \<in> set (L t)" for y
      using that \<open>t \<noteq> s\<close> wheel_rep_disjoint[OF assms(1), of y t s] chain_head[OF c(1)[of s]] by (auto simp: first_of_eq)
    then have "chain (n_next ?w) (n_prev ?w) None (tw_slots w t) (L t)"
      using out[of t] by (intro chain_frame[OF c(1)[of t]]) (auto simp: link_node_def set_at_def split: option.splits)
    then show ?thesis using that by (simp add: link_node_def)
  qed
  have "set ((L(s := x # L s)) t) = {y. n_slot ?w y = int t}" for t
    using assms by (auto simp: link_node_def wheel_rep_def node_armed_def)
  then show ?thesis unfolding wheel_rep_def using 1 2 c(2) out by auto
qed

lemma rep_cong:
  assumes "n_next v = n_next w" "n_prev v = n_prev w" "tw_slots v = tw_slots w" "n_slot v = n_slot w"
  shows "wheel_rep v L \<longleftrightarrow> wheel_rep w L"
  using assms by (simp add: wheel_rep_def)

subsection \<open>Time left\<close>

definition entries :: "(nat \<Rightarrow> addr list) \<Rightarrow> nat" where
  "entries L = (\<Sum>s < kSlots. length (L s))"

lemma entries_upd:
  assumes "s < kSlots"
  shows "entries (L(s := zs)) + length (L s) = entries L + length zs"
proof -
  have "entries M = length (M s) + (\<Sum>t \<in> {..<kSlots} - {s}. length (M t))" for M
    unfolding entries_def using assms by (intro sum.remove) auto
  from this[of L] this[of "L(s := zs)"] show ?thesis by simp
qed

definition wheel_ok :: "wheel \<Rightarrow> (nat \<Rightarrow> addr list) \<Rightarrow> bool" where
  "wheel_ok w L \<longleftrightarrow> wheel_rep w L \<and> (\<forall>s \<ge> kSlots. L s = []) \<and> tw_armed w = of_nat (entries L) \<and>
     tw_cursor w < 512 \<and> tw_tick w > 0"

lemma ok_unlink:
  assumes "wheel_ok w L" "node_armed w x"
  obtains s ys zs where "n_slot w x = int s" "s < kSlots" "L s = ys @ x # zs" "wheel_ok (unlink_node x w) (L(s := ys @ zs))"
proof -
  have r: "wheel_rep w L" using assms(1) by (simp add: wheel_ok_def)
  obtain s ys zs where s: "n_slot w x = int s" "L s = ys @ x # zs" "wheel_rep (unlink_node x w) (L(s := ys @ zs))"
    using rep_unlink[OF r assms(2)] .
  have k: "s < kSlots" using assms(1) s(2) by (cases "s < kSlots") (auto simp: wheel_ok_def)
  have "entries L = Suc (entries (L(s := ys @ zs)))" using entries_upd[OF k, of L "ys @ zs"] s(2) by simp
  then have "wheel_ok (unlink_node x w) (L(s := ys @ zs))"
    using assms s(3) k by (auto simp: wheel_ok_def unlink_node_def)
  then show ?thesis using that s k by blast
qed

lemma ok_link:
  assumes "wheel_ok w L" "\<not> node_armed w x" "s < kSlots"
  shows "wheel_ok (link_node x s w) (L(s := x # L s))"
proof -
  have "entries (L(s := x # L s)) = Suc (entries L)" using entries_upd[OF assms(3), of L "x # L s"] by simp
  then show ?thesis using assms rep_link[of w L x s] by (auto simp: wheel_ok_def link_node_def)
qed

lemma ok_cong:
  assumes "n_next v = n_next w" "n_prev v = n_prev w" "tw_slots v = tw_slots w" "n_slot v = n_slot w"
    "tw_armed v = tw_armed w" "tw_cursor v = tw_cursor w" "tw_tick v = tw_tick w"
  shows "wheel_ok v L \<longleftrightarrow> wheel_ok w L"
  using assms rep_cong[of v w L] by (simp add: wheel_ok_def)

definition left :: "wheel \<Rightarrow> addr \<Rightarrow> nat option" where
  "left w x = (if node_armed w x
     then Some (512 * unat (n_rounds w x) + (nat (n_slot w x) + 511 - unat (tw_cursor w)) mod 512 + 1) else None)"

lemma left_cong:
  "n_slot v x = n_slot w x \<Longrightarrow> n_rounds v x = n_rounds w x \<Longrightarrow> tw_cursor v = tw_cursor w \<Longrightarrow> left v x = left w x"
  by (simp add: left_def node_armed_def)

lemma unlink_others:
  "y \<noteq> x \<Longrightarrow> n_slot (unlink_node x w) y = n_slot w y" "n_rounds (unlink_node x w) = n_rounds w"
  "tw_cursor (unlink_node x w) = tw_cursor w" "tw_tick (unlink_node x w) = tw_tick w"
  "tw_running (unlink_node x w) = tw_running w" "tw_runner_live (unlink_node x w) = tw_runner_live w"
  "\<not> node_armed (unlink_node x w) x"
  by (auto simp: unlink_node_def node_armed_def)

lemma left_unlink: "left (unlink_node x w) = (left w)(x := None)"
  using unlink_others[where w = w and x = x] by (auto simp: left_def node_armed_def fun_eq_iff)

lemma unlink_ok: "wheel_ok w L \<Longrightarrow> \<exists>M. wheel_ok (unlink_node x w) M"
  by (cases "node_armed w x") (blast elim: ok_unlink, auto simp: unlink_node_def)

definition armed_at :: "addr \<Rightarrow> int \<Rightarrow> wheel \<Rightarrow> nat" where
  "armed_at x d w = unat ((ucast (tw_cursor w) + delay_ticks (tw_tick w) d) mod 512)"

lemma armed_at_less: "armed_at x d w < kSlots"
proof -
  have "unat (v mod (512 :: uint64)) < 512" for v
    by (simp add: unat_mod)
  then show ?thesis by (simp add: armed_at_def kSlots_def)
qed

lemma arm_alt:
  "arm x d w = ensure_runner (link_node x (armed_at x d w) (unlink_node x w
     \<lparr>n_rounds := (n_rounds w)(x := ucast ((delay_ticks (tw_tick w) d - 1) div 512))\<rparr>))"
  by (simp add: arm_def armed_at_def unlink_others Let_def)

lemma ensure_runner_same:
  "n_next (ensure_runner w) = n_next w" "n_prev (ensure_runner w) = n_prev w" "tw_slots (ensure_runner w) = tw_slots w"
  "n_slot (ensure_runner w) = n_slot w" "tw_armed (ensure_runner w) = tw_armed w" "tw_cursor (ensure_runner w) = tw_cursor w"
  "tw_tick (ensure_runner w) = tw_tick w" "n_rounds (ensure_runner w) = n_rounds w"
  by (simp_all add: ensure_runner_def)

lemma arm_ok_unarmed:
  assumes "wheel_ok w L" "\<not> node_armed w x"
  shows "wheel_ok (arm x d w) (L(armed_at x d w := x # L (armed_at x d w)))"
proof -
  have u: "unlink_node x w = w" using assms(2) by (simp add: unlink_node_def)
  let ?v = "w\<lparr>n_rounds := (n_rounds w)(x := ucast ((delay_ticks (tw_tick w) d - 1) div 512))\<rparr>"
  have "wheel_ok ?v L" "\<not> node_armed ?v x" using assms ok_cong[of ?v w L] by (simp_all add: node_armed_def)
  from ok_link[OF this armed_at_less] show ?thesis
    unfolding arm_alt u by (subst ok_cong[where w = "link_node x (armed_at x d w) ?v"]) (simp_all add: ensure_runner_same)
qed

lemma arm_ok:
  assumes "wheel_ok w L"
  shows "\<exists>M. wheel_ok (arm x d w) M"
proof -
  obtain M where M: "wheel_ok (unlink_node x w) M" using unlink_ok[OF assms] by blast
  have "unlink_node x (unlink_node x w) = unlink_node x w"
    using unlink_others(7) by (simp add: unlink_node_def[of x "unlink_node x w"])
  then have "arm x d w = arm x d (unlink_node x w)" by (simp add: arm_alt armed_at_def unlink_others)
  then show ?thesis using arm_ok_unarmed[OF M unlink_others(7)] by auto
qed

lemma ceiling_bound:
  assumes "0 < (t :: int)" "0 \<le> d" "d \<le> t * 2 ^ 41"
  shows "0 \<le> (d + t - 1) div t" "(d + t - 1) div t \<le> 2 ^ 41"
proof -
  have "(d + t - 1) div t \<le> (t * 2 ^ 41 + (t - 1)) div t" using assms by (intro zdiv_mono1) auto
  also have "\<dots> = 2 ^ 41" using assms(1) by (intro int_div_pos_eq[where r = "t - 1"]) auto
  finally show "(d + t - 1) div t \<le> 2 ^ 41" .
  show "0 \<le> (d + t - 1) div t" using assms by (simp add: pos_imp_zdiv_nonneg_iff)
qed

lemma slot_distance:
  assumes "c < 512" "1 \<le> n"
  shows "((c + n) mod 512 + 511 - c) mod 512 = (n - 1) mod (512 :: nat)"
proof -
  have "int (((c + n) mod 512 + 511 - c) mod 512) = ((int c + int n) mod 512 + (511 - int c)) mod 512"
    using assms by (simp add: of_nat_diff zmod_int algebra_simps)
  also have "\<dots> = (int c + int n + (511 - int c)) mod 512" by (rule mod_add_left_eq)
  also have "\<dots> = int ((n - 1) mod 512)"
  proof -
    have "int c + int n + (511 - int c) = (int n - 1) + 512" by simp
    then show ?thesis using assms by (simp only: mod_add_self2) (simp add: zmod_int of_nat_diff)
  qed
  finally show ?thesis by simp
qed

lemma delay_ticks_value:
  assumes "0 < t" "0 \<le> d" "d \<le> t * 2 ^ 41"
  shows "unat (delay_ticks t d) = max 1 (nat ((d + t - 1) div t))"
proof -
  let ?q = "(d + t - 1) div t"
  have q: "(d + t - 1) sdiv t = ?q" using assms by (simp add: signed_divide_int_def sgn_if)
  note b = ceiling_bound(2)[OF assms] and nn = ceiling_bound(1)[OF assms]
  define v :: uint64 where "v = word_of_int ?q"
  have u: "uint v = ?q" using b nn by (simp add: v_def uint_word_of_int)
  have "unat v = nat ?q" using u by (metis unat_eq_nat_uint)
  moreover have "v = 0 \<longleftrightarrow> ?q = 0" unfolding u[symmetric] by (simp add: word_uint_eq_iff)
  ultimately show ?thesis using nn unfolding delay_ticks_def q Let_def v_def[symmetric]
    by (cases "?q = 0") simp_all
qed

lemma arm_left:
  assumes "wheel_ok w L" "0 \<le> d" "d \<le> tw_tick w * 2 ^ 41"
  shows "left (arm x d w) x = Some (max 1 (nat ((d + tw_tick w - 1) div tw_tick w)))"
proof -
  define t where "t = delay_ticks (tw_tick w) d"
  define n where "n = max 1 (nat ((d + tw_tick w - 1) div tw_tick w))"
  have pos: "0 < tw_tick w" and c: "unat (tw_cursor w) < 512"
    using assms(1) by (auto simp: wheel_ok_def word_less_nat_alt)
  have t: "unat t = n" using delay_ticks_value[OF pos assms(2,3)] by (simp add: t_def n_def)
  have n: "1 \<le> n" "n \<le> 2 ^ 41" using ceiling_bound[OF pos assms(2,3)] by (auto simp: n_def)
  have r: "unat (ucast ((t - 1) div 512) :: uint32) = (n - 1) div 512"
  proof -
    have "unat (t - 1) = n - 1" using t n unat_minus_one[of t] by (cases "t = 0") auto
    then have "unat ((t - 1) div 512) = (n - 1) div 512" by (simp add: unat_div)
    then show ?thesis using n by (subst unat_ucast_self) simp_all
  qed
  have s: "armed_at x d w = (unat (tw_cursor w) + n) mod 512"
  proof -
    have u: "unat (ucast (tw_cursor w) :: uint64) = unat (tw_cursor w)" using c by (intro unat_ucast_self) simp
    have "t = of_nat n" unfolding t[symmetric] by simp
    then have "unat (ucast (tw_cursor w) + t :: uint64) = unat (tw_cursor w) + n"
      using u c n unat_add_small[of "ucast (tw_cursor w) :: uint64" n] by simp
    then show ?thesis unfolding armed_at_def t_def[symmetric] by (simp add: unat_mod)
  qed
  have "left (arm x d w) x = Some (512 * ((n - 1) div 512) + ((unat (tw_cursor w) + n) mod 512 + 511 - unat (tw_cursor w)) mod 512 + 1)"
    using r unfolding left_def arm_alt t_def[symmetric] by (simp add: ensure_runner_same link_node_def node_armed_def s unlink_others)
  also have "((unat (tw_cursor w) + n) mod 512 + 511 - unat (tw_cursor w)) mod 512 = (n - 1) mod 512" by (rule slot_distance[OF c n(1)])
  finally show ?thesis using n by (simp add: n_def)
qed

lemma arm_left_other: "y \<noteq> x \<Longrightarrow> left (arm x d w) y = left w y"
  by (rule left_cong) (simp_all add: arm_alt ensure_runner_same link_node_def unlink_others)

subsection \<open>One tick\<close>

text \<open>What a callback may do to the wheel: arm timers that are not armed, its own included.\<close>

inductive arms_only :: "wheel \<Rightarrow> wheel \<Rightarrow> bool" where
  nothing: "arms_only w w"
| arms: "arms_only w v \<Longrightarrow> \<not> node_armed v x \<Longrightarrow> arms_only w (arm x d v)"

definition tame :: "callbacks \<Rightarrow> bool" where
  "tame call \<longleftrightarrow> (\<forall>f owner w. arms_only w (call f owner w))"

definition keeps_armed :: "wheel \<Rightarrow> wheel \<Rightarrow> bool" where
  "keeps_armed w v \<longleftrightarrow> tw_cursor v = tw_cursor w \<and> tw_tick v = tw_tick w \<and>
    (\<forall>y. node_armed w y \<longrightarrow> n_slot v y = n_slot w y \<and> n_rounds v y = n_rounds w y)"

lemma arms_only_ok:
  assumes "arms_only w v" "wheel_ok w L"
  shows "\<exists>M. wheel_ok v M \<and> (\<forall>s. \<exists>new. M s = new @ L s) \<and> keeps_armed w v"
  using assms
proof induction
  case (nothing w)
  then show ?case by (auto simp: keeps_armed_def intro!: exI[of _ L] exI[of _ "[]"])
next
  case (arms w v x d)
  then obtain M where M: "wheel_ok v M" "\<forall>s. \<exists>new. M s = new @ L s" "keeps_armed w v" by blast
  let ?a = "armed_at x d v"
  have "\<forall>s. \<exists>new. (M(?a := x # M ?a)) s = new @ L s" using M(2) by (auto intro: exI[of _ "x # _"]) (metis append_Cons)+
  moreover have "keeps_armed w (arm x d v)"
    using M(3) arms(2) by (auto simp: keeps_armed_def arm_alt ensure_runner_same link_node_def unlink_node_def node_armed_def)
  ultimately show ?case using arm_ok_unarmed[OF M(1) arms(2)] by blast
qed

definition lap :: "addr \<Rightarrow> wheel \<Rightarrow> wheel" where
  "lap x w = w\<lparr>n_rounds := (n_rounds w)(x := n_rounds w x - 1)\<rparr>"

lemma advance_loop_None [simp]: "advance_loop call None fired w = Some (w, fired)"
  by (subst advance_loop.simps) simp

lemma advance_loop_Some:
  "advance_loop call (Some x) fired w =
    (if n_rounds w x > 0 then advance_loop call (n_next w x) fired (lap x w)
     else advance_loop call (n_next w x) (fired @ [x]) (expire call x w))"
  by (subst advance_loop.simps) (simp add: lap_def Let_def)

lemma wheel_okD:
  assumes "wheel_ok w L"
  shows "chain (n_next w) (n_prev w) None (tw_slots w s) (L s)" "distinct (L s)" "x \<in> set (L s) \<longleftrightarrow> n_slot w x = int s"
  using assms by (auto simp: wheel_ok_def wheel_rep_def)

lemma expire_ok:
  assumes "tame call" "wheel_ok w L" "L s = pre @ x # rest"
  shows "\<exists>M pre'. wheel_ok (expire call x w) M \<and> M s = pre' @ rest \<and> keeps_armed (unlink_node x w) (expire call x w)"
proof -
  have a: "n_slot w x = int s" using wheel_okD(3)[OF assms(2), of x s] assms(3) by simp
  then have "node_armed w x" by (simp add: node_armed_def)
  then obtain t ys zs where t: "n_slot w x = int t" "L t = ys @ x # zs" "wheel_ok (unlink_node x w) (L(t := ys @ zs))"
    using ok_unlink[OF assms(2)] by metis
  have ts: "t = s" using t a by simp
  have "distinct (pre @ x # rest)" using wheel_okD(2)[OF assms(2), of s] assms(3) by simp
  moreover have "pre @ x # rest = ys @ x # zs" using t(2) assms(3) ts by simp
  ultimately have zs: "zs = rest" using append_Cons_eq_iff[of x pre rest ys zs] by (metis distinct.simps(2) distinct_append disjoint_iff list.set_intros(1))
  have "arms_only (unlink_node x w) (expire call x w)"
    using assms(1) by (auto simp: expire_def Let_def tame_def intro: arms_only.nothing split: option.splits)
  from arms_only_ok[OF this t(3)] show ?thesis using zs ts by (metis append.assoc fun_upd_same)
qed

text \<open>What the walk over the timers \<open>rest\<close> of a slot does to the timers of the wheel.\<close>

definition walked :: "wheel \<Rightarrow> wheel \<Rightarrow> addr list \<Rightarrow> bool" where
  "walked w v rest \<longleftrightarrow> tw_cursor v = tw_cursor w \<and> tw_tick v = tw_tick w \<and>
    (\<forall>y. node_armed w y \<and> y \<notin> set rest \<longrightarrow> n_slot v y = n_slot w y \<and> n_rounds v y = n_rounds w y) \<and>
    (\<forall>y \<in> set rest. n_rounds w y > 0 \<longrightarrow> n_slot v y = n_slot w y \<and> n_rounds v y = n_rounds w y - 1)"

lemma walkedD:
  assumes "walked w v rest"
  shows "tw_cursor v = tw_cursor w" "tw_tick v = tw_tick w"
    "node_armed w y \<Longrightarrow> y \<notin> set rest \<Longrightarrow> n_slot v y = n_slot w y \<and> n_rounds v y = n_rounds w y"
    "y \<in> set rest \<Longrightarrow> n_rounds w y > 0 \<Longrightarrow> n_slot v y = n_slot w y \<and> n_rounds v y = n_rounds w y - 1"
  using assms by (auto simp: walked_def)

lemma walked_lap:
  assumes "walked (lap x w) v rest" "n_rounds w x > 0" "x \<notin> set rest" "node_armed w x"
  shows "walked w v (x # rest)"
  unfolding walked_def
proof (intro conjI allI ballI impI; (elim conjE)?)
  note D = walkedD[OF assms(1)]
  show "tw_cursor v = tw_cursor w" "tw_tick v = tw_tick w" using D(1,2) by (simp_all add: lap_def)
  show "n_slot v y = n_slot w y" "n_rounds v y = n_rounds w y" if "node_armed w y" "y \<notin> set (x # rest)" for y
    using D(3)[of y] that by (simp_all add: lap_def node_armed_def)
  show "n_slot v y = n_slot w y" "n_rounds v y = n_rounds w y - 1" if "y \<in> set (x # rest)" "0 < n_rounds w y" for y
    using D(3)[of y] D(4)[of y] that assms by (cases "y = x"; simp add: lap_def node_armed_def)+
qed

lemma walked_expire:
  assumes "walked u v rest" "keeps_armed (unlink_node x w) u" "n_rounds w x = 0" "x \<notin> set rest" "\<forall>y \<in> set rest. node_armed w y"
  shows "walked w v (x # rest)"
proof -
  have k: "n_slot u y = n_slot w y" "n_rounds u y = n_rounds w y" if "node_armed w y" "y \<noteq> x" for y
    using assms(2) that unlink_others(1)[of y x w] unlink_others(2)[of x w] by (auto simp: keeps_armed_def node_armed_def)
  have "tw_cursor v = tw_cursor w" "tw_tick v = tw_tick w"
    using assms(1,2) by (auto simp: walked_def keeps_armed_def unlink_others)
  moreover have "n_slot v y = n_slot w y \<and> n_rounds v y = n_rounds w y" if "node_armed w y" "y \<noteq> x" "y \<notin> set rest" for y
    using assms(1) k[OF that(1,2)] that by (auto simp: walked_def node_armed_def)
  moreover have "n_slot v y = n_slot w y \<and> n_rounds v y = n_rounds w y - 1" if "y \<in> set rest" "n_rounds w y > 0" for y
  proof -
    have "node_armed w y" "y \<noteq> x" using that assms(4,5) by auto
    from k[OF this] show ?thesis using assms(1) that by (auto simp: walked_def)
  qed
  ultimately show ?thesis using assms(3) by (auto simp: walked_def)
qed

lemma advance_loop_ok:
  assumes "tame call" "wheel_ok w L" "L (unat (tw_cursor w)) = pre @ rest"
  shows "\<exists>v M. advance_loop call (first_of rest) fired w = Some (v, fired @ filter (\<lambda>x. n_rounds w x = 0) rest) \<and>
    wheel_ok v M \<and> walked w v rest"
  using assms(2,3)
proof (induction rest arbitrary: w L pre fired)
  case Nil
  then show ?case by (auto simp: walked_def)
next
  case (Cons x rest)
  let ?c = "unat (tw_cursor w)"
  have d: "distinct (pre @ x # rest)" using wheel_okD(2)[OF Cons.prems(1), of ?c] Cons.prems(2) by simp
  have nx: "n_next w x = first_of rest"
    using chain_mid(1) wheel_okD(1)[OF Cons.prems(1), of ?c] unfolding Cons.prems(2) by blast
  have armed: "node_armed w y" if "y \<in> set (x # rest)" for y
    using wheel_okD(3)[OF Cons.prems(1), of y ?c] Cons.prems(2) that by (auto simp: node_armed_def)
  show ?case
  proof (cases "n_rounds w x > 0")
    case True
    have "wheel_ok (lap x w) L" using Cons.prems(1) by (subst ok_cong[where w = w]) (simp_all add: lap_def)
    moreover have "L (unat (tw_cursor (lap x w))) = (pre @ [x]) @ rest" using Cons.prems(2) by (simp add: lap_def)
    ultimately obtain v M where v: "advance_loop call (first_of rest) fired (lap x w) = Some (v, fired @ filter (\<lambda>y. n_rounds (lap x w) y = 0) rest)"
      "wheel_ok v M" "walked (lap x w) v rest" using Cons.IH by blast
    have f: "filter (\<lambda>y. n_rounds (lap x w) y = 0) rest = filter (\<lambda>y. n_rounds w y = 0) rest"
      using d by (intro filter_cong) (auto simp: lap_def)
    show ?thesis using v walked_lap[OF v(3) True] d armed True nx f by (auto simp: advance_loop_Some)
  next
    case False
    then have z: "n_rounds w x = 0" by (simp add: word_gt_0)
    obtain M pre' where e: "wheel_ok (expire call x w) M" "M ?c = pre' @ rest" "keeps_armed (unlink_node x w) (expire call x w)"
      using expire_ok[OF assms(1) Cons.prems] by blast
    have "tw_cursor (expire call x w) = tw_cursor w" using e(3) by (simp add: keeps_armed_def unlink_others)
    then obtain v N where v: "advance_loop call (first_of rest) (fired @ [x]) (expire call x w) =
        Some (v, (fired @ [x]) @ filter (\<lambda>y. n_rounds (expire call x w) y = 0) rest)"
      "wheel_ok v N" "walked (expire call x w) v rest" using Cons.IH[OF e(1), of pre'] e(2) by fastforce
    have f: "filter (\<lambda>y. n_rounds (expire call x w) y = 0) rest = filter (\<lambda>y. n_rounds w y = 0) rest"
    proof (rule filter_cong)
      fix y assume y: "y \<in> set rest"
      then have "y \<noteq> x" "node_armed w y" using armed[of y] d by auto
      then have "node_armed (unlink_node x w) y" using unlink_others(1)[of y x w] by (simp add: node_armed_def)
      then show "(n_rounds (expire call x w) y = 0) = (n_rounds w y = 0)"
        using e(3) by (simp add: keeps_armed_def unlink_others)
    qed simp
    have "walked w v (x # rest)" using walked_expire[OF v(3) e(3) z] d armed by auto
    then show ?thesis using v(1,2) False nx f z by (auto simp: advance_loop_Some)
  qed
qed

lemma distance_alt:
  "s < 512 \<Longrightarrow> c < 512 \<Longrightarrow> (s + 511 - c) mod 512 = (if s \<le> c then s + 511 - c else s - c - (1 :: nat))"
proof -
  assume a: "s < 512" "c < 512"
  show ?thesis
  proof (cases "s \<le> c")
    case False
    then have e: "s + 511 - c = (s - c - 1) + 512" using a by simp
    show ?thesis unfolding e mod_add_self2 using False a by simp
  qed (use a in simp)
qed

lemma next_distance:
  assumes "s < 512" "c < 512"
  shows "s = (c + 1) mod 512 \<Longrightarrow> (s + 511 - c) mod 512 = 0"
    "s \<noteq> (c + 1) mod 512 \<Longrightarrow> (s + 511 - c) mod 512 = Suc ((s + 511 - (c + 1) mod 512) mod (512 :: nat))"
proof -
  have c: "(c + 1) mod 512 = (if c = 511 then 0 else c + 1)" using assms by auto
  then have c': "(c + 1) mod 512 < 512" using assms by auto
  show "s = (c + 1) mod 512 \<Longrightarrow> (s + 511 - c) mod 512 = 0" using c assms by (auto split: if_splits)
  show "s \<noteq> (c + 1) mod 512 \<Longrightarrow> (s + 511 - c) mod 512 = Suc ((s + 511 - (c + 1) mod 512) mod 512)"
    unfolding distance_alt[OF assms] distance_alt[OF assms(1) c'] using c assms by (auto split: if_splits)
qed

definition wheel_inv :: "wheel \<Rightarrow> bool" where
  "wheel_inv w \<longleftrightarrow> (\<exists>L. wheel_ok w L)"

lemma next_tick_ok:
  assumes "wheel_ok w L"
  shows "wheel_ok (next_tick w) L" "unat (tw_cursor (next_tick w)) = (unat (tw_cursor w) + 1) mod 512"
proof -
  have c: "unat (tw_cursor w) < 512" using assms by (simp add: wheel_ok_def word_less_nat_alt)
  have "unat (tw_cursor w + 1) = unat (tw_cursor w) + 1" using c unat_add_small[of "tw_cursor w" 1] by simp
  then show n: "unat (tw_cursor (next_tick w)) = (unat (tw_cursor w) + 1) mod 512" by (simp add: next_tick_def unat_mod)
  have r: "wheel_rep (next_tick w) L" using assms by (subst rep_cong[where w = w]) (simp_all add: next_tick_def wheel_ok_def)
  show "wheel_ok (next_tick w) L"
    using assms r n by (simp add: wheel_ok_def word_less_nat_alt) (simp add: next_tick_def)
qed

lemma slot_less:
  assumes "wheel_ok w L" "node_armed w x"
  shows "nat (n_slot w x) < 512" "x \<in> set (L (nat (n_slot w x)))"
proof -
  show i: "x \<in> set (L (nat (n_slot w x)))" using wheel_okD(3)[OF assms(1)] assms(2) by (simp add: node_armed_def)
  have "L s = []" if "s \<ge> 512" for s using assms(1) that by (simp add: wheel_ok_def kSlots_def)
  then show "nat (n_slot w x) < 512" using i by (metis empty_iff empty_set not_le)
qed

lemma left_advance:
  assumes ok: "wheel_ok w L" and wk: "walked (next_tick w) v (L (unat (tw_cursor (next_tick w))))"
    and l: "left w x = Some (Suc (Suc k))"
  shows "left v x = Some (Suc k)"
proof -
  define c c' s r where d: "c = unat (tw_cursor w)" "c' = (c + 1) mod 512" "s = nat (n_slot w x)" "r = unat (n_rounds w x)"
  have c: "c < 512" using ok by (simp add: wheel_ok_def word_less_nat_alt d)
  have armed: "node_armed w x" using l by (auto simp: left_def split: if_splits)
  note s = slot_less[OF ok armed, folded d]
  have c': "unat (tw_cursor (next_tick w)) = c'" using next_tick_ok(2)[OF ok] by (simp add: d)
  have same: "n_slot (next_tick w) = n_slot w" "n_rounds (next_tick w) = n_rounds w" by (simp_all add: next_tick_def)
  have cv: "unat (tw_cursor v) = c'" using walkedD(1)[OF wk] c' by simp
  have l0: "512 * r + (s + 511 - c) mod 512 = Suc k" using l armed by (simp add: left_def d)
  show ?thesis
  proof (cases "s = c'")
    case True
    then have z: "(s + 511 - c) mod 512 = 0" using next_distance(1)[OF s(1) c] d by simp
    then have "r > 0" using l0 by (cases r) auto
    then have pos: "n_rounds w x > 0" by (metis d(4) unat_gt_0 word_gt_0)
    have "n_slot v x = n_slot w x \<and> n_rounds v x = n_rounds w x - 1"
      using walkedD(4)[OF wk, of x] s(2) True c' pos by (simp add: same)
    moreover have "unat (n_rounds w x - 1) = r - 1" using pos d(4) unat_minus_one[of "n_rounds w x"] by auto
    ultimately have "left v x = Some (512 * (r - 1) + (s + 511 - c') mod 512 + 1)"
      using armed cv by (simp add: left_def node_armed_def d)
    then show ?thesis using True l0 z \<open>r > 0\<close> by (cases r) auto
  next
    case False
    have "x \<notin> set (L c')" using False s(2) wheel_okD(3)[OF ok, of x c'] armed by (auto simp: d node_armed_def)
    then have "n_slot v x = n_slot w x \<and> n_rounds v x = n_rounds w x"
      using walkedD(3)[OF wk, of x] armed c' by (simp add: same node_armed_def)
    then have "left v x = Some (512 * r + (s + 511 - c') mod 512 + 1)"
      using armed cv by (simp add: left_def node_armed_def d)
    then show ?thesis using next_distance(2)[OF s(1) c] False l0 by (simp add: d)
  qed
qed

lemma left_one:
  assumes ok: "wheel_ok w L"
  shows "left w x = Some 1 \<longleftrightarrow> x \<in> set (L (unat (tw_cursor (next_tick w)))) \<and> n_rounds w x = 0"
proof (cases "node_armed w x")
  case True
  have c: "unat (tw_cursor w) < 512" using ok by (simp add: wheel_ok_def word_less_nat_alt)
  note s = slot_less[OF ok True]
  let ?c' = "(unat (tw_cursor w) + 1) mod 512"
  have "(nat (n_slot w x) + 511 - unat (tw_cursor w)) mod 512 = 0 \<longleftrightarrow> nat (n_slot w x) = ?c'"
    using next_distance[OF s(1) c] by (cases "nat (n_slot w x) = ?c'") auto
  then have "left w x = Some 1 \<longleftrightarrow> n_rounds w x = 0 \<and> nat (n_slot w x) = ?c'"
    using True by (auto simp: left_def unat_eq_zero)
  moreover have "x \<in> set (L ?c') \<longleftrightarrow> nat (n_slot w x) = ?c'"
    using wheel_okD(3)[OF ok, of x ?c'] True by (auto simp: node_armed_def)
  ultimately show ?thesis using next_tick_ok(2)[OF ok] by auto
next
  case False
  then show ?thesis using wheel_okD(3)[OF ok, of x] by (auto simp: left_def node_armed_def)
qed

lemma advance_spec:
  assumes "tame call" "wheel_inv w"
  obtains v fired where "advance call w = Some (v, fired)" "wheel_inv v" "tw_tick v = tw_tick w"
    "set fired = {x. left w x = Some 1}" "distinct fired" "\<And>x k. left w x = Some (Suc (Suc k)) \<Longrightarrow> left v x = Some (Suc k)"
proof -
  obtain L where L: "wheel_ok w L" using assms(2) by (auto simp: wheel_inv_def)
  let ?w = "next_tick w" and ?c = "unat (tw_cursor (next_tick w))"
  note ok = next_tick_ok(1)[OF L]
  have h: "tw_slots ?w ?c = first_of (L ?c)" using chain_head wheel_okD(1)[OF ok] by blast
  obtain v M where v: "advance_loop call (first_of (L ?c)) [] ?w = Some (v, filter (\<lambda>x. n_rounds ?w x = 0) (L ?c))"
    "wheel_ok v M" "walked ?w v (L ?c)" using advance_loop_ok[OF assms(1) ok, of "[]" "L ?c" "[]"] by auto
  have "advance call w = Some (v, filter (\<lambda>x. n_rounds w x = 0) (L ?c))"
    using v(1) h by (simp add: advance_def next_tick_def)
  moreover have "tw_tick v = tw_tick w" using walkedD(2)[OF v(3)] by (simp add: next_tick_def)
  moreover have "set (filter (\<lambda>x. n_rounds w x = 0) (L ?c)) = {x. left w x = Some 1}" using left_one[OF L] by auto
  ultimately show ?thesis
    using that v(2) left_advance[OF L v(3)] wheel_okD(2)[OF L] by (auto simp: wheel_inv_def)
qed

subsection \<open>Timers as countdowns\<close>

text \<open>What the users of timers rely on: a count of ticks per armed timer, that arming or cancelling one timer
  does not disturb another, and that a tick lowers every count and expires the timers whose count runs out.\<close>

datatype timer_op = Arm addr int | Cancel addr | Tick

definition concerns :: "addr \<Rightarrow> timer_op \<Rightarrow> bool" where
  "concerns x p = (case p of Arm y d \<Rightarrow> y = x | Cancel y \<Rightarrow> y = x | Tick \<Rightarrow> False)"

fun run_timers :: "(addr \<Rightarrow> int \<Rightarrow> 'w \<Rightarrow> 'w) \<Rightarrow> (addr \<Rightarrow> 'w \<Rightarrow> 'w) \<Rightarrow> ('w \<Rightarrow> ('w \<times> addr list) option) \<Rightarrow>
    timer_op list \<Rightarrow> 'w \<Rightarrow> ('w \<times> addr list list) option" where
  "run_timers a c t [] w = Some (w, [])"
| "run_timers a c t (Arm x d # ps) w = run_timers a c t ps (a x d w)"
| "run_timers a c t (Cancel x # ps) w = run_timers a c t ps (c x w)"
| "run_timers a c t (Tick # ps) w = (case t w of None \<Rightarrow> None
     | Some (w, fired) \<Rightarrow> map_option (\<lambda>(w, log). (w, fired # log)) (run_timers a c t ps w))"

locale countdown =
  fixes inv :: "'w \<Rightarrow> bool" and remaining :: "'w \<Rightarrow> addr \<Rightarrow> nat option"
    and do_arm :: "addr \<Rightarrow> int \<Rightarrow> 'w \<Rightarrow> 'w" and do_cancel :: "addr \<Rightarrow> 'w \<Rightarrow> 'w" and do_tick :: "'w \<Rightarrow> ('w \<times> addr list) option"
  assumes arm_inv: "inv w \<Longrightarrow> inv (do_arm x d w)"
    and arm_frame: "inv w \<Longrightarrow> x \<noteq> y \<Longrightarrow> remaining (do_arm y d w) x = remaining w x"
    and cancel_inv: "inv w \<Longrightarrow> inv (do_cancel x w)"
    and cancel_frame: "inv w \<Longrightarrow> x \<noteq> y \<Longrightarrow> remaining (do_cancel y w) x = remaining w x"
    and tick_total: "inv w \<Longrightarrow> \<exists>v fired. do_tick w = Some (v, fired) \<and> inv v"
    and tick_fires: "inv w \<Longrightarrow> do_tick w = Some (v, fired) \<Longrightarrow> x \<in> set fired \<longleftrightarrow> remaining w x = Some 1"
    and tick_counts: "inv w \<Longrightarrow> do_tick w = Some (v, fired) \<Longrightarrow> remaining w x = Some (Suc (Suc k)) \<Longrightarrow> remaining v x = Some (Suc k)"
begin

lemma run_total:
  "inv w \<Longrightarrow> \<exists>v log. run_timers do_arm do_cancel do_tick ps w = Some (v, log) \<and> inv v \<and> length log = count_list ps Tick"
proof (induction ps arbitrary: w)
  case (Cons p ps)
  show ?case
  proof (cases p)
    case Tick
    obtain v fired where v: "do_tick w = Some (v, fired)" "inv v" using tick_total[OF Cons.prems] by blast
    show ?thesis using Cons.IH[OF v(2)] v Tick by auto
  qed (use Cons.IH[OF arm_inv[OF Cons.prems]] Cons.IH[OF cancel_inv[OF Cons.prems]] in auto)
qed simp

lemma run_on_time:
  "inv w \<Longrightarrow> remaining w x = Some (Suc n) \<Longrightarrow> list_all (Not \<circ> concerns x) ps \<Longrightarrow>
   run_timers do_arm do_cancel do_tick ps w = Some (v, log) \<Longrightarrow>
   (\<forall>i < length log. i < n \<longrightarrow> x \<notin> set (log ! i)) \<and> (n < length log \<longrightarrow> x \<in> set (log ! n))"
proof (induction ps arbitrary: w n log)
  case (Cons p ps)
  show ?case
  proof (cases p)
    case (Arm y d)
    then have "x \<noteq> y" using Cons.prems(3) by (auto simp: concerns_def)
    then have "remaining (do_arm y d w) x = Some (Suc n)" using arm_frame[OF Cons.prems(1)] Cons.prems(2) by simp
    then show ?thesis using Cons.IH[OF arm_inv[OF Cons.prems(1)]] Cons.prems(3,4) Arm by simp
  next
    case (Cancel y)
    then have "x \<noteq> y" using Cons.prems(3) by (auto simp: concerns_def)
    then have "remaining (do_cancel y w) x = Some (Suc n)" using cancel_frame[OF Cons.prems(1)] Cons.prems(2) by simp
    then show ?thesis using Cons.IH[OF cancel_inv[OF Cons.prems(1)]] Cons.prems(3,4) Cancel by simp
  next
    case Tick
    then obtain u fired log' where u: "do_tick w = Some (u, fired)" "run_timers do_arm do_cancel do_tick ps u = Some (v, log')"
      "log = fired # log'" using Cons.prems(4) by (auto split: option.splits)
    have i: "inv u" using tick_total[OF Cons.prems(1)] u(1) by auto
    show ?thesis
    proof (cases n)
      case 0
      then show ?thesis using tick_fires[OF Cons.prems(1) u(1)] Cons.prems(2) u(3) by auto
    next
      case (Suc m)
      then have "x \<notin> set fired" using tick_fires[OF Cons.prems(1) u(1)] Cons.prems(2) by auto
      moreover have "(\<forall>i < length log'. i < m \<longrightarrow> x \<notin> set (log' ! i)) \<and> (m < length log' \<longrightarrow> x \<in> set (log' ! m))"
        using Cons.IH[OF i _ _ u(2), of m] tick_counts[OF Cons.prems(1) u(1)] Cons.prems(2,3) Suc by auto
      ultimately show ?thesis using Suc u(3) by (auto simp: nth_Cons split: nat.splits)
    qed
  qed
qed simp

end

lemma wheel_inv_arm: "wheel_inv w \<Longrightarrow> wheel_inv (arm x d w)"
  using arm_ok by (auto simp: wheel_inv_def)

lemma wheel_inv_cancel: "wheel_inv w \<Longrightarrow> wheel_inv (cancel x w)"
  using unlink_ok by (auto simp: wheel_inv_def cancel_def)

lemma left_cancel: "left (cancel x w) = (left w)(x := None)"
  by (simp add: cancel_def left_unlink)

lemma advance_total: "tame call \<and> wheel_inv w \<Longrightarrow> \<exists>v fired. advance call w = Some (v, fired) \<and> tame call \<and> wheel_inv v"
  by (metis advance_spec)

lemma advance_fires: "tame call \<and> wheel_inv w \<Longrightarrow> advance call w = Some (v, fired) \<Longrightarrow> x \<in> set fired \<longleftrightarrow> left w x = Some 1"
  by (elim conjE, rule advance_spec[of call w]) auto

lemma advance_counts:
  "tame call \<and> wheel_inv w \<Longrightarrow> advance call w = Some (v, fired) \<Longrightarrow> left w x = Some (Suc (Suc k)) \<Longrightarrow> left v x = Some (Suc k)"
  by (elim conjE, rule advance_spec[of call w]) auto

interpretation wheel: countdown "\<lambda>w. tame call \<and> wheel_inv w" left arm cancel "advance call" for call
  by unfold_locales
    (use advance_total advance_fires advance_counts in
      \<open>auto simp: wheel_inv_arm wheel_inv_cancel arm_left_other left_cancel\<close>)

lemma timer_wheel_inv: "wheel_inv (timer_wheel t owners callbacks)"
  unfolding wheel_inv_def wheel_ok_def wheel_rep_def timer_wheel_def entries_def kDefaultTick_def
  by (rule exI[of _ "\<lambda>_. []"]) auto

lemma run_timers_tick:
  "run_timers arm cancel (advance call) ps w = Some (v, log) \<Longrightarrow> tame call \<Longrightarrow> wheel_inv w \<Longrightarrow> tw_tick v = tw_tick w \<and> wheel_inv v"
proof (induction ps arbitrary: w log)
  case (Cons p ps)
  show ?case
  proof (cases p)
    case (Arm x d)
    then show ?thesis using Cons.IH[of "arm x d w"] Cons.prems
      by (simp add: wheel_inv_arm) (simp add: arm_alt ensure_runner_same link_node_def unlink_others)
  next
    case (Cancel x)
    then show ?thesis using Cons.IH[of "cancel x w"] Cons.prems by (simp add: wheel_inv_cancel) (simp add: cancel_def unlink_others)
  next
    case Tick
    then obtain u fired log' where u: "advance call w = Some (u, fired)" "run_timers arm cancel (advance call) ps u = Some (v, log')"
      using Cons.prems(1) by (auto split: option.splits)
    have "wheel_inv u \<and> tw_tick u = tw_tick w" using advance_spec[OF Cons.prems(2,3)] u(1) by (metis option.inject prod.inject)
    then show ?thesis using Cons.IH[OF u(2)] Cons.prems(2) by simp
  qed
qed simp

text \<open>(C18) A timer expires after exactly the ticks its delay rounds up to.  On a wheel with any history of
  arming, cancelling and ticks, whose callbacks do not touch armed timers, arm a timer for a delay and let
  anything happen to other timers: every tick returns, none of the first ones expires the timer, and the
  tick whose number is the delay divided by the tick length, rounded up and at least one, expires it.\<close>

theorem fires_on_schedule:
  assumes "tame call" "run_timers arm cancel (advance call) before (timer_wheel t owners callbacks) = Some (w, log0)"
    and "0 \<le> d" "d \<le> tw_tick w * 2 ^ 41" "list_all (Not \<circ> concerns x) ops"
    and n: "n = max 1 (nat ((d + tw_tick w - 1) div tw_tick w))"
  shows "\<exists>v log. run_timers arm cancel (advance call) ops (arm x d w) = Some (v, log) \<and> length log = count_list ops Tick \<and>
    (\<forall>i < length log. Suc i < n \<longrightarrow> x \<notin> set (log ! i)) \<and> (n \<le> length log \<longrightarrow> x \<in> set (log ! (n - 1)))"
proof -
  have i: "wheel_inv w" using run_timers_tick[OF assms(2,1) timer_wheel_inv] by simp
  then obtain L where L: "wheel_ok w L" by (auto simp: wheel_inv_def)
  have l: "left (arm x d w) x = Some (Suc (n - 1))" using arm_left[OF L assms(3,4), of x] n by simp
  have t: "tame call \<and> wheel_inv (arm x d w)" using assms(1) wheel_inv_arm[OF i] by simp
  obtain v log where v: "run_timers arm cancel (advance call) ops (arm x d w) = Some (v, log)" "length log = count_list ops Tick"
    using wheel.run_total[OF t, of ops] by auto
  show ?thesis using wheel.run_on_time[OF t l assms(5) v(1)] v n by auto
qed

definition quiet :: callbacks where
  "quiet f owner w = w"

theorem fires_on_schedule_witness:
  "\<exists>v log. run_timers arm cancel (advance quiet) [Tick, Tick, Tick] (arm 7 1100 (timer_wheel 500 id (\<lambda>_. None))) = Some (v, log) \<and>
    7 \<notin> set (log ! 0) \<and> 7 \<notin> set (log ! 1) \<and> 7 \<in> set (log ! 2)"
proof -
  have q: "tame quiet" by (simp add: tame_def quiet_def arms_only.nothing)
  have r: "run_timers arm cancel (advance quiet) [] (timer_wheel 500 id (\<lambda>_. None)) = Some (timer_wheel 500 id (\<lambda>_. None), [])" by simp
  have t: "tw_tick (timer_wheel 500 id (\<lambda>_. None)) = 500" by (simp add: timer_wheel_def)
  have n: "3 = max 1 (nat ((1100 + tw_tick (timer_wheel 500 id (\<lambda>_. None)) - 1) div tw_tick (timer_wheel 500 id (\<lambda>_. None))))"
    by (simp add: t)
  obtain v log where v: "run_timers arm cancel (advance quiet) [Tick, Tick, Tick] (arm 7 1100 (timer_wheel 500 id (\<lambda>_. None))) = Some (v, log)"
    "length log = 3" "\<forall>i < length log. Suc i < 3 \<longrightarrow> 7 \<notin> set (log ! i)" "3 \<le> length log \<longrightarrow> 7 \<in> set (log ! (3 - 1))"
    using fires_on_schedule[OF q r _ _ _ n, of 7 "[Tick, Tick, Tick]"] by (auto simp: t concerns_def)
  then show ?thesis by auto
qed



end
