(* ===== verification/Semaphore.thy ===== *)
theory Semaphore
  imports Links Errors
begin

text \<open>
  The coroutine semaphore (\<open>semaphore.cc\<close>, \<open>semaphore.h\<close>).  A waiter is an awaiter that lives in a coroutine
  frame and is linked into the queue of the semaphore while it waits; it is an address here and its fields are
  maps.  Waking a waiter pushes its handle to the ready queue of the scheduler, which is a list.  The wake and
  abort loops follow the links, so they are partial functions; that they return is proved for a well-formed
  queue.
\<close>

record semaphore =
  sm_count :: uint32
  sm_head :: "addr option"
  sm_tail :: "addr option"
  sm_abort_err :: error_t
  sm_aborted :: bool
  sm_ready :: "nat list"
  aw_need :: "addr \<Rightarrow> uint32"
  aw_handle :: "addr \<Rightarrow> nat"
  aw_next :: link
  aw_prev :: link
  aw_err :: "addr \<Rightarrow> error_t"
  aw_queued :: "addr \<Rightarrow> bool"
  aw_granted :: "addr \<Rightarrow> bool"
  aw_consumed :: "addr \<Rightarrow> bool"

definition sem_no_error :: error_t where
  "sem_no_error = error_code 0 System"

definition semaphore_init :: "uint32 \<Rightarrow> semaphore" where
  "semaphore_init n = \<lparr>sm_count = n, sm_head = None, sm_tail = None, sm_abort_err = sem_no_error, sm_aborted = False,
     sm_ready = [], aw_need = (\<lambda>_. 0), aw_handle = (\<lambda>_. 0), aw_next = (\<lambda>_. None), aw_prev = (\<lambda>_. None),
     aw_err = (\<lambda>_. sem_no_error), aw_queued = (\<lambda>_. False), aw_granted = (\<lambda>_. False), aw_consumed = (\<lambda>_. False)\<rparr>"

definition acquire_awaiter :: "addr \<Rightarrow> uint32 \<Rightarrow> semaphore \<Rightarrow> semaphore" where
  "acquire_awaiter x n s = s\<lparr>aw_need := (aw_need s)(x := n), aw_handle := (aw_handle s)(x := 0),
     aw_next := (aw_next s)(x := None), aw_prev := (aw_prev s)(x := None), aw_err := (aw_err s)(x := sem_no_error),
     aw_queued := (aw_queued s)(x := False), aw_granted := (aw_granted s)(x := False), aw_consumed := (aw_consumed s)(x := False)\<rparr>"

definition sem_unlink :: "addr \<Rightarrow> semaphore \<Rightarrow> semaphore" where
  "sem_unlink x s = s\<lparr>sm_head := (if aw_prev s x = None then aw_next s x else sm_head s),
     sm_tail := (if aw_next s x = None then aw_prev s x else sm_tail s),
     aw_next := cut_next (aw_next s) (aw_prev s) x,
     aw_prev := cut_prev (aw_next s) (aw_prev s) x,
     aw_queued := (aw_queued s)(x := False)\<rparr>"

definition grant :: "addr \<Rightarrow> semaphore \<Rightarrow> semaphore" where
  "grant x s = (let s = sem_unlink x s in s\<lparr>aw_granted := (aw_granted s)(x := True),
     sm_count := sm_count s - aw_need s x, sm_ready := sm_ready s @ [aw_handle s x]\<rparr>)"

partial_function (option) wake_ready :: "semaphore \<Rightarrow> semaphore option" where
  "wake_ready s = (case sm_head s of None \<Rightarrow> Some s
     | Some x \<Rightarrow> if aw_need s x \<le> sm_count s then wake_ready (grant x s) else Some s)"

definition await_ready :: "addr \<Rightarrow> semaphore \<Rightarrow> bool \<times> semaphore" where
  "await_ready x s =
    (if sm_aborted s then (True, s\<lparr>aw_err := (aw_err s)(x := sm_abort_err s), aw_consumed := (aw_consumed s)(x := True)\<rparr>)
     else if sm_count s \<ge> aw_need s x then (True, s\<lparr>aw_granted := (aw_granted s)(x := True),
       aw_consumed := (aw_consumed s)(x := True), sm_count := sm_count s - aw_need s x\<rparr>)
     else (False, s))"

definition await_suspend :: "addr \<Rightarrow> nat \<Rightarrow> semaphore \<Rightarrow> semaphore" where
  "await_suspend x h s = s\<lparr>aw_handle := (aw_handle s)(x := h), aw_queued := (aw_queued s)(x := True),
     aw_prev := (aw_prev s)(x := sm_tail s),
     aw_next := (set_at (sm_tail s) (Some x) (aw_next s))(x := None),
     sm_head := (if sm_tail s = None then Some x else sm_head s),
     sm_tail := Some x\<rparr>"

definition await_resume :: "addr \<Rightarrow> semaphore \<Rightarrow> unit expected \<times> semaphore" where
  "await_resume x s = (let s = s\<lparr>aw_consumed := (aw_consumed s)(x := True)\<rparr> in
     if \<not> aw_granted s x then (unexpected (code (aw_err s x)) (domain (aw_err s x)), s) else (Inr (), s))"

definition repay :: "addr \<Rightarrow> semaphore \<Rightarrow> semaphore option" where
  "repay x s = (let s = s\<lparr>sm_count := sm_count s + aw_need s x\<rparr> in if \<not> sm_aborted s then wake_ready s else Some s)"

definition awaiter_destroy :: "addr \<Rightarrow> semaphore \<Rightarrow> semaphore option" where
  "awaiter_destroy x s = (let s = (if aw_queued s x then sem_unlink x s else s) in
     if aw_granted s x \<and> \<not> aw_consumed s x then repay x s else Some s)"

definition try_acquire :: "uint32 \<Rightarrow> semaphore \<Rightarrow> bool \<times> semaphore" where
  "try_acquire n s = (if sm_aborted s \<or> sm_count s < n then (False, s) else (True, s\<lparr>sm_count := sm_count s - n\<rparr>))"

definition sem_release :: "uint32 \<Rightarrow> semaphore \<Rightarrow> semaphore option" where
  "sem_release n s = (if n = 0 then Some s
     else let s = s\<lparr>sm_count := sm_count s + n\<rparr> in if \<not> sm_aborted s then wake_ready s else Some s)"

definition fail_waiter :: "error_t \<Rightarrow> addr \<Rightarrow> semaphore \<Rightarrow> semaphore" where
  "fail_waiter e x s = (let s = sem_unlink x s in s\<lparr>aw_err := (aw_err s)(x := e), sm_ready := sm_ready s @ [aw_handle s x]\<rparr>)"

partial_function (option) abort_loop :: "error_t \<Rightarrow> semaphore \<Rightarrow> semaphore option" where
  "abort_loop e s = (case sm_head s of None \<Rightarrow> Some s | Some x \<Rightarrow> abort_loop e (fail_waiter e x s))"

definition sem_abort :: "error_t \<Rightarrow> semaphore \<Rightarrow> semaphore option" where
  "sem_abort e s = (if sm_aborted s then Some s else abort_loop e (s\<lparr>sm_aborted := True, sm_abort_err := e\<rparr>))"

partial_function (option) waiting_loop :: "semaphore \<Rightarrow> addr option \<Rightarrow> uint32 \<Rightarrow> uint32 option" where
  "waiting_loop s w n = (case w of None \<Rightarrow> Some n | Some x \<Rightarrow> waiting_loop s (aw_next s x) (n + 1))"

definition waiting :: "semaphore \<Rightarrow> uint32 option" where
  "waiting s = waiting_loop s (sm_head s) 0"

text \<open>A guard holds the permits it was made with, or nothing after a reset or a move; assigning to it resets it first.\<close>

type_synonym guard = "uint32 option"

definition guard_reset :: "guard \<Rightarrow> semaphore \<Rightarrow> (guard \<times> semaphore) option" where
  "guard_reset g s = (case g of None \<Rightarrow> Some (None, s) | Some n \<Rightarrow> map_option (\<lambda>s. (None, s)) (sem_release n s))"

definition guard_assign :: "guard \<Rightarrow> guard \<Rightarrow> semaphore \<Rightarrow> (guard \<times> guard \<times> semaphore) option" where
  "guard_assign g src s = map_option (\<lambda>(_, s). (src, None, s)) (guard_reset g s)"

definition sem_guard :: "uint32 \<Rightarrow> unit expected \<Rightarrow> guard expected" where
  "sem_guard n ok = (case ok of Inl e \<Rightarrow> Inl e | Inr _ \<Rightarrow> Inr (Some n))"

subsection \<open>The queue\<close>

definition sem_rep :: "semaphore \<Rightarrow> addr list \<Rightarrow> bool" where
  "sem_rep s q \<longleftrightarrow> chain (aw_next s) (aw_prev s) None (sm_head s) q \<and> distinct q \<and> sm_tail s = last_of None q \<and>
     (\<forall>x. aw_queued s x \<longleftrightarrow> x \<in> set q)"

lemma sem_rep_cong:
  assumes "aw_next t = aw_next s" "aw_prev t = aw_prev s" "sm_head t = sm_head s" "sm_tail t = sm_tail s" "aw_queued t = aw_queued s"
  shows "sem_rep t q \<longleftrightarrow> sem_rep s q"
  using assms by (simp add: sem_rep_def)

lemma sem_rep_unlink:
  assumes "sem_rep s (ys @ x # zs)"
  shows "sem_rep (sem_unlink x s) (ys @ zs)"
proof -
  have c: "chain (aw_next s) (aw_prev s) None (sm_head s) (ys @ x # zs)" and d: "distinct (ys @ x # zs)"
    using assms by (auto simp: sem_rep_def)
  note m = chain_mid[OF c]
  have "(if aw_next s x = None then aw_prev s x else sm_tail s) = last_of None (ys @ zs)"
    using m assms by (auto simp: sem_rep_def first_of_eq last_of_def)
  moreover have "(aw_queued s)(x := False) = (\<lambda>y. y \<in> set (ys @ zs))" using assms d by (auto simp: sem_rep_def fun_eq_iff)
  ultimately show ?thesis using chain_cut[OF c d] d by (auto simp: sem_rep_def sem_unlink_def)
qed

lemma sem_rep_suspend:
  assumes "sem_rep s q" "\<not> aw_queued s x"
  shows "sem_rep (await_suspend x h s) (q @ [x])"
proof -
  have d: "distinct (x # q)" using assms by (auto simp: sem_rep_def)
  have c: "chain (aw_next s) (aw_prev s) None (sm_head s) q" and t: "sm_tail s = last_of None q" using assms by (auto simp: sem_rep_def)
  show ?thesis using chain_push_back[OF c d] d t assms(1) by (auto simp: sem_rep_def await_suspend_def)
qed

lemma sem_rep_head: "sem_rep s q \<Longrightarrow> sm_head s = first_of q"
  by (auto simp: sem_rep_def dest: chain_head)

text \<open>The state after waking the waiters \<open>ws\<close>: what the wake loop changes besides the links.\<close>

definition woken :: "addr list \<Rightarrow> semaphore \<Rightarrow> semaphore \<Rightarrow> bool" where
  "woken ws s t \<longleftrightarrow> unat (sm_count t) + (\<Sum>x \<leftarrow> ws. unat (aw_need s x)) = unat (sm_count s) \<and>
     sm_ready t = sm_ready s @ map (aw_handle s) ws \<and> aw_granted t = (\<lambda>x. aw_granted s x \<or> x \<in> set ws) \<and>
     aw_need t = aw_need s \<and> aw_handle t = aw_handle s \<and> aw_err t = aw_err s \<and> aw_consumed t = aw_consumed s \<and>
     sm_aborted t = sm_aborted s \<and> sm_abort_err t = sm_abort_err s"

lemma grant_woken:
  assumes "aw_need s x \<le> sm_count s"
  shows "woken [x] s (grant x s)"
proof -
  have "unat (sm_count s - aw_need s x) + unat (aw_need s x) = unat (sm_count s)"
    using assms by (simp add: unat_sub word_le_nat_alt)
  then show ?thesis by (auto simp: woken_def grant_def sem_unlink_def Let_def)
qed

lemma woken_trans: "woken us s t \<Longrightarrow> woken vs t u \<Longrightarrow> woken (us @ vs) s u"
  by (auto simp: woken_def)

lemma wake_ready_ok:
  "sem_rep s q \<Longrightarrow> \<exists>t ws rest. wake_ready s = Some t \<and> q = ws @ rest \<and> sem_rep t rest \<and> woken ws s t \<and>
     (rest = [] \<or> aw_need t (hd rest) > sm_count t)"
proof (induction q arbitrary: s)
  case Nil
  then have "sm_head s = None" by (auto dest: sem_rep_head)
  then have "wake_ready s = Some s" by (simp add: wake_ready.simps)
  then show ?case using Nil by (auto simp: woken_def)
next
  case (Cons x q)
  have h: "sm_head s = Some x" using sem_rep_head[OF Cons.prems] by simp
  show ?case
  proof (cases "aw_need s x \<le> sm_count s")
    case True
    have "sem_rep (grant x s) q"
      using sem_rep_unlink[of s "[]"] Cons.prems by (subst sem_rep_cong[where s = "sem_unlink x s"]) (simp_all add: grant_def Let_def)
    then obtain t ws rest where t: "wake_ready (grant x s) = Some t" "q = ws @ rest" "sem_rep t rest" "woken ws (grant x s) t"
      "rest = [] \<or> aw_need t (hd rest) > sm_count t" using Cons.IH by blast
    have "wake_ready s = Some t" using h True t(1) by (subst wake_ready.simps) simp
    moreover have "woken (x # ws) s t" using woken_trans[OF grant_woken[OF True] t(4)] by simp
    ultimately show ?thesis using t by (metis append_Cons)
  next
    case False
    then have "wake_ready s = Some s" using h by (subst wake_ready.simps) simp
    then show ?thesis using Cons.prems False by (auto simp: woken_def intro!: exI[of _ "[]"])
  qed
qed

lemma abort_loop_ok:
  "sem_rep s q \<Longrightarrow> \<exists>t. abort_loop e s = Some t \<and> sem_rep t [] \<and> sm_count t = sm_count s \<and>
     sm_ready t = sm_ready s @ map (aw_handle s) q \<and> aw_err t = (\<lambda>x. if x \<in> set q then e else aw_err s x) \<and>
     aw_granted t = aw_granted s \<and> aw_need t = aw_need s \<and> aw_consumed t = aw_consumed s \<and>
     sm_aborted t = sm_aborted s \<and> sm_abort_err t = sm_abort_err s"
proof (induction q arbitrary: s)
  case Nil
  then have "sm_head s = None" by (auto dest: sem_rep_head)
  then show ?case using Nil by (subst abort_loop.simps) auto
next
  case (Cons x q)
  have h: "sm_head s = Some x" using sem_rep_head[OF Cons.prems] by simp
  have "sem_rep (fail_waiter e x s) q"
    using sem_rep_unlink[of s "[]"] Cons.prems by (subst sem_rep_cong[where s = "sem_unlink x s"]) (simp_all add: fail_waiter_def Let_def)
  from Cons.IH[OF this] show ?case using h by (subst abort_loop.simps) (auto simp: fail_waiter_def sem_unlink_def Let_def fun_eq_iff)
qed

subsection \<open>Clients of a semaphore\<close>

text \<open>
  The semaphore together with the frames that use it: the awaiters that are suspended or woken and not yet
  resumed, and the permits the clients hold.  A step is one thing a client or the scheduler does: start an
  acquire, resume a woken waiter, destroy a frame that waits, give permits back, try to acquire, or abort.
\<close>

record sem_world =
  sw_sem :: semaphore
  sw_alive :: "addr list"
  sw_held :: nat

definition sem_world_init :: "uint32 \<Rightarrow> sem_world" where
  "sem_world_init n = \<lparr>sw_sem = semaphore_init n, sw_alive = [], sw_held = 0\<rparr>"

definition start_acquire :: "addr \<Rightarrow> uint32 \<Rightarrow> nat \<Rightarrow> sem_world \<Rightarrow> sem_world" where
  "start_acquire x n h w = (case await_ready x (acquire_awaiter x n (sw_sem w)) of
      (True, s) \<Rightarrow> w\<lparr>sw_sem := s, sw_held := sw_held w + (if aw_granted s x then unat n else 0)\<rparr>
    | (False, s) \<Rightarrow> w\<lparr>sw_sem := await_suspend x h s, sw_alive := x # sw_alive w\<rparr>)"

definition resume_waiter :: "addr \<Rightarrow> sem_world \<Rightarrow> sem_world option" where
  "resume_waiter x w = (let (r, s) = await_resume x (sw_sem w) in
     map_option (\<lambda>s. w\<lparr>sw_sem := s, sw_alive := remove1 x (sw_alive w),
       sw_held := sw_held w + (if isl r then 0 else unat (aw_need s x))\<rparr>) (awaiter_destroy x s))"

definition destroy_waiter :: "addr \<Rightarrow> sem_world \<Rightarrow> sem_world option" where
  "destroy_waiter x w = map_option (\<lambda>s. w\<lparr>sw_sem := s, sw_alive := remove1 x (sw_alive w)\<rparr>) (awaiter_destroy x (sw_sem w))"

definition give_back :: "uint32 \<Rightarrow> sem_world \<Rightarrow> sem_world option" where
  "give_back n w = map_option (\<lambda>s. w\<lparr>sw_sem := s, sw_held := sw_held w - unat n\<rparr>) (sem_release n (sw_sem w))"

definition try_once :: "uint32 \<Rightarrow> sem_world \<Rightarrow> sem_world" where
  "try_once n w = (case try_acquire n (sw_sem w) of (ok, s) \<Rightarrow> w\<lparr>sw_sem := s, sw_held := sw_held w + (if ok then unat n else 0)\<rparr>)"

definition abort_all :: "error_t \<Rightarrow> sem_world \<Rightarrow> sem_world option" where
  "abort_all e w = map_option (\<lambda>s. w\<lparr>sw_sem := s\<rparr>) (sem_abort e (sw_sem w))"

inductive sem_step :: "bool \<Rightarrow> sem_world \<Rightarrow> sem_world \<Rightarrow> bool" for orderly :: bool where
  acquires: "x \<notin> set (sw_alive w) \<Longrightarrow> sem_step orderly w (start_acquire x n h w)"
| resumes: "x \<in> set (sw_alive w) \<Longrightarrow> \<not> aw_queued (sw_sem w) x \<Longrightarrow> resume_waiter x w = Some v \<Longrightarrow> sem_step orderly w v"
| destroys: "x \<in> set (sw_alive w) \<Longrightarrow> \<not> (orderly \<and> aw_queued (sw_sem w) x) \<Longrightarrow> destroy_waiter x w = Some v \<Longrightarrow> sem_step orderly w v"
| releases: "unat n \<le> sw_held w \<Longrightarrow> give_back n w = Some v \<Longrightarrow> sem_step orderly w v"
| tries: "sem_step orderly w (try_once n w)"
| aborts: "abort_all e w = Some v \<Longrightarrow> sem_step orderly w v"

inductive_cases sem_stepE: "sem_step orderly w v"

subsection \<open>Permits are conserved\<close>

definition pending :: "semaphore \<Rightarrow> addr list \<Rightarrow> nat" where
  "pending s xs = (\<Sum>x \<in> set xs. if aw_granted s x then unat (aw_need s x) else 0)"

definition permits :: "semaphore \<Rightarrow> addr list \<Rightarrow> nat" where
  "permits s xs = unat (sm_count s) + pending s xs"

definition sem_ok :: "semaphore \<Rightarrow> addr list \<Rightarrow> bool" where
  "sem_ok s xs \<longleftrightarrow> (\<exists>q. sem_rep s q \<and> set q \<subseteq> set xs) \<and> distinct xs \<and>
     (\<forall>x \<in> set xs. \<not> aw_consumed s x \<and> (aw_queued s x \<longrightarrow> \<not> aw_granted s x))"

definition head_waits :: "semaphore \<Rightarrow> bool" where
  "head_waits s \<longleftrightarrow> sm_aborted s \<or> (case sm_head s of None \<Rightarrow> True | Some x \<Rightarrow> aw_need s x > sm_count s)"

lemma sem_rep_queued: "sem_rep s q \<Longrightarrow> aw_queued s x \<longleftrightarrow> x \<in> set q"
  by (simp add: sem_rep_def)

lemma wake_ok:
  assumes "sem_ok s xs"
  shows "\<exists>t. wake_ready s = Some t \<and> sem_ok t xs \<and> permits t xs = permits s xs \<and> head_waits t"
proof -
  obtain q where q: "sem_rep s q" "set q \<subseteq> set xs" using assms by (auto simp: sem_ok_def)
  obtain t ws rest where t: "wake_ready s = Some t" "q = ws @ rest" "sem_rep t rest" "woken ws s t"
    "rest = [] \<or> aw_need t (hd rest) > sm_count t" using wake_ready_ok[OF q(1)] by blast
  have d: "distinct ws" "set ws \<inter> set rest = {}" using q(1) t(2) by (auto simp: sem_rep_def)
  have w: "set ws \<subseteq> set xs" using q(2) t(2) by auto
  have g: "\<not> aw_granted s x" if "x \<in> set q" for x
    using assms that q sem_rep_queued[OF q(1)] by (auto simp: sem_ok_def)
  have "pending t xs = (\<Sum>x \<in> set xs. (if aw_granted s x then unat (aw_need s x) else 0) + (if x \<in> set ws then unat (aw_need s x) else 0))"
    unfolding pending_def using t(2,4) g by (intro sum.cong) (auto simp: woken_def)
  also have "\<dots> = pending s xs + (\<Sum>x \<in> set ws. unat (aw_need s x))"
    unfolding sum.distrib pending_def using w by (simp add: sum.If_cases Int_absorb1)
  also have "(\<Sum>x \<in> set ws. unat (aw_need s x)) = (\<Sum>x \<leftarrow> ws. unat (aw_need s x))"
    using d(1) by (simp add: sum_list_distinct_conv_sum_set)
  finally have "permits t xs = permits s xs" using t(4) by (simp add: permits_def woken_def)
  moreover have "\<not> aw_granted t x" if "aw_queued t x" for x
    using that sem_rep_queued[OF t(3)] g[of x] t(2,4) d(2) by (auto simp: woken_def)
  then have "sem_ok t xs" using assms t(2,3,4) q(2) by (auto simp: sem_ok_def woken_def)
  moreover have "head_waits t" using t(5) sem_rep_head[OF t(3)] by (cases rest) (simp_all add: head_waits_def)
  ultimately show ?thesis using t(1) by blast
qed

lemma sem_ok_count: "sem_ok (s\<lparr>sm_count := c\<rparr>) xs \<longleftrightarrow> sem_ok s xs"
  by (auto simp: sem_ok_def sem_rep_def)

lemma sem_ok_remove:
  assumes "sem_ok s xs" "\<not> aw_queued s x"
  shows "sem_ok s (remove1 x xs)"
proof -
  obtain q where q: "sem_rep s q" "set q \<subseteq> set xs" using assms(1) by (auto simp: sem_ok_def)
  have "x \<notin> set q" using assms(2) sem_rep_queued[OF q(1)] by simp
  moreover have "distinct xs" using assms(1) by (simp add: sem_ok_def)
  ultimately have "set q \<subseteq> set (remove1 x xs)" using q(2) by auto
  moreover have "set (remove1 x xs) \<subseteq> set xs" by (rule set_remove1_subset)
  ultimately show ?thesis using assms(1) q(1) unfolding sem_ok_def by (metis distinct_remove1 subsetD)
qed

lemma pending_remove:
  assumes "distinct xs" "x \<in> set xs"
  shows "pending s xs = pending s (remove1 x xs) + (if aw_granted s x then unat (aw_need s x) else 0)"
  unfolding pending_def using assms by (simp add: sum.remove[of "set xs" x] set_remove1_eq)

definition sem_inv :: "nat \<Rightarrow> sem_world \<Rightarrow> bool" where
  "sem_inv n w \<longleftrightarrow> sem_ok (sw_sem w) (sw_alive w) \<and> permits (sw_sem w) (sw_alive w) + sw_held w = n"

lemma sem_ok_cong:
  assumes "sem_ok s xs" "aw_next t = aw_next s" "aw_prev t = aw_prev s" "sm_head t = sm_head s" "sm_tail t = sm_tail s"
    "aw_queued t = aw_queued s" "\<And>y. y \<in> set xs \<Longrightarrow> aw_consumed t y = aw_consumed s y \<and> aw_granted t y = aw_granted s y"
  shows "sem_ok t xs"
  using assms by (auto simp: sem_ok_def sem_rep_def)

lemma pending_cong:
  assumes "\<And>y. y \<in> set xs \<Longrightarrow> aw_granted t y = aw_granted s y \<and> aw_need t y = aw_need s y"
  shows "pending t xs = pending s xs"
  unfolding pending_def using assms by (intro sum.cong) auto

lemma head_waits_less:
  assumes "head_waits s" "sm_count t \<le> sm_count s" "sm_head t = sm_head s" "aw_need t = aw_need s" "sm_aborted t = sm_aborted s"
  shows "head_waits t"
  using assms by (auto simp: head_waits_def split: option.splits)

lemma sem_ok_not_alive:
  assumes "sem_ok s xs" "x \<notin> set xs"
  shows "\<not> aw_queued s x"
  using assms by (auto simp: sem_ok_def sem_rep_def)

lemma awaiter_sel [simp]:
  "sm_count (acquire_awaiter x n s) = sm_count s" "sm_head (acquire_awaiter x n s) = sm_head s" "sm_aborted (acquire_awaiter x n s) = sm_aborted s"
  "aw_need (acquire_awaiter x n s) = (aw_need s)(x := n)" "aw_granted (acquire_awaiter x n s) = (aw_granted s)(x := False)"
  "aw_consumed (acquire_awaiter x n s) = (aw_consumed s)(x := False)" "aw_queued (acquire_awaiter x n s) = (aw_queued s)(x := False)"
  by (simp_all add: acquire_awaiter_def)

lemma suspend_sel [simp]:
  "sm_count (await_suspend x h s) = sm_count s" "sm_aborted (await_suspend x h s) = sm_aborted s" "aw_need (await_suspend x h s) = aw_need s"
  "aw_granted (await_suspend x h s) = aw_granted s" "aw_consumed (await_suspend x h s) = aw_consumed s"
  "sm_head (await_suspend x h s) = (if sm_tail s = None then Some x else sm_head s)"
  by (simp_all add: await_suspend_def)

lemma unlink_sel [simp]:
  "sm_count (sem_unlink x s) = sm_count s" "sm_aborted (sem_unlink x s) = sm_aborted s" "aw_need (sem_unlink x s) = aw_need s"
  "aw_granted (sem_unlink x s) = aw_granted s" "aw_consumed (sem_unlink x s) = aw_consumed s"
  "aw_queued (sem_unlink x s) = (aw_queued s)(x := False)"
  by (simp_all add: sem_unlink_def)

lemma sem_ok_fresh:
  assumes "sem_ok s xs" "x \<notin> set xs"
  shows "sem_ok (acquire_awaiter x n s) xs" "pending (acquire_awaiter x n s) xs = pending s xs"
    "head_waits (acquire_awaiter x n s) = head_waits s"
proof -
  let ?s = "acquire_awaiter x n s"
  obtain q where q: "sem_rep s q" "set q \<subseteq> set xs" using assms(1) by (auto simp: sem_ok_def)
  have x: "x \<notin> set q" using q(2) assms(2) by auto
  have c: "chain (aw_next s) (aw_prev s) None (sm_head s) q" using q(1) by (simp add: sem_rep_def)
  have "chain (aw_next ?s) (aw_prev ?s) None (sm_head s) q"
    using x by (intro chain_frame[OF c]) (auto simp: acquire_awaiter_def)
  then have r: "sem_rep ?s q" using q(1) x by (simp add: sem_rep_def acquire_awaiter_def)
  have c: "\<not> aw_consumed ?s y \<and> (aw_queued ?s y \<longrightarrow> \<not> aw_granted ?s y)" if "y \<in> set xs" for y
    using assms that by (auto simp: sem_ok_def)
  show "sem_ok ?s xs" using r c q(2) assms(1) unfolding sem_ok_def by blast
  show "pending ?s xs = pending s xs" using assms(2) by (intro pending_cong) auto
  have "sm_head s \<noteq> Some x" using sem_rep_head[OF q(1)] x by (auto simp: first_of_eq)
  then show "head_waits ?s = head_waits s" by (auto simp: head_waits_def split: option.splits)
qed

lemma unat_minus: "(a :: uint32) \<le> b \<Longrightarrow> unat (b - a) + unat a = unat b"
  by (simp add: unat_sub word_le_nat_alt)

lemma sem_ok_suspend:
  assumes "sem_ok s xs" "x \<notin> set xs" "\<not> aw_consumed s x" "\<not> aw_granted s x"
  shows "sem_ok (await_suspend x h s) (x # xs)" "pending (await_suspend x h s) (x # xs) = pending s xs"
proof -
  obtain q where q: "sem_rep s q" "set q \<subseteq> set xs" using assms(1) by (auto simp: sem_ok_def)
  have r: "sem_rep (await_suspend x h s) (q @ [x])" using sem_rep_suspend[OF q(1) sem_ok_not_alive[OF assms(1,2)]] .
  have "\<not> aw_granted s y" if "y \<in> set xs" "y \<in> set q" for y using assms(1) sem_rep_queued[OF q(1)] that by (auto simp: sem_ok_def)
  then show "sem_ok (await_suspend x h s) (x # xs)"
    unfolding sem_ok_def using q(2) assms r sem_rep_queued[OF r]
    by (intro conjI exI[of _ "q @ [x]"]) (auto simp: sem_ok_def)
  show "pending (await_suspend x h s) (x # xs) = pending s xs"
    using assms(2,4) pending_cong[of xs "await_suspend x h s" s] by (simp add: pending_def)
qed

lemma start_inv:
  assumes "sem_inv n w" "x \<notin> set (sw_alive w)"
  shows "sem_inv n (start_acquire x k h w) \<and> (head_waits (sw_sem w) \<longrightarrow> head_waits (sw_sem (start_acquire x k h w)))"
proof -
  let ?s = "acquire_awaiter x k (sw_sem w)" and ?xs = "sw_alive w"
  have ok: "sem_ok (sw_sem w) ?xs" and p: "permits (sw_sem w) ?xs + sw_held w = n" using assms(1) by (auto simp: sem_inv_def)
  note f = sem_ok_fresh[OF ok assms(2), of k]
  consider (aborted) "sm_aborted ?s" | (fast) "\<not> sm_aborted ?s" "k \<le> sm_count ?s" | (slow) "\<not> sm_aborted ?s" "k > sm_count ?s" by fastforce
  then show ?thesis
  proof cases
    case aborted
    let ?t = "?s\<lparr>aw_err := (aw_err ?s)(x := sm_abort_err ?s), aw_consumed := (aw_consumed ?s)(x := True)\<rparr>"
    have st: "start_acquire x k h w = w\<lparr>sw_sem := ?t\<rparr>"
      using aborted by (simp add: start_acquire_def await_ready_def)
    have "sem_ok ?t ?xs" using assms(2) by (intro sem_ok_cong[OF f(1)]) auto
    moreover have "pending ?t ?xs = pending ?s ?xs" by (rule pending_cong) simp
    ultimately show ?thesis using st p f(2) aborted by (simp add: sem_inv_def permits_def head_waits_def)
  next
    case fast
    let ?t = "?s\<lparr>aw_granted := (aw_granted ?s)(x := True), aw_consumed := (aw_consumed ?s)(x := True), sm_count := sm_count ?s - k\<rparr>"
    have st: "start_acquire x k h w = w\<lparr>sw_sem := ?t, sw_held := sw_held w + unat k\<rparr>"
      using fast by (simp add: start_acquire_def await_ready_def)
    have "sem_ok ?t ?xs" using assms(2) by (intro sem_ok_cong[OF f(1)]) auto
    moreover have "pending ?t ?xs = pending ?s ?xs" using assms(2) by (intro pending_cong) auto
    moreover have "head_waits ?t" if "head_waits (sw_sem w)"
      using that f(3) fast(2) by - (rule head_waits_less[of ?s], simp_all add: word_le_nat_alt unat_sub)
    ultimately show ?thesis using st p f(2) unat_minus[OF fast(2)] by (simp add: sem_inv_def permits_def)
  next
    case slow
    have st: "start_acquire x k h w = w\<lparr>sw_sem := await_suspend x h ?s, sw_alive := x # ?xs\<rparr>"
      using slow by (simp add: start_acquire_def await_ready_def)
    note u = sem_ok_suspend[OF f(1) assms(2), of h]
    have "head_waits (await_suspend x h ?s)" if "head_waits ?s"
      using that slow by (auto simp: head_waits_def split: option.splits if_splits)
    then show ?thesis using st u p f(2,3) by (simp add: sem_inv_def permits_def)
  qed
qed

lemma resume_inv:
  assumes "sem_inv n w" "x \<in> set (sw_alive w)" "\<not> aw_queued (sw_sem w) x"
  shows "\<exists>v. resume_waiter x w = Some v \<and> sem_inv n v \<and> (head_waits (sw_sem w) \<longrightarrow> head_waits (sw_sem v))"
proof -
  let ?s = "sw_sem w" and ?xs = "sw_alive w"
  have ok: "sem_ok ?s ?xs" and p: "permits ?s ?xs + sw_held w = n" using assms(1) by (auto simp: sem_inv_def)
  have d: "distinct ?xs" using ok by (simp add: sem_ok_def)
  let ?t = "?s\<lparr>aw_consumed := (aw_consumed ?s)(x := True)\<rparr>"
  have r: "resume_waiter x w = Some (w\<lparr>sw_sem := ?t, sw_alive := remove1 x ?xs, sw_held := sw_held w + (if aw_granted ?s x then unat (aw_need ?s x) else 0)\<rparr>)"
    using assms(3) by (simp add: resume_waiter_def await_resume_def awaiter_destroy_def unexpected_def)
  have "sem_ok ?t (remove1 x ?xs)" using d by (intro sem_ok_cong[OF sem_ok_remove[OF ok assms(3)]]) auto
  moreover have "pending ?t (remove1 x ?xs) = pending ?s (remove1 x ?xs)" by (rule pending_cong) simp
  moreover have "head_waits ?s \<longrightarrow> head_waits ?t" by (simp add: head_waits_def split: option.splits)
  ultimately show ?thesis using r p pending_remove[OF d assms(2), of ?s] by (simp add: sem_inv_def permits_def)
qed

lemma add_back:
  assumes "sem_ok s xs" "permits s xs + unat k < 2 ^ 32"
  shows "\<exists>t. (if \<not> sm_aborted s then wake_ready (s\<lparr>sm_count := sm_count s + k\<rparr>) else Some (s\<lparr>sm_count := sm_count s + k\<rparr>)) = Some t \<and>
    sem_ok t xs \<and> permits t xs = permits s xs + unat k \<and> head_waits t"
proof -
  let ?s = "s\<lparr>sm_count := sm_count s + k\<rparr>"
  have u: "unat (sm_count s + k) = unat (sm_count s) + unat k"
    using assms(2) unat_add_small[of "sm_count s" "unat k"] by (simp add: permits_def)
  have ok: "sem_ok ?s xs" using assms(1) by (simp add: sem_ok_count)
  have "pending ?s xs = pending s xs" by (rule pending_cong) simp
  then have p: "permits ?s xs = permits s xs + unat k" using u by (simp add: permits_def)
  show ?thesis
  proof (cases "sm_aborted s")
    case True
    then show ?thesis using ok p by (simp add: head_waits_def)
  next
    case False
    then show ?thesis using wake_ok[OF ok] p by auto
  qed
qed

lemma destroy_inv:
  assumes "sem_inv n w" "n < 2 ^ 32" "x \<in> set (sw_alive w)"
  shows "\<exists>v. destroy_waiter x w = Some v \<and> sem_inv n v \<and>
    (head_waits (sw_sem w) \<and> \<not> aw_queued (sw_sem w) x \<longrightarrow> head_waits (sw_sem v))"
proof -
  let ?s = "sw_sem w" and ?xs = "sw_alive w"
  have ok: "sem_ok ?s ?xs" and p: "permits ?s ?xs + sw_held w = n" using assms(1) by (auto simp: sem_inv_def)
  have d: "distinct ?xs" and nc: "\<not> aw_consumed ?s x" using ok assms(3) by (auto simp: sem_ok_def)
  note pr = pending_remove[OF d assms(3), of ?s]
  show ?thesis
  proof (cases "aw_queued ?s x")
    case True
    let ?t = "sem_unlink x ?s"
    have g: "\<not> aw_granted ?s x" using ok assms(3) True by (auto simp: sem_ok_def)
    obtain q where q: "sem_rep ?s q" "set q \<subseteq> set ?xs" using ok by (auto simp: sem_ok_def)
    then obtain ys zs where "q = ys @ x # zs" using True sem_rep_queued[OF q(1)] by (metis split_list)
    then have t: "sem_rep ?t (ys @ zs)" "set (ys @ zs) \<subseteq> set ?xs" using sem_rep_unlink q by auto
    have "sem_ok ?t ?xs" unfolding sem_ok_def using t ok by (intro conjI exI[of _ "ys @ zs"]) (auto simp: sem_ok_def)
    then have "sem_ok ?t (remove1 x ?xs)" by (rule sem_ok_remove) simp
    moreover have "pending ?t (remove1 x ?xs) = pending ?s (remove1 x ?xs)" by (rule pending_cong) simp
    ultimately show ?thesis using True g p pr by (simp add: destroy_waiter_def awaiter_destroy_def sem_inv_def permits_def)
  next
    case False
    have okr: "sem_ok ?s (remove1 x ?xs)" using sem_ok_remove[OF ok False] .
    show ?thesis
    proof (cases "aw_granted ?s x")
      case True
      have "permits ?s (remove1 x ?xs) + unat (aw_need ?s x) < 2 ^ 32" using True pr p assms(2) by (simp add: permits_def)
      from add_back[OF okr this] obtain t where t: "repay x ?s = Some t" "sem_ok t (remove1 x ?xs)"
        "permits t (remove1 x ?xs) = permits ?s (remove1 x ?xs) + unat (aw_need ?s x)" "head_waits t"
        by (auto simp: repay_def)
      then show ?thesis using False True nc p pr by (simp add: destroy_waiter_def awaiter_destroy_def sem_inv_def permits_def)
    next
      case False2: False
      then show ?thesis using False p pr okr by (simp add: destroy_waiter_def awaiter_destroy_def sem_inv_def permits_def)
    qed
  qed
qed

lemma give_inv:
  assumes "sem_inv n w" "n < 2 ^ 32" "unat k \<le> sw_held w"
  shows "\<exists>v. give_back k w = Some v \<and> sem_inv n v \<and> (head_waits (sw_sem w) \<longrightarrow> head_waits (sw_sem v))"
proof -
  let ?s = "sw_sem w" and ?xs = "sw_alive w"
  have ok: "sem_ok ?s ?xs" and p: "permits ?s ?xs + sw_held w = n" using assms(1) by (auto simp: sem_inv_def)
  have "permits ?s ?xs + unat k < 2 ^ 32" using p assms(2,3) by simp
  from add_back[OF ok this] show ?thesis
    using p assms(1,3) by (auto simp: give_back_def sem_release_def sem_inv_def Let_def split: if_splits)
qed

lemma try_inv:
  assumes "sem_inv n w"
  shows "sem_inv n (try_once k w) \<and> (head_waits (sw_sem w) \<longrightarrow> head_waits (sw_sem (try_once k w)))"
proof (cases "sm_aborted (sw_sem w) \<or> sm_count (sw_sem w) < k")
  case True
  then show ?thesis using assms by (simp add: try_once_def try_acquire_def)
next
  case False
  let ?s = "sw_sem w" and ?xs = "sw_alive w"
  let ?t = "?s\<lparr>sm_count := sm_count ?s - k\<rparr>"
  have le: "k \<le> sm_count ?s" using False by (simp add: not_less)
  have "pending ?t ?xs = pending ?s ?xs" by (rule pending_cong) simp
  moreover have "head_waits ?t" if "head_waits ?s"
    using that le by - (rule head_waits_less[of ?s], simp_all add: word_le_nat_alt unat_sub)
  ultimately show ?thesis using False assms unat_minus[OF le]
    by (simp add: try_once_def try_acquire_def sem_inv_def permits_def sem_ok_count)
qed

lemma abort_inv:
  assumes "sem_inv n w"
  shows "\<exists>v. abort_all e w = Some v \<and> sem_inv n v \<and> (head_waits (sw_sem w) \<longrightarrow> head_waits (sw_sem v))"
proof (cases "sm_aborted (sw_sem w)")
  case True
  then show ?thesis using assms by (simp add: abort_all_def sem_abort_def)
next
  case False
  let ?s = "(sw_sem w)\<lparr>sm_aborted := True, sm_abort_err := e\<rparr>" and ?xs = "sw_alive w"
  have ok: "sem_ok (sw_sem w) ?xs" using assms by (simp add: sem_inv_def)
  have oks: "sem_ok ?s ?xs" by (rule sem_ok_cong[OF ok]) simp_all
  then obtain q where q: "sem_rep ?s q" by (auto simp: sem_ok_def)
  obtain t where t: "abort_loop e ?s = Some t" "sem_rep t []" "sm_count t = sm_count ?s" "aw_granted t = aw_granted ?s" "aw_need t = aw_need ?s"
    "aw_consumed t = aw_consumed ?s" "sm_aborted t" using abort_loop_ok[OF q, of e] by auto
  have "sem_ok t ?xs" unfolding sem_ok_def using t oks sem_rep_queued[OF t(2)] by (auto simp: sem_ok_def intro!: exI[of _ "[]"])
  moreover have "pending t ?xs = pending (sw_sem w) ?xs" using t(4,5) by (intro pending_cong) simp
  ultimately show ?thesis using False t assms by (simp add: abort_all_def sem_abort_def sem_inv_def permits_def head_waits_def)
qed

lemma sem_step_inv:
  assumes "sem_step orderly w v" "sem_inv n w" "n < 2 ^ 32"
  shows "sem_inv n v \<and> (orderly \<and> head_waits (sw_sem w) \<longrightarrow> head_waits (sw_sem v))"
  using assms(1)
proof (cases rule: sem_step.cases)
  case (acquires x k h)
  then show ?thesis using start_inv[OF assms(2)] by simp
next
  case (resumes x)
  then show ?thesis using resume_inv[OF assms(2)] by fastforce
next
  case (destroys x)
  then show ?thesis using destroy_inv[OF assms(2,3)] by fastforce
next
  case (releases k)
  then show ?thesis using give_inv[OF assms(2,3)] by fastforce
next
  case (tries k)
  then show ?thesis using try_inv[OF assms(2)] by simp
next
  case (aborts e)
  then show ?thesis using abort_inv[OF assms(2), of e] by auto
qed

lemma sem_init_inv: "sem_inv (unat n) (sem_world_init n) \<and> head_waits (sw_sem (sem_world_init n))"
  by (auto simp: sem_inv_def sem_world_init_def semaphore_init_def sem_ok_def sem_rep_def permits_def pending_def head_waits_def
      intro!: exI[of _ "[]"])

lemma sem_reachable_inv:
  assumes "(sem_step orderly)\<^sup>*\<^sup>* (sem_world_init n) w"
  shows "sem_inv (unat n) w \<and> (orderly \<longrightarrow> head_waits (sw_sem w))"
  using assms
proof (induction rule: rtranclp_induct)
  case base
  then show ?case using sem_init_inv by simp
next
  case (step v w)
  have "unat n < 2 ^ 32" using unat_word_less[of n] by simp
  then show ?case using sem_step_inv[OF step.hyps(2)] step.IH by blast
qed

text \<open>(C19) Permits are neither lost nor made up.  However acquires, releases, wake-ups, destroyed waiters,
  tries and an abort follow each other, the free permits, the permits the clients hold and the permits granted
  to waiters that have not resumed yet add up to the initial count; so the clients never hold more than that.
  Every operation also returns: releasing held permits, destroying or resuming a waiter and aborting do not
  get stuck in the queue.\<close>

theorem semaphore_conserves:
  assumes "(sem_step False)\<^sup>*\<^sup>* (sem_world_init n) w"
  shows "unat (sm_count (sw_sem w)) + sw_held w +
      (\<Sum>x \<in> set (sw_alive w). if aw_granted (sw_sem w) x then unat (aw_need (sw_sem w) x) else 0) = unat n \<and>
    (\<forall>k e. (unat k \<le> sw_held w \<longrightarrow> give_back k w \<noteq> None) \<and> abort_all e w \<noteq> None) \<and>
    (\<forall>x \<in> set (sw_alive w). destroy_waiter x w \<noteq> None \<and> (\<not> aw_queued (sw_sem w) x \<longrightarrow> resume_waiter x w \<noteq> None))"
proof -
  have i: "sem_inv (unat n) w" using sem_reachable_inv[OF assms] by simp
  have n: "unat n < 2 ^ 32" using unat_word_less[of n] by simp
  have "give_back k w \<noteq> None" if "unat k \<le> sw_held w" for k using give_inv[OF i n that] by auto
  moreover have "abort_all e w \<noteq> None" for e using abort_inv[OF i] by auto
  moreover have "destroy_waiter x w \<noteq> None" if "x \<in> set (sw_alive w)" for x using destroy_inv[OF i n that] by auto
  moreover have "resume_waiter x w \<noteq> None" if "x \<in> set (sw_alive w)" "\<not> aw_queued (sw_sem w) x" for x
    using resume_inv[OF i that] by auto
  ultimately show ?thesis using i by (auto simp: sem_inv_def permits_def pending_def)
qed

theorem semaphore_conserves_witness:
  "\<exists>w. (sem_step False)\<^sup>*\<^sup>* (sem_world_init 1) w \<and> sw_held w = 1 \<and> sw_alive w = [8] \<and> sm_count (sw_sem w) = 0 \<and> destroy_waiter 8 w \<noteq> None"
proof -
  let ?a = "start_acquire 7 1 70 (sem_world_init 1)"
  let ?w = "start_acquire 8 1 80 ?a"
  note ev = start_acquire_def await_ready_def acquire_awaiter_def await_suspend_def sem_world_init_def semaphore_init_def
  have r: "(sem_step False)\<^sup>*\<^sup>* (sem_world_init 1) ?w"
  proof (rule rtranclp.rtrancl_into_rtrancl, rule r_into_rtranclp)
    show "sem_step False (sem_world_init 1) ?a" by (rule acquires) (simp add: sem_world_init_def)
    show "sem_step False ?a ?w" by (rule acquires) (simp add: ev)
  qed
  have "sw_held ?w = 1" "sw_alive ?w = [8]" "sm_count (sw_sem ?w) = 0" by (simp_all add: ev word_le_nat_alt)
  then show ?thesis using semaphore_conserves[OF r] r by (intro exI[of _ ?w]) auto
qed

text \<open>(C20) A waiter that can run is woken.  As long as no waiter is destroyed while it is queued, a semaphore
  that is not aborted never has enough permits for the waiter at the head of its queue.  Releasing wakes the
  longest run of waiters from the head that fits, in the order they began to wait, and leaves the others queued
  in order.\<close>

theorem semaphore_wakes_in_order:
  assumes "(sem_step True)\<^sup>*\<^sup>* (sem_world_init n) w"
  shows "(\<not> sm_aborted (sw_sem w) \<and> sm_head (sw_sem w) = Some x \<longrightarrow> aw_need (sw_sem w) x > sm_count (sw_sem w)) \<and>
    (\<exists>q. chain (aw_next (sw_sem w)) (aw_prev (sw_sem w)) None (sm_head (sw_sem w)) q \<and>
      (\<forall>k. 0 < k \<and> unat k \<le> sw_held w \<and> \<not> sm_aborted (sw_sem w) \<longrightarrow>
        (\<exists>v ws rest. give_back k w = Some v \<and> q = ws @ rest \<and>
          chain (aw_next (sw_sem v)) (aw_prev (sw_sem v)) None (sm_head (sw_sem v)) rest \<and>
          sm_ready (sw_sem v) = sm_ready (sw_sem w) @ map (aw_handle (sw_sem w)) ws \<and>
          (\<forall>y \<in> set ws. aw_granted (sw_sem v) y) \<and> (rest \<noteq> [] \<longrightarrow> aw_need (sw_sem v) (hd rest) > sm_count (sw_sem v)))))"
proof -
  have i: "sem_inv (unat n) w" "head_waits (sw_sem w)" using sem_reachable_inv[OF assms] by simp_all
  obtain q where q: "sem_rep (sw_sem w) q" using i(1) by (auto simp: sem_inv_def sem_ok_def)
  have "\<exists>v ws rest. give_back k w = Some v \<and> q = ws @ rest \<and>
          chain (aw_next (sw_sem v)) (aw_prev (sw_sem v)) None (sm_head (sw_sem v)) rest \<and>
          sm_ready (sw_sem v) = sm_ready (sw_sem w) @ map (aw_handle (sw_sem w)) ws \<and>
          (\<forall>y \<in> set ws. aw_granted (sw_sem v) y) \<and> (rest \<noteq> [] \<longrightarrow> aw_need (sw_sem v) (hd rest) > sm_count (sw_sem v))"
    if "0 < k" "\<not> sm_aborted (sw_sem w)" for k
  proof -
    let ?s = "(sw_sem w)\<lparr>sm_count := sm_count (sw_sem w) + k\<rparr>"
    have "sem_rep ?s q" using q by (subst sem_rep_cong[where s = "sw_sem w"]) simp_all
    then obtain t ws rest where t: "wake_ready ?s = Some t" "q = ws @ rest" "sem_rep t rest" "woken ws ?s t"
      "rest = [] \<or> aw_need t (hd rest) > sm_count t" using wake_ready_ok by blast
    have "give_back k w = Some (w\<lparr>sw_sem := t, sw_held := sw_held w - unat k\<rparr>)"
      using t(1) that by (auto simp: give_back_def sem_release_def)
    then show ?thesis using t(2-5) by (auto simp: sem_rep_def woken_def)
  qed
  moreover have "\<not> sm_aborted (sw_sem w) \<and> sm_head (sw_sem w) = Some x \<longrightarrow> aw_need (sw_sem w) x > sm_count (sw_sem w)"
    using i(2) by (auto simp: head_waits_def)
  moreover have "chain (aw_next (sw_sem w)) (aw_prev (sw_sem w)) None (sm_head (sw_sem w)) q" using q by (simp add: sem_rep_def)
  ultimately show ?thesis by blast
qed

theorem semaphore_wakes_in_order_witness:
  "\<exists>w. (sem_step True)\<^sup>*\<^sup>* (sem_world_init 1) w \<and> sm_head (sw_sem w) = Some 8 \<and> aw_need (sw_sem w) 8 > sm_count (sw_sem w)"
proof -
  let ?w = "start_acquire 8 2 80 (sem_world_init 1)"
  note ev = start_acquire_def await_ready_def acquire_awaiter_def await_suspend_def sem_world_init_def semaphore_init_def
  have r: "(sem_step True)\<^sup>*\<^sup>* (sem_world_init 1) ?w"
    by (rule r_into_rtranclp, rule acquires) (simp add: sem_world_init_def)
  have "sm_head (sw_sem ?w) = Some 8" "\<not> sm_aborted (sw_sem ?w)" by (simp_all add: ev word_le_nat_alt)
  then show ?thesis using semaphore_wakes_in_order[OF r, of 8] r by (intro exI[of _ ?w]) auto
qed


end
