(* ===== verification/Ringbuffer.thy ===== *)
theory Ringbuffer
  imports Prelude
begin

text \<open>
  The single-producer single-consumer ring buffer (\<open>ringbuffer.h\<close>).  Producer and consumer run at the same
  time, so \<open>push\<close> and \<open>pop\<close> are sequences of steps, one per access to a shared variable: the two cursors and the
  slots.  Each side also has its own cached copy of the other's cursor.  Steps of the two sides interleave in
  any order; the release and acquire orderings of the cursors make the slot accesses of the source visible in
  that order, and that no slot is accessed by both sides at once is one of the things proved.  The size is
  \<open>2 ^ k\<close>, as the static assertion of the source demands.  A slot is \<open>None\<close> while no value is constructed in it.
\<close>

unbundle bit_operations_syntax

datatype 'a producer =
    PIdle
  | PReload 'a uint64
  | PStore 'a uint64
  | PPublish 'a uint64

datatype 'a consumer =
    CIdle
  | CReload uint64
  | CTake uint64
  | CPublish 'a uint64

record 'a ringbuffer =
  rb_read :: uint64
  rb_write_cache :: uint64
  rb_write :: uint64
  rb_read_cache :: uint64
  rb_slots :: "nat \<Rightarrow> 'a option"
  rb_producer :: "'a producer"
  rb_consumer :: "'a consumer"
  rb_pushed :: "'a list"
  rb_popped :: "'a list"

definition ringbuffer_init :: "'a ringbuffer" where
  "ringbuffer_init = \<lparr>rb_read = 0, rb_write_cache = 0, rb_write = 0, rb_read_cache = 0, rb_slots = (\<lambda>_. None),
     rb_producer = PIdle, rb_consumer = CIdle, rb_pushed = [], rb_popped = []\<rparr>"

definition next_index :: "nat \<Rightarrow> uint64 \<Rightarrow> uint64" where
  "next_index k i = (i + 1) AND (2 ^ k - 1)"

text \<open>The steps of \<open>push\<close>, and of \<open>emplace\<close>, which differs in building the value in place.\<close>

definition push_begin :: "nat \<Rightarrow> 'a \<Rightarrow> 'a ringbuffer \<Rightarrow> 'a ringbuffer" where
  "push_begin k v b = (let w = rb_write b in
     b\<lparr>rb_producer := (if next_index k w = rb_read_cache b then PReload v w else PStore v w)\<rparr>)"

definition push_reload :: "nat \<Rightarrow> 'a \<Rightarrow> uint64 \<Rightarrow> 'a ringbuffer \<Rightarrow> 'a ringbuffer" where
  "push_reload k v w b = (let b = b\<lparr>rb_read_cache := rb_read b\<rparr> in
     b\<lparr>rb_producer := (if next_index k w = rb_read_cache b then PIdle else PStore v w)\<rparr>)"

definition push_store :: "'a \<Rightarrow> uint64 \<Rightarrow> 'a ringbuffer \<Rightarrow> 'a ringbuffer" where
  "push_store v w b = b\<lparr>rb_slots := (rb_slots b)(unat w := Some v), rb_producer := PPublish v w\<rparr>"

definition push_publish :: "nat \<Rightarrow> 'a \<Rightarrow> uint64 \<Rightarrow> 'a ringbuffer \<Rightarrow> 'a ringbuffer" where
  "push_publish k v w b = b\<lparr>rb_write := next_index k w, rb_producer := PIdle, rb_pushed := rb_pushed b @ [v]\<rparr>"

text \<open>The steps of \<open>pop\<close>.  A value that is not trivially copyable is moved out and its slot destroyed.\<close>

definition pop_begin :: "'a ringbuffer \<Rightarrow> 'a ringbuffer" where
  "pop_begin b = (let r = rb_read b in b\<lparr>rb_consumer := (if r = rb_write_cache b then CReload r else CTake r)\<rparr>)"

definition pop_reload :: "uint64 \<Rightarrow> 'a ringbuffer \<Rightarrow> 'a ringbuffer" where
  "pop_reload r b = (let b = b\<lparr>rb_write_cache := rb_write b\<rparr> in
     b\<lparr>rb_consumer := (if r = rb_write_cache b then CIdle else CTake r)\<rparr>)"

definition pop_take :: "bool \<Rightarrow> 'a \<Rightarrow> uint64 \<Rightarrow> 'a ringbuffer \<Rightarrow> 'a ringbuffer" where
  "pop_take trivial v r b = b\<lparr>rb_slots := (if trivial then rb_slots b else (rb_slots b)(unat r := None)),
     rb_consumer := CPublish v r\<rparr>"

definition pop_publish :: "nat \<Rightarrow> 'a \<Rightarrow> uint64 \<Rightarrow> 'a ringbuffer \<Rightarrow> 'a ringbuffer" where
  "pop_publish k v r b = b\<lparr>rb_read := next_index k r, rb_consumer := CIdle, rb_popped := rb_popped b @ [v]\<rparr>"

inductive rb_step :: "nat \<Rightarrow> bool \<Rightarrow> 'a ringbuffer \<Rightarrow> 'a ringbuffer \<Rightarrow> bool" for k trivial where
  push_begins: "rb_producer b = PIdle \<Longrightarrow> rb_step k trivial b (push_begin k v b)"
| push_reloads: "rb_producer b = PReload v w \<Longrightarrow> rb_step k trivial b (push_reload k v w b)"
| push_stores: "rb_producer b = PStore v w \<Longrightarrow> rb_step k trivial b (push_store v w b)"
| push_publishes: "rb_producer b = PPublish v w \<Longrightarrow> rb_step k trivial b (push_publish k v w b)"
| pop_begins: "rb_consumer b = CIdle \<Longrightarrow> rb_step k trivial b (pop_begin b)"
| pop_reloads: "rb_consumer b = CReload r \<Longrightarrow> rb_step k trivial b (pop_reload r b)"
| pop_takes: "rb_consumer b = CTake r \<Longrightarrow> rb_slots b (unat r) = Some v \<Longrightarrow> rb_step k trivial b (pop_take trivial v r b)"
| pop_publishes: "rb_consumer b = CPublish v r \<Longrightarrow> rb_step k trivial b (pop_publish k v r b)"

inductive_cases rb_stepE: "rb_step k trivial b c"

text \<open>The destructor destroys the values between the cursors.\<close>

function rb_destroy_from :: "nat \<Rightarrow> uint64 \<Rightarrow> uint64 \<Rightarrow> nat \<Rightarrow> (nat \<Rightarrow> 'a option) \<Rightarrow> (nat \<Rightarrow> 'a option)" where
  "rb_destroy_from k r w 0 s = s"
| "rb_destroy_from k r w (Suc fuel) s =
    (if r = w then s else rb_destroy_from k (next_index k r) w fuel (s(unat r := None)))"
  by pat_completeness auto
termination by (relation "measure (\<lambda>(k, r, w, fuel, s). fuel)") auto

definition rb_destroy :: "nat \<Rightarrow> bool \<Rightarrow> 'a ringbuffer \<Rightarrow> 'a ringbuffer" where
  "rb_destroy k trivial b = (if trivial then b
     else b\<lparr>rb_slots := rb_destroy_from k (rb_read b) (rb_write b) (2 ^ k) (rb_slots b)\<rparr>)"

subsection \<open>Positions\<close>

lemma next_index_mod:
  assumes "k < 64" "unat i < 2 ^ k"
  shows "unat (next_index k i) = (unat i + 1) mod 2 ^ k"
proof -
  have "next_index k i = take_bit k (i + 1)" by (simp add: next_index_def take_bit_eq_mask mask_eq_exp_minus_1)
  moreover have "(2 :: nat) ^ k < 2 ^ 64" using assms(1) by (intro power_strict_increasing) auto
  then have "unat (i + 1) = unat i + 1" using assms(2) unat_add_small[of i 1] by simp
  ultimately show ?thesis by (simp only: unsigned_take_bit_eq) (simp add: take_bit_eq_mod)
qed

text \<open>A cursor stands for a number of operations: \<open>points k i n\<close> says that \<open>i\<close> is where operation \<open>n\<close> goes.\<close>

definition points :: "nat \<Rightarrow> uint64 \<Rightarrow> nat \<Rightarrow> bool" where
  "points k i n \<longleftrightarrow> unat i = n mod 2 ^ k"

lemma points_next: "k < 64 \<Longrightarrow> points k i n \<Longrightarrow> points k (next_index k i) (Suc n)"
  by (simp add: points_def next_index_mod mod_Suc_eq)

lemma points_eq: "points k i m \<Longrightarrow> points k j n \<Longrightarrow> i = j \<longleftrightarrow> m mod 2 ^ k = n mod 2 ^ k"
  by (auto simp: points_def word_unat_eq_iff)

definition staged :: "'a ringbuffer \<Rightarrow> 'a list" where
  "staged b = (case rb_producer b of PPublish v w \<Rightarrow> [v] | _ \<Rightarrow> [])"

definition taken :: "'a ringbuffer \<Rightarrow> 'a list" where
  "taken b = (case rb_consumer b of CPublish v r \<Rightarrow> [v] | _ \<Rightarrow> [])"

fun producer_ok :: "'a producer \<Rightarrow> uint64 \<Rightarrow> bool \<Rightarrow> bool" where
  "producer_ok PIdle write room = True"
| "producer_ok (PReload v w) write room = (w = write)"
| "producer_ok (PStore v w) write room = (w = write \<and> room)"
| "producer_ok (PPublish v w) write room = (w = write)"

fun consumer_ok :: "'a consumer \<Rightarrow> uint64 \<Rightarrow> bool \<Rightarrow> bool" where
  "consumer_ok CIdle read some = True"
| "consumer_ok (CReload r) read some = (r = read)"
| "consumer_ok (CTake r) read some = (r = read \<and> some)"
| "consumer_ok (CPublish v r) read some = (r = read)"

text \<open>The invariant: \<open>rc\<close> and \<open>wc\<close> are the operations the cached cursors stand for.  The values in flight are those
  pushed, with the one being published, without those popped, with the one already taken.\<close>

definition rb_ok :: "nat \<Rightarrow> bool \<Rightarrow> 'a ringbuffer \<Rightarrow> nat \<Rightarrow> nat \<Rightarrow> bool" where
  "rb_ok k trivial b rc wc \<longleftrightarrow> (let ins = rb_pushed b @ staged b; outs = rb_popped b @ taken b in
     points k (rb_write b) (length (rb_pushed b)) \<and> points k (rb_read b) (length (rb_popped b)) \<and>
     points k (rb_read_cache b) rc \<and> points k (rb_write_cache b) wc \<and>
     rc \<le> length (rb_popped b) \<and> length outs \<le> wc \<and> wc \<le> length (rb_pushed b) \<and> length ins < rc + 2 ^ k \<and>
     outs = take (length outs) ins \<and>
     (\<forall>i. length outs \<le> i \<and> i < length ins \<longrightarrow> rb_slots b (i mod 2 ^ k) = Some (ins ! i)) \<and>
     (trivial \<or> (\<forall>j. rb_slots b j \<noteq> None \<longrightarrow> (\<exists>i. length outs \<le> i \<and> i < length ins \<and> j = i mod 2 ^ k))) \<and>
     producer_ok (rb_producer b) (rb_write b) (Suc (length ins) < rc + 2 ^ k) \<and>
     consumer_ok (rb_consumer b) (rb_read b) (length outs < wc))"

lemma rb_ok_init: "rb_ok k trivial ringbuffer_init 0 0"
  by (simp add: rb_ok_def ringbuffer_init_def points_def staged_def taken_def)

lemma rb_okD:
  assumes "rb_ok k trivial b rc wc"
  shows "points k (rb_write b) (length (rb_pushed b))" "points k (rb_read b) (length (rb_popped b))"
    "points k (rb_read_cache b) rc" "points k (rb_write_cache b) wc" "rc \<le> length (rb_popped b)"
    "length (rb_popped b @ taken b) \<le> wc" "wc \<le> length (rb_pushed b)" "length (rb_pushed b @ staged b) < rc + 2 ^ k"
    "rb_popped b @ taken b = take (length (rb_popped b @ taken b)) (rb_pushed b @ staged b)"
    "\<And>i. length (rb_popped b @ taken b) \<le> i \<Longrightarrow> i < length (rb_pushed b @ staged b) \<Longrightarrow> rb_slots b (i mod 2 ^ k) = Some ((rb_pushed b @ staged b) ! i)"
    "trivial \<or> (\<forall>j. rb_slots b j \<noteq> None \<longrightarrow> (\<exists>i. length (rb_popped b @ taken b) \<le> i \<and> i < length (rb_pushed b @ staged b) \<and> j = i mod 2 ^ k))"
    "producer_ok (rb_producer b) (rb_write b) (Suc (length (rb_pushed b @ staged b)) < rc + 2 ^ k)"
    "consumer_ok (rb_consumer b) (rb_read b) (length (rb_popped b @ taken b) < wc)"
  using assms unfolding rb_ok_def Let_def by blast+

lemma points_differ: "points k i m \<Longrightarrow> points k j n \<Longrightarrow> m \<le> n \<Longrightarrow> n \<le> m + 2 ^ k \<Longrightarrow> i \<noteq> j \<Longrightarrow> m < n \<and> n < m + 2 ^ k"
  using points_eq[of k i m j n] by (cases "n = m + 2 ^ k") (auto simp: le_less)

lemma push_begin_ok:
  assumes "k < 64" "rb_ok k trivial b rc wc" "rb_producer b = PIdle"
  shows "rb_ok k trivial (push_begin k v b) rc wc"
proof -
  note D = rb_okD[OF assms(2)]
  have n: "points k (next_index k (rb_write b)) (Suc (length (rb_pushed b)))" using points_next[OF assms(1) D(1)] .
  have st: "staged b = []" using assms(3) by (simp add: staged_def)
  have "Suc (length (rb_pushed b)) < rc + 2 ^ k" if "next_index k (rb_write b) \<noteq> rb_read_cache b"
    using points_differ[OF D(3) n] D(5-8) st that by auto
  moreover have "staged (push_begin k v b) = []" "taken (push_begin k v b) = taken b"
    by (simp_all add: push_begin_def Let_def staged_def taken_def split: producer.splits)
  ultimately show ?thesis using assms(2) st unfolding rb_ok_def Let_def by (simp add: push_begin_def Let_def)
qed

lemma push_reload_ok:
  assumes "k < 64" "rb_ok k trivial b rc wc" "rb_producer b = PReload v w"
  shows "rb_ok k trivial (push_reload k v w b) (length (rb_popped b)) wc"
proof -
  note D = rb_okD[OF assms(2)]
  have w: "w = rb_write b" using D(12) assms(3) by simp
  have n: "points k (next_index k (rb_write b)) (Suc (length (rb_pushed b)))" using points_next[OF assms(1) D(1)] .
  have st: "staged b = []" using assms(3) by (simp add: staged_def)
  have "Suc (length (rb_pushed b)) < length (rb_popped b) + 2 ^ k" if "next_index k (rb_write b) \<noteq> rb_read b"
    using points_differ[OF D(2) n] D(5-8) st that by auto
  moreover have "staged (push_reload k v w b) = []" "taken (push_reload k v w b) = taken b"
    by (simp_all add: push_reload_def Let_def staged_def taken_def)
  ultimately show ?thesis using assms(2) st w unfolding rb_ok_def Let_def by (simp add: push_reload_def Let_def)
qed

lemma push_store_ok:
  assumes "rb_ok k trivial b rc wc" "rb_producer b = PStore v w"
  shows "rb_ok k trivial (push_store v w b) rc wc"
proof -
  note D = rb_okD[OF assms(1)]
  have w: "w = rb_write b" "Suc (length (rb_pushed b)) < rc + 2 ^ k" using D(12) assms(2) by (auto simp: staged_def)
  let ?p = "length (rb_pushed b)" and ?b = "push_store v w b"
  have st: "staged b = []" "staged ?b = [v]" "taken ?b = taken b" using assms(2) by (simp_all add: push_store_def staged_def taken_def)
  have u: "unat w = ?p mod 2 ^ k" using D(1) w by (simp add: points_def)
  have apart: "i mod 2 ^ k \<noteq> ?p mod 2 ^ k" if "length (rb_popped b @ taken b) \<le> i" "i < ?p" for i
    using mod_apart[of i ?p k] that D(5,8) by auto
  have sl: "rb_slots ?b (i mod 2 ^ k) = Some ((rb_pushed b @ [v]) ! i)" if "length (rb_popped b @ taken b) \<le> i" "i < Suc ?p" for i
  proof (cases "i = ?p")
    case True
    then show ?thesis using u by (simp add: push_store_def)
  next
    case False
    then have "i < ?p" using that by simp
    then show ?thesis using apart[OF that(1)] D(10)[of i] that st u by (simp add: push_store_def nth_append)
  qed
  have "trivial \<or> (\<forall>j. rb_slots ?b j \<noteq> None \<longrightarrow> (\<exists>i. length (rb_popped b @ taken b) \<le> i \<and> i < Suc ?p \<and> j = i mod 2 ^ k))"
  proof (cases trivial)
    case False
    have "\<exists>i. length (rb_popped b @ taken b) \<le> i \<and> i < Suc ?p \<and> j = i mod 2 ^ k" if "rb_slots ?b j \<noteq> None" for j
    proof (cases "j = unat w")
      case True
      then show ?thesis using u D(6,7) by (intro exI[of _ ?p]) auto
    next
      case False2: False
      then have "rb_slots b j \<noteq> None" using that by (simp add: push_store_def)
      then show ?thesis using D(11) False st(1) by (metis append_Nil2 less_SucI)
    qed
    then show ?thesis by simp
  qed simp
  then show ?thesis unfolding rb_ok_def Let_def using D(1-9,13) st w sl by (simp add: push_store_def)
qed

lemma push_publish_ok:
  assumes "k < 64" "rb_ok k trivial b rc wc" "rb_producer b = PPublish v w"
  shows "rb_ok k trivial (push_publish k v w b) rc wc"
proof -
  note D = rb_okD[OF assms(2)]
  have w: "w = rb_write b" and st: "staged b = [v]" using D(12) assms(3) by (auto simp: staged_def)
  have "staged (push_publish k v w b) = []" "taken (push_publish k v w b) = taken b"
    by (simp_all add: push_publish_def staged_def taken_def)
  then show ?thesis using assms(2) st w points_next[OF assms(1) D(1)] unfolding rb_ok_def Let_def by (simp add: push_publish_def del: take_append)
qed

lemma pop_begin_ok:
  assumes "rb_ok k trivial b rc wc" "rb_consumer b = CIdle"
  shows "rb_ok k trivial (pop_begin b) rc wc"
proof -
  note D = rb_okD[OF assms(1)]
  have t: "taken b = []" "taken (pop_begin b) = []" "staged (pop_begin b) = staged b"
    using assms(2) by (simp_all add: pop_begin_def Let_def taken_def staged_def)
  have "length (rb_popped b) < wc" if "rb_read b \<noteq> rb_write_cache b"
    using points_differ[OF D(2,4)] D(5-8) t(1) that by auto
  then show ?thesis using assms(1) t unfolding rb_ok_def Let_def by (simp add: pop_begin_def Let_def del: take_append)
qed

lemma pop_reload_ok:
  assumes "rb_ok k trivial b rc wc" "rb_consumer b = CReload r"
  shows "rb_ok k trivial (pop_reload r b) rc (length (rb_pushed b))"
proof -
  note D = rb_okD[OF assms(1)]
  have r: "r = rb_read b" using D(13) assms(2) by simp
  have t: "taken b = []" "taken (pop_reload r b) = []" "staged (pop_reload r b) = staged b"
    using assms(2) by (simp_all add: pop_reload_def Let_def taken_def staged_def)
  have "length (rb_popped b) < length (rb_pushed b)" if "rb_read b \<noteq> rb_write b"
    using points_differ[OF D(2,1)] D(5-8) t(1) that by auto
  then show ?thesis using assms(1) t r unfolding rb_ok_def Let_def by (simp add: pop_reload_def Let_def del: take_append)
qed

lemma pop_take_ok:
  assumes "rb_ok k trivial b rc wc" "rb_consumer b = CTake r" "rb_slots b (unat r) = Some v"
  shows "rb_ok k trivial (pop_take trivial v r b) rc wc"
proof -
  note D = rb_okD[OF assms(1)]
  let ?q = "length (rb_popped b)" and ?ins = "rb_pushed b @ staged b" and ?b = "pop_take trivial v r b"
  have t: "taken b = []" "taken ?b = [v]" "staged ?b = staged b"
    using assms(2) by (simp_all add: pop_take_def taken_def staged_def)
  have r: "r = rb_read b" "?q < wc" using D(13) assms(2) t(1) by auto
  have u: "unat r = ?q mod 2 ^ k" using D(2) r by (simp add: points_def)
  have q: "?q < length ?ins" using r(2) D(7) by simp
  have v: "v = ?ins ! ?q" using D(10)[of ?q] q t(1) u assms(3) by simp
  have outs: "rb_popped b @ [v] = take (Suc ?q) ?ins" using D(9) t(1) v q by (simp add: take_Suc_conv_app_nth del: take_append)
  have apart: "i mod 2 ^ k \<noteq> unat r" if "?q < i" "i < length ?ins" for i
    using mod_apart[of ?q i k] that D(5,8) u by auto
  have sl: "rb_slots ?b (i mod 2 ^ k) = Some (?ins ! i)" if "?q < i" "i < length ?ins" for i
    using apart[OF that] D(10)[of i] that t(1) by (simp add: pop_take_def)
  have "trivial \<or> (\<forall>j. rb_slots ?b j \<noteq> None \<longrightarrow> (\<exists>i. Suc ?q \<le> i \<and> i < length ?ins \<and> j = i mod 2 ^ k))"
  proof (cases trivial)
    case False
    have "\<exists>i. Suc ?q \<le> i \<and> i < length ?ins \<and> j = i mod 2 ^ k" if "rb_slots ?b j \<noteq> None" for j
    proof -
      have j: "j \<noteq> unat r" "rb_slots b j \<noteq> None" using that False by (auto simp: pop_take_def split: if_splits)
      then obtain i where i: "?q \<le> i" "i < length ?ins" "j = i mod 2 ^ k" using D(11) False t(1) by auto
      then show ?thesis using j(1) u by (intro exI[of _ i]) (auto simp: le_less)
    qed
    then show ?thesis by simp
  qed simp
  then show ?thesis unfolding rb_ok_def Let_def using D(1-8,12) t r sl outs by (simp add: pop_take_def Suc_le_eq del: take_append)
qed

lemma pop_publish_ok:
  assumes "k < 64" "rb_ok k trivial b rc wc" "rb_consumer b = CPublish v r"
  shows "rb_ok k trivial (pop_publish k v r b) rc wc"
proof -
  note D = rb_okD[OF assms(2)]
  have r: "r = rb_read b" and t: "taken b = [v]" using D(13) assms(3) by (auto simp: taken_def)
  have "taken (pop_publish k v r b) = []" "staged (pop_publish k v r b) = staged b"
    by (simp_all add: pop_publish_def staged_def taken_def)
  then show ?thesis using assms(2) t r points_next[OF assms(1) D(2)] unfolding rb_ok_def Let_def by (simp add: pop_publish_def del: take_append)
qed

lemma rb_step_ok: "rb_step k trivial b c \<Longrightarrow> k < 64 \<Longrightarrow> rb_ok k trivial b rc wc \<Longrightarrow> \<exists>rc wc. rb_ok k trivial c rc wc"
  by (erule rb_stepE)
    (blast intro: push_begin_ok push_reload_ok push_store_ok push_publish_ok pop_begin_ok pop_reload_ok pop_take_ok pop_publish_ok)+

lemma rb_reachable_ok:
  assumes "(rb_step k trivial)\<^sup>*\<^sup>* ringbuffer_init b" "k < 64"
  shows "\<exists>rc wc. rb_ok k trivial b rc wc"
  using assms(1) by (induction rule: rtranclp_induct) (use rb_ok_init rb_step_ok assms(2) in blast)+

text \<open>(C17) The ring buffer is a bounded queue between two threads.  In every interleaving of the steps of one
  producer and one consumer, what has been popped is a prefix of what has been pushed and at most one less than
  the size is in flight; the two sides never access the same slot at once; the consumer only reads slots
  that hold a value, and the producer only constructs in slots that hold none; and a push is refused only
  when the buffer was full, a pop only when it was empty.\<close>

theorem ringbuffer_fifo:
  assumes "k < 64" "(rb_step k trivial)\<^sup>*\<^sup>* ringbuffer_init b"
  shows "(\<exists>rest. rb_pushed b = rb_popped b @ rest \<and> length rest < 2 ^ k) \<and>
    (rb_producer b = PStore v w \<and> rb_consumer b = CTake r \<longrightarrow> w \<noteq> r) \<and>
    (rb_consumer b = CTake r \<longrightarrow> rb_slots b (unat r) \<noteq> None) \<and>
    (rb_producer b = PStore v w \<and> \<not> trivial \<longrightarrow> rb_slots b (unat w) = None) \<and>
    (rb_producer b = PReload v w \<and> rb_producer (push_reload k v w b) = PIdle \<longrightarrow> Suc (length (rb_pushed b)) = length (rb_popped b) + 2 ^ k) \<and>
    (rb_consumer b = CReload r \<and> rb_consumer (pop_reload r b) = CIdle \<longrightarrow> rb_pushed b = rb_popped b)"
proof -
  obtain rc wc where ok: "rb_ok k trivial b rc wc" using rb_reachable_ok[OF assms(2,1)] by blast
  note D = rb_okD[OF ok]
  let ?p = "length (rb_pushed b)" and ?q = "length (rb_popped b)"
  have qp: "?q \<le> ?p" "?p < ?q + 2 ^ k" using D(5-8) by auto
  have pre: "rb_popped b = take ?q (rb_pushed b)"
    using D(9) qp(1) by (metis append_eq_conv_conj append_take_drop_id append.assoc take_append diff_is_0_eq take_0 append_Nil2)
  then have 1: "\<exists>rest. rb_pushed b = rb_popped b @ rest \<and> length rest < 2 ^ k"
    using qp by (intro exI[of _ "drop ?q (rb_pushed b)"]) (metis append_take_drop_id length_drop less_diff_conv2 add.commute)
  have store: "w = rb_write b \<and> Suc ?p < rc + 2 ^ k" if "rb_producer b = PStore v w" using D(12) that by (simp add: staged_def)
  have tk: "r = rb_read b \<and> ?q < wc" if "rb_consumer b = CTake r" using D(13) that by (simp add: taken_def)
  have 2: "w \<noteq> r" if "rb_producer b = PStore v w" "rb_consumer b = CTake r"
    using store[OF that(1)] tk[OF that(2)] points_eq[OF D(2,1)] mod_apart[OF qp] D(7) by auto
  have 3: "rb_slots b (unat r) \<noteq> None" if "rb_consumer b = CTake r"
    using tk[OF that] D(10)[of ?q] D(2,7) that by (simp add: points_def taken_def)
  have 4: "rb_slots b (unat w) = None" if pst: "rb_producer b = PStore v w" and nt: "\<not> trivial"
  proof (rule ccontr)
    assume a: "rb_slots b (unat w) \<noteq> None"
    have st: "staged b = []" using pst by (simp add: staged_def)
    obtain i where "?q + length (taken b) \<le> i" "i < ?p" "unat w = i mod 2 ^ k"
      using D(11) nt a unfolding st length_append by auto
    then have i: "?q \<le> i" "i < ?p" "unat w = i mod 2 ^ k" by auto
    then show False using mod_apart[of i ?p k] store[OF pst] D(1) qp(2) by (auto simp: points_def)
  qed
  have n: "points k (next_index k (rb_write b)) (Suc ?p)" using points_next[OF assms(1) D(1)] .
  have 5: "Suc ?p = ?q + 2 ^ k" if "rb_producer b = PReload v w" "rb_producer (push_reload k v w b) = PIdle"
  proof -
    have "next_index k (rb_write b) = rb_read b" using that D(12) by (auto simp: push_reload_def Let_def split: if_splits)
    then have "?q mod 2 ^ k = Suc ?p mod 2 ^ k" using points_eq[OF n D(2)] by simp
    then show ?thesis using mod_apart[of ?q "Suc ?p" k] qp by (cases "Suc ?p < ?q + 2 ^ k") auto
  qed
  have 6: "rb_pushed b = rb_popped b" if "rb_consumer b = CReload r" "rb_consumer (pop_reload r b) = CIdle"
  proof -
    have "rb_read b = rb_write b" using that D(13) by (auto simp: pop_reload_def Let_def split: if_splits)
    then have "?q = ?p" using points_eq[OF D(2,1)] mod_apart[OF qp] by simp
    then show ?thesis using pre by simp
  qed
  show ?thesis using 1 2 3 4 5 6 by blast
qed

theorem ringbuffer_fifo_witness:
  "\<exists>b. (rb_step 1 False)\<^sup>*\<^sup>* (ringbuffer_init :: nat ringbuffer) b \<and> rb_producer b = PReload 6 1 \<and>
     rb_producer (push_reload 1 6 1 b) = PIdle \<and> Suc (length (rb_pushed b)) = length (rb_popped b) + 2 ^ 1"
proof -
  let ?a = "push_begin 1 5 (ringbuffer_init :: nat ringbuffer)"
  let ?b = "push_store 5 0 ?a"
  let ?c = "push_publish 1 5 0 ?b"
  let ?d = "push_begin 1 6 ?c"
  note ev = push_begin_def push_store_def push_publish_def push_reload_def ringbuffer_init_def next_index_def Let_def
  have s: "rb_step 1 False ringbuffer_init ?a" "rb_step 1 False ?a ?b" "rb_step 1 False ?b ?c" "rb_step 1 False ?c ?d"
    by (rule push_begins push_stores push_publishes; simp add: ev)+
  have r: "(rb_step 1 False)\<^sup>*\<^sup>* (ringbuffer_init :: nat ringbuffer) ?d"
    using s by (meson converse_rtranclp_into_rtranclp rtranclp.rtrancl_refl)
  have "rb_producer ?d = PReload 6 1" "rb_producer (push_reload 1 6 1 ?d) = PIdle" by (simp_all add: ev)
  then show ?thesis using ringbuffer_fifo[OF _ r, of _ _ _] r by (intro exI[of _ ?d]) auto
qed

end
