(* ===== verification/Io_Slot.thy ===== *)
theory Io_Slot
  imports Prelude
begin

text \<open>
  The slot table that gives io operations their tokens (\<open>io_slot.h\<close>): a token is a slot index and a generation
  packed into the 64 bits of an io\_uring user datum, and a slot that is freed moves to its next generation, so
  that a completion that arrives late is recognised.  Tasks are addresses.  Allocating from an empty table reads
  past the end of the free list in the source and is \<open>None\<close> here.
\<close>

unbundle bit_operations_syntax

record io_slot_t =
  io_task :: "nat option"
  io_generation :: uint32

record io_slot_table =
  io_slots :: "io_slot_t list"
  io_free :: "uint32 list"

definition io_slot_init :: io_slot_t where
  "io_slot_init = \<lparr>io_task = None, io_generation = 1\<rparr>"

definition encode_slot :: "uint32 \<Rightarrow> uint32 \<Rightarrow> uint64" where
  "encode_slot index gen = push_bit 32 (ucast gen) OR ucast index"

definition decode_slot_index :: "uint64 \<Rightarrow> uint32" where
  "decode_slot_index user_data = ucast (user_data AND 0xFFFFFFFF)"

definition decode_slot_generation :: "uint64 \<Rightarrow> uint32" where
  "decode_slot_generation user_data = ucast (drop_bit 32 user_data)"

definition indices :: "nat \<Rightarrow> nat \<Rightarrow> uint32 list" where
  "indices a b = map of_nat [a..<b]"

definition slot_table_init :: "uint32 \<Rightarrow> io_slot_table" where
  "slot_table_init capacity = \<lparr>io_slots = replicate (unat capacity) io_slot_init, io_free = indices 0 (unat capacity)\<rparr>"

definition slots_resize :: "nat \<Rightarrow> io_slot_t list \<Rightarrow> io_slot_t list" where
  "slots_resize n xs = (if n \<le> length xs then take n xs else xs @ replicate (n - length xs) io_slot_init)"

definition slots_grow :: "io_slot_table \<Rightarrow> io_slot_table" where
  "slots_grow t = (if io_free t = [] then
     (let old_size = of_nat (length (io_slots t)) :: uint32; new_size = old_size * 2 in
      t\<lparr>io_slots := slots_resize (unat new_size) (io_slots t), io_free := indices (unat old_size) (unat new_size)\<rparr>)
     else t)"

definition slot_take :: "nat \<Rightarrow> io_slot_table \<Rightarrow> uint64 \<times> io_slot_table" where
  "slot_take tsk t = (let idx = last (io_free t); i = unat idx; slot = (io_slots t ! i)\<lparr>io_task := Some tsk\<rparr> in
     (encode_slot idx (io_generation slot), t\<lparr>io_free := butlast (io_free t), io_slots := (io_slots t)[i := slot]\<rparr>))"

definition slot_alloc :: "nat \<Rightarrow> io_slot_table \<Rightarrow> (uint64 \<times> io_slot_table) option" where
  "slot_alloc tsk t = (let t = slots_grow t in if io_free t = [] then None else Some (slot_take tsk t))"

definition slot_free :: "uint64 \<Rightarrow> io_slot_table \<Rightarrow> io_slot_table" where
  "slot_free user_data t = (let idx = decode_slot_index user_data; i = unat idx; slot = io_slots t ! i in
     t\<lparr>io_slots := (io_slots t)[i := slot\<lparr>io_task := None, io_generation := io_generation slot + 1\<rparr>], io_free := io_free t @ [idx]\<rparr>)"

definition slot_lookup :: "uint64 \<Rightarrow> io_slot_table \<Rightarrow> nat option" where
  "slot_lookup user_data t = (let idx = unat (decode_slot_index user_data) in
     if idx \<ge> length (io_slots t) then None
     else if io_generation (io_slots t ! idx) \<noteq> decode_slot_generation user_data then None
     else io_task (io_slots t ! idx))"

definition for_each_active :: "io_slot_table \<Rightarrow> uint64 list" where
  "for_each_active t = map (\<lambda>i. encode_slot (of_nat i) (io_generation (io_slots t ! i)))
     (filter (\<lambda>i. io_task (io_slots t ! i) \<noteq> None) [0..<length (io_slots t)])"

subsection \<open>Tokens\<close>

lemma decode_encode_slot [simp]:
  "decode_slot_index (encode_slot i g) = i" "decode_slot_generation (encode_slot i g) = g"
proof -
  have 1: "(0xFFFFFFFF :: uint64) = mask 32" by (simp add: mask_eq_exp_minus_1)
  show "decode_slot_index (encode_slot i g) = i"
    unfolding decode_slot_index_def encode_slot_def 1
    by (rule bit_eqI) (auto simp: bit_simps)
  show "decode_slot_generation (encode_slot i g) = g"
    unfolding decode_slot_generation_def encode_slot_def
    by (rule bit_eqI) (auto simp: bit_simps dest: bit_imp_le_length)
qed

lemma encode_decode_slot: "encode_slot (decode_slot_index u) (decode_slot_generation u) = u"
proof -
  have 1: "(0xFFFFFFFF :: uint64) = mask 32" by (simp add: mask_eq_exp_minus_1)
  show ?thesis
    unfolding decode_slot_index_def decode_slot_generation_def encode_slot_def 1
    by (rule bit_eqI) (auto simp: bit_simps not_le)
qed

lemma encode_slot_inj: "encode_slot i g = encode_slot j h \<longleftrightarrow> i = j \<and> g = h"
  by (metis decode_encode_slot)

subsection \<open>The table as a map\<close>

definition table_ok :: "io_slot_table \<Rightarrow> bool" where
  "table_ok t \<longleftrightarrow> length (io_slots t) < 2 ^ 32 \<and> distinct (io_free t) \<and>
     (\<forall>idx \<in> set (io_free t). unat idx < length (io_slots t)) \<and>
     (\<forall>i < length (io_slots t). io_task (io_slots t ! i) = None \<longleftrightarrow> of_nat i \<in> set (io_free t))"

definition busy :: "io_slot_table \<Rightarrow> nat" where
  "busy t = length (filter (\<lambda>s. io_task s \<noteq> None) (io_slots t))"

lemma set_indices: "b < 2 ^ 32 \<Longrightarrow> idx \<in> set (indices a b) \<longleftrightarrow> a \<le> unat idx \<and> unat idx < b"
proof -
  assume b: "b < 2 ^ 32"
  have "idx \<in> set (indices a b) \<longleftrightarrow> (\<exists>i. a \<le> i \<and> i < b \<and> idx = of_nat i)" by (auto simp: indices_def)
  also have "\<dots> \<longleftrightarrow> a \<le> unat idx \<and> unat idx < b"
  proof
    assume "\<exists>i. a \<le> i \<and> i < b \<and> idx = of_nat i"
    then obtain i where i: "a \<le> i" "i < b" "idx = of_nat i" by blast
    then have "unat idx = i" using b by (simp add: unat_of_nat_small)
    then show "a \<le> unat idx \<and> unat idx < b" using i by simp
  qed (auto intro!: exI[of _ "unat idx"])
  finally show ?thesis .
qed

lemma distinct_indices: "b < 2 ^ 32 \<Longrightarrow> distinct (indices a b)"
proof -
  assume b: "b < 2 ^ 32"
  have "inj_on (of_nat :: nat \<Rightarrow> uint32) (set [a..<b])"
  proof (rule inj_onI)
    fix i j assume ij: "i \<in> set [a..<b]" "j \<in> set [a..<b]" and e: "(of_nat i :: uint32) = of_nat j"
    have "unat (of_nat i :: uint32) = i" "unat (of_nat j :: uint32) = j" using b ij by (auto simp: unat_of_nat_small)
    then show "i = j" using e by metis
  qed
  then show ?thesis by (simp add: indices_def distinct_map)
qed

lemma init_ok: "table_ok (slot_table_init n)"
proof -
  have u: "unat n < 2 ^ 32" using unat_word_less[of n] by simp
  have "of_nat i \<in> set (indices 0 (unat n))" if "i < unat n" for i
    using that u by (simp add: set_indices unat_of_nat_small)
  then show ?thesis using u by (auto simp: table_ok_def slot_table_init_def set_indices distinct_indices io_slot_init_def)
qed

lemma all_busy:
  assumes "table_ok t" "io_free t = []"
  shows "busy t = length (io_slots t)"
proof -
  have "io_task x \<noteq> None" if "x \<in> set (io_slots t)" for x
    using assms that by (auto simp: table_ok_def in_set_conv_nth)
  then show ?thesis unfolding busy_def by (simp add: filter_id_conv)
qed

lemma grow_alt:
  assumes "table_ok t" "busy t < 2 ^ 31" "io_free t = []"
  shows "slots_grow t = t\<lparr>io_slots := io_slots t @ replicate (length (io_slots t)) io_slot_init,
    io_free := indices (length (io_slots t)) (2 * length (io_slots t))\<rparr>"
proof -
  let ?n = "length (io_slots t)"
  have n: "?n < 2 ^ 31" using assms all_busy by simp
  have u: "unat (of_nat ?n :: uint32) = ?n" using n by (intro unat_of_nat_small) simp
  have "unat ((of_nat ?n :: uint32) * 2) = 2 * ?n"
    using n u by (simp add: unat_word_ariths)
  then show ?thesis using assms(3) u by (simp add: slots_grow_def Let_def slots_resize_def)
qed

lemma grow_ok:
  assumes "table_ok t" "busy t < 2 ^ 31"
  shows "table_ok (slots_grow t)" "io_slots t \<noteq> [] \<Longrightarrow> io_free (slots_grow t) \<noteq> []" "slot_lookup tok (slots_grow t) = slot_lookup tok t"
proof -
  let ?n = "length (io_slots t)"
  have "table_ok (slots_grow t) \<and> (io_slots t \<noteq> [] \<longrightarrow> io_free (slots_grow t) \<noteq> []) \<and> slot_lookup tok (slots_grow t) = slot_lookup tok t"
  proof (cases "io_free t = []")
    case True
    note g = grow_alt[OF assms True]
    have n: "2 * ?n < 2 ^ 32" using assms all_busy[OF assms(1) True] by simp
    have b: "io_task (io_slots t ! i) \<noteq> None" if "i < ?n" for i using assms(1) that True by (auto simp: table_ok_def)
    have "table_ok (slots_grow t)"
      unfolding table_ok_def g using n b
      by (auto simp: distinct_indices set_indices nth_append io_slot_init_def unat_of_nat_small)
    moreover have "io_free (slots_grow t) \<noteq> []" if "io_slots t \<noteq> []" using that by (simp add: g indices_def)
    moreover have "slot_lookup tok (slots_grow t) = slot_lookup tok t"
      by (auto simp: slot_lookup_def g Let_def nth_append io_slot_init_def)
    ultimately show ?thesis by blast
  next
    case False
    then show ?thesis using assms by (simp add: slots_grow_def)
  qed
  then show "table_ok (slots_grow t)" "io_slots t \<noteq> [] \<Longrightarrow> io_free (slots_grow t) \<noteq> []" "slot_lookup tok (slots_grow t) = slot_lookup tok t"
    by auto
qed

definition gen_of :: "io_slot_table \<Rightarrow> uint32 \<Rightarrow> uint32" where
  "gen_of t idx = (if unat idx < length (io_slots t) then io_generation (io_slots t ! unat idx) else 1)"

lemma gen_of_grow: "table_ok t \<Longrightarrow> busy t < 2 ^ 31 \<Longrightarrow> gen_of (slots_grow t) idx = gen_of t idx"
proof (cases "io_free t = []")
  case True
  assume "table_ok t" "busy t < 2 ^ 31"
  from grow_alt[OF this True] show ?thesis by (simp add: gen_of_def nth_append io_slot_init_def)
qed (simp add: slots_grow_def)

lemma idx_of_nat: "j < 2 ^ 32 \<Longrightarrow> (of_nat j :: uint32) = idx \<longleftrightarrow> j = unat idx"
proof -
  assume "j < 2 ^ 32"
  then have "unat (of_nat j :: uint32) = j" by (intro unat_of_nat_small) simp
  then show ?thesis by (auto simp: word_unat_eq_iff)
qed

lemma slot_take_ok:
  assumes ok: "table_ok t" and ne: "io_free t \<noteq> []" and st: "slot_take tsk t = (new, u)"
  shows "table_ok u" "slot_lookup tok u = (if tok = new then Some tsk else slot_lookup tok t)" "slot_lookup new t = None"
    "gen_of u = gen_of t" "decode_slot_generation new = gen_of t (decode_slot_index new)" "length (io_slots u) = length (io_slots t)"
proof -
  define idx where "idx = last (io_free t)"
  have fr: "io_free t = butlast (io_free t) @ [idx]" using ne by (simp add: idx_def)
  have d: "distinct (butlast (io_free t) @ [idx])" using ok unfolding fr[symmetric] by (simp add: table_ok_def)
  have l: "unat idx < length (io_slots t)" and i: "idx \<in> set (io_free t)" using ok ne by (auto simp: table_ok_def idx_def)
  then have none: "io_task (io_slots t ! unat idx) = None" using ok by (auto simp: table_ok_def)
  have nu: "new = encode_slot idx (gen_of t idx)"
    "u = t\<lparr>io_free := butlast (io_free t), io_slots := (io_slots t)[unat idx := (io_slots t ! unat idx)\<lparr>io_task := Some tsk\<rparr>]\<rparr>"
    using st l by (auto simp: slot_take_def Let_def idx_def gen_of_def)
  show "slot_lookup new t = None" using none by (simp add: slot_lookup_def nu Let_def)
  show "gen_of u = gen_of t" using l by (auto simp: gen_of_def nu fun_eq_iff nth_list_update)
  show "decode_slot_generation new = gen_of t (decode_slot_index new)" by (simp add: nu)
  show "length (io_slots u) = length (io_slots t)" by (simp add: nu)
  show "slot_lookup tok u = (if tok = new then Some tsk else slot_lookup tok t)"
  proof (cases "decode_slot_index tok = idx")
    case True
    then have "tok = new \<longleftrightarrow> decode_slot_generation tok = gen_of t idx" unfolding nu by (metis decode_encode_slot(2) encode_decode_slot)
    then show ?thesis using True l none by (auto simp: slot_lookup_def nu gen_of_def Let_def)
  next
    case False
    then have "unat (decode_slot_index tok) \<noteq> unat idx" by (simp add: word_unat_eq_iff)
    moreover have "tok \<noteq> new" using False nu(1) by auto
    ultimately show ?thesis by (simp add: slot_lookup_def nu Let_def)
  qed
  have "io_task (io_slots u ! j) = None \<longleftrightarrow> of_nat j \<in> set (butlast (io_free t))" if j: "j < length (io_slots t)" for j
  proof -
    have e: "(of_nat j :: uint32) = idx \<longleftrightarrow> j = unat idx"
      using j ok by (intro idx_of_nat) (simp add: table_ok_def)
    have "io_task (io_slots t ! j) = None \<longleftrightarrow> of_nat j \<in> set (butlast (io_free t) @ [idx])"
      using ok j unfolding fr[symmetric] by (simp add: table_ok_def)
    then show ?thesis using e d j l by (auto simp: nu nth_list_update)
  qed
  then show "table_ok u" using ok d by (auto simp: table_ok_def nu dest: in_set_butlastD)
qed

lemma slot_free_ok:
  assumes ok: "table_ok t" and live: "slot_lookup tok t = Some k"
  shows "table_ok (slot_free tok t)" "slot_lookup tok' (slot_free tok t) =
      (if decode_slot_index tok' = decode_slot_index tok then None else slot_lookup tok' t)"
    "gen_of (slot_free tok t) = (gen_of t)(decode_slot_index tok := gen_of t (decode_slot_index tok) + 1)"
    "decode_slot_generation tok = gen_of t (decode_slot_index tok)"
proof -
  define idx where "idx = decode_slot_index tok"
  have l: "unat idx < length (io_slots t)" and g: "io_generation (io_slots t ! unat idx) = decode_slot_generation tok"
    and tk: "io_task (io_slots t ! unat idx) = Some k"
    using live by (auto simp: slot_lookup_def idx_def Let_def split: if_splits)
  have nf: "idx \<notin> set (io_free t)" using ok l tk by (auto simp: table_ok_def)
  have f: "slot_free tok t = t\<lparr>io_slots := (io_slots t)[unat idx := (io_slots t ! unat idx)\<lparr>io_task := None,
      io_generation := io_generation (io_slots t ! unat idx) + 1\<rparr>], io_free := io_free t @ [idx]\<rparr>"
    by (simp add: slot_free_def idx_def Let_def)
  show "decode_slot_generation tok = gen_of t (decode_slot_index tok)" using l g by (simp add: gen_of_def idx_def)
  show "gen_of (slot_free tok t) = (gen_of t)(decode_slot_index tok := gen_of t (decode_slot_index tok) + 1)"
    using l by (auto simp: f gen_of_def fun_eq_iff nth_list_update idx_def[symmetric] word_unat_eq_iff)
  have "unat (decode_slot_index tok') = unat idx \<longleftrightarrow> decode_slot_index tok' = idx" by (simp add: word_unat_eq_iff)
  then show "slot_lookup tok' (slot_free tok t) = (if decode_slot_index tok' = decode_slot_index tok then None else slot_lookup tok' t)"
    using l by (auto simp: slot_lookup_def f Let_def idx_def[symmetric] nth_list_update)
  have "io_task (io_slots (slot_free tok t) ! j) = None \<longleftrightarrow> of_nat j \<in> set (io_free t @ [idx])" if j: "j < length (io_slots t)" for j
  proof -
    have e: "(of_nat j :: uint32) = idx \<longleftrightarrow> j = unat idx"
      using j ok by (intro idx_of_nat) (simp add: table_ok_def)
    then show ?thesis using ok j l by (auto simp: table_ok_def f nth_list_update)
  qed
  then show "table_ok (slot_free tok t)" using ok nf l by (auto simp: table_ok_def f)
qed

subsection \<open>Tokens in use\<close>

text \<open>The table with its history: the operations in flight by token, every token ever given out, and how many
  slots have been freed.  Fewer than \<open>2 ^ 31\<close> operations are in flight, so growing the table does not wrap.\<close>

record slot_world =
  sl_table :: io_slot_table
  sl_live :: "uint64 \<Rightarrow> nat option"
  sl_issued :: "uint64 set"
  sl_frees :: nat

definition slot_world_init :: "uint32 \<Rightarrow> slot_world" where
  "slot_world_init n = \<lparr>sl_table = slot_table_init n, sl_live = (\<lambda>_. None), sl_issued = {}, sl_frees = 0\<rparr>"

inductive slot_step :: "slot_world \<Rightarrow> slot_world \<Rightarrow> bool" where
  allocates: "busy (sl_table w) < 2 ^ 31 \<Longrightarrow> slot_alloc tsk (sl_table w) = Some (tok, t) \<Longrightarrow>
    slot_step w (w\<lparr>sl_table := t, sl_live := (sl_live w)(tok \<mapsto> tsk), sl_issued := insert tok (sl_issued w)\<rparr>)"
| frees: "sl_live w tok \<noteq> None \<Longrightarrow>
    slot_step w (w\<lparr>sl_table := slot_free tok (sl_table w), sl_live := (sl_live w)(tok := None), sl_frees := Suc (sl_frees w)\<rparr>)"

definition slot_inv :: "slot_world \<Rightarrow> bool" where
  "slot_inv w \<longleftrightarrow> table_ok (sl_table w) \<and> io_slots (sl_table w) \<noteq> [] \<and> (\<forall>tok. slot_lookup tok (sl_table w) = sl_live w tok) \<and>
     (sl_frees w < 2 ^ 32 - 1 \<longrightarrow>
       (\<forall>idx. 0 < unat (gen_of (sl_table w) idx) \<and> unat (gen_of (sl_table w) idx) \<le> Suc (sl_frees w)) \<and>
       (\<forall>tok \<in> sl_issued w. 0 < unat (decode_slot_generation tok) \<and>
         (sl_live w tok \<noteq> None \<or> unat (decode_slot_generation tok) < unat (gen_of (sl_table w) (decode_slot_index tok)))))"

lemma slot_alloc_ok:
  assumes "table_ok t" "io_slots t \<noteq> []" "busy t < 2 ^ 31"
  obtains new u where "slot_alloc tsk t = Some (new, u)" "table_ok u" "io_slots u \<noteq> []"
    "\<And>tok. slot_lookup tok u = (if tok = new then Some tsk else slot_lookup tok t)" "slot_lookup new t = None"
    "gen_of u = gen_of t" "decode_slot_generation new = gen_of t (decode_slot_index new)"
proof -
  note g = grow_ok[OF assms(1,3)]
  obtain new u where st: "slot_take tsk (slots_grow t) = (new, u)" by fastforce
  note s = slot_take_ok[OF g(1) g(2)[OF assms(2)] st]
  have gg: "gen_of (slots_grow t) = gen_of t" using gen_of_grow[OF assms(1,3)] by auto
  have "length (io_slots (slots_grow t)) \<noteq> 0"
    using assms grow_alt[OF assms(1,3)] by (cases "io_free t = []") (auto simp: slots_grow_def)
  then have "io_slots u \<noteq> []" using s(6) by auto
  moreover have "slot_alloc tsk t = Some (new, u)" using st g(2)[OF assms(2)] by (simp add: slot_alloc_def Let_def)
  ultimately show ?thesis using that s g(3) gg by auto
qed

lemma slot_step_inv:
  assumes "slot_step w v" "slot_inv w"
  shows "slot_inv v"
  using assms(1)
proof cases
  case (allocates tsk tok t)
  have ok: "table_ok (sl_table w)" "io_slots (sl_table w) \<noteq> []" using assms(2) by (auto simp: slot_inv_def)
  obtain u where u: "slot_alloc tsk (sl_table w) = Some (tok, u)" "table_ok u" "io_slots u \<noteq> []"
    "\<And>x. slot_lookup x u = (if x = tok then Some tsk else slot_lookup x (sl_table w))"
    "gen_of u = gen_of (sl_table w)" "decode_slot_generation tok = gen_of (sl_table w) (decode_slot_index tok)"
    using slot_alloc_ok[OF ok allocates(2), of tsk] allocates(3) by (metis option.inject prod.inject)
  have "t = u" using u(1) allocates(3) by simp
  then show ?thesis using assms(2) u allocates(1) by (auto simp: slot_inv_def)
next
  case (frees tok)
  let ?t = "sl_table w" and ?i = "decode_slot_index tok"
  obtain k where k: "slot_lookup tok ?t = Some k" using assms(2) frees(2) by (auto simp: slot_inv_def)
  have ok: "table_ok ?t" using assms(2) by (simp add: slot_inv_def)
  note f = slot_free_ok[OF ok k]
  have live: "slot_lookup x (slot_free tok ?t) = ((sl_live w)(tok := None)) x" for x
  proof (cases "decode_slot_index x = ?i")
    case True
    have "sl_live w x = None" if "x \<noteq> tok"
    proof (rule ccontr)
      assume "sl_live w x \<noteq> None"
      then obtain k' where "slot_lookup x ?t = Some k'" using assms(2) by (auto simp: slot_inv_def)
      then have "decode_slot_generation x = gen_of ?t ?i" using slot_free_ok(4)[OF ok] True by auto
      then have "x = tok" using True f(4) by (metis encode_decode_slot)
      then show False using that by simp
    qed
    then show ?thesis using True f(2)[of x] by (auto simp: fun_upd_def)
  next
    case False
    then show ?thesis using f(2)[of x] assms(2) by (auto simp: slot_inv_def)
  qed
  have h: "slot_inv v" if lt: "\<not> Suc (sl_frees w) < 2 ^ 32 - 1"
    using assms(2) f(1) live lt frees(1) by (auto simp: slot_inv_def slot_free_def Let_def)
  show ?thesis
  proof (cases "Suc (sl_frees w) < 2 ^ 32 - 1")
    case True
    then have b: "0 < unat (gen_of ?t idx)" "unat (gen_of ?t idx) \<le> Suc (sl_frees w)" for idx
      using assms(2) by (auto simp: slot_inv_def)
    have g: "unat (gen_of ?t ?i + 1) = Suc (unat (gen_of ?t ?i))"
      using b(2)[of ?i] True unat_add_small[of "gen_of ?t ?i" 1] by simp
    have iss: "0 < unat (decode_slot_generation x)"
      "sl_live w x \<noteq> None \<or> unat (decode_slot_generation x) < unat (gen_of ?t (decode_slot_index x))" if "x \<in> sl_issued w" for x
      using assms(2) True that by (auto simp: slot_inv_def)
    have "((sl_live w)(tok := None)) x \<noteq> None \<or>
        unat (decode_slot_generation x) < unat (gen_of (slot_free tok ?t) (decode_slot_index x))" if "x \<in> sl_issued w" for x
      using iss(2)[OF that] f(3,4) g by (cases "x = tok") auto
    moreover have "0 < unat (gen_of (slot_free tok ?t) idx) \<and> unat (gen_of (slot_free tok ?t) idx) \<le> Suc (Suc (sl_frees w))" for idx
      using b[of idx] b(2)[of ?i] g f(3) by (simp add: le_SucI)
    moreover have "io_slots (slot_free tok ?t) \<noteq> []" using assms(2) by (simp add: slot_inv_def slot_free_def Let_def)
    ultimately show ?thesis using f(1) live frees(1) iss(1) by (simp add: slot_inv_def)
  qed (rule h)
qed

lemma slot_reachable_inv: "slot_step\<^sup>*\<^sup>* (slot_world_init n) w \<Longrightarrow> 0 < n \<Longrightarrow> slot_inv w"
proof (induction rule: rtranclp_induct)
  case base
  have "slot_lookup tok (slot_table_init n) = None" for tok
    by (auto simp: slot_lookup_def slot_table_init_def Let_def io_slot_init_def)
  moreover have "io_slots (slot_table_init n) \<noteq> []" using base by (simp add: slot_table_init_def word_gt_0 unat_eq_zero)
  ultimately show ?case using init_ok
    by (auto simp: slot_inv_def slot_world_init_def gen_of_def slot_table_init_def io_slot_init_def)
qed (blast intro: slot_step_inv)

text \<open>(C16) Tokens find their operation and nothing else.  Whatever is allocated and freed, looking up any token
  gives exactly the operation in flight under it, and the walk over the active slots gives exactly the tokens
  in flight.  An allocation always succeeds; as long as fewer than \<open>2 ^ 32 - 1\<close> slots have been freed its token
  was never given out before and is not zero, so a completion that arrives late is never taken for another
  operation.\<close>

theorem slot_tokens_precise:
  assumes "slot_step\<^sup>*\<^sup>* (slot_world_init n) w" "0 < n"
  shows "slot_lookup tok (sl_table w) = sl_live w tok \<and> set (for_each_active (sl_table w)) = {tok. sl_live w tok \<noteq> None} \<and>
    (busy (sl_table w) < 2 ^ 31 \<longrightarrow> (\<exists>new t. slot_alloc tsk (sl_table w) = Some (new, t) \<and>
      (sl_frees w < 2 ^ 32 - 1 \<longrightarrow> new \<notin> sl_issued w \<and> new \<noteq> 0)))"
proof -
  have i: "slot_inv w" using slot_reachable_inv assms by blast
  let ?t = "sl_table w"
  have ok: "table_ok ?t" "io_slots ?t \<noteq> []" and live: "\<And>x. slot_lookup x ?t = sl_live w x" using i by (auto simp: slot_inv_def)
  have act: "x \<in> set (for_each_active ?t) \<longleftrightarrow> slot_lookup x ?t \<noteq> None" for x
  proof -
    let ?j = "unat (decode_slot_index x)"
    have small: "unat (of_nat j :: uint32) = j" if "j < length (io_slots ?t)" for j
      using that ok(1) by (intro unat_of_nat_small) (simp add: table_ok_def)
    have "x \<in> set (for_each_active ?t) \<longleftrightarrow> (\<exists>j < length (io_slots ?t). io_task (io_slots ?t ! j) \<noteq> None \<and>
        x = encode_slot (of_nat j) (io_generation (io_slots ?t ! j)))" by (auto simp: for_each_active_def)
    also have "\<dots> \<longleftrightarrow> ?j < length (io_slots ?t) \<and> io_task (io_slots ?t ! ?j) \<noteq> None \<and> io_generation (io_slots ?t ! ?j) = decode_slot_generation x"
    proof
      assume "?j < length (io_slots ?t) \<and> io_task (io_slots ?t ! ?j) \<noteq> None \<and> io_generation (io_slots ?t ! ?j) = decode_slot_generation x"
      then show "\<exists>j < length (io_slots ?t). io_task (io_slots ?t ! j) \<noteq> None \<and> x = encode_slot (of_nat j) (io_generation (io_slots ?t ! j))"
        by (intro exI[of _ ?j]) (simp add: encode_decode_slot)
    qed (use small in auto)
    finally show ?thesis by (auto simp: slot_lookup_def Let_def)
  qed
  have "\<exists>new t. slot_alloc tsk ?t = Some (new, t) \<and> (sl_frees w < 2 ^ 32 - 1 \<longrightarrow> new \<notin> sl_issued w \<and> new \<noteq> 0)" if bz: "busy ?t < 2 ^ 31"
  proof -
    obtain new u where u: "slot_alloc tsk ?t = Some (new, u)" "slot_lookup new ?t = None"
      "decode_slot_generation new = gen_of ?t (decode_slot_index new)" using slot_alloc_ok[OF ok bz, of tsk] by metis
    have "new \<notin> sl_issued w \<and> new \<noteq> 0" if "sl_frees w < 2 ^ 32 - 1"
    proof
      show "new \<notin> sl_issued w" using i that u live[of new] by (auto simp: slot_inv_def)
      have "0 < unat (decode_slot_generation new)" using i that u(3) by (simp add: slot_inv_def)
      then show "new \<noteq> 0" by (auto simp: decode_slot_generation_def)
    qed
    then show ?thesis using u(1) by blast
  qed
  then show ?thesis using live act by auto
qed

theorem slot_tokens_precise_witness:
  "\<exists>w. slot_step\<^sup>*\<^sup>* (slot_world_init 1) w \<and> sl_live w 0x100000000 = None \<and> slot_lookup 0x100000000 (sl_table w) = None \<and>
    sl_live w 0x200000000 = Some 8"
proof -
  let ?w0 = "slot_world_init 1"
  let ?w1 = "?w0\<lparr>sl_table := snd (the (slot_alloc 7 (sl_table ?w0))), sl_live := (sl_live ?w0)(0x100000000 \<mapsto> 7), sl_issued := {0x100000000}\<rparr>"
  let ?w2 = "?w1\<lparr>sl_table := slot_free 0x100000000 (sl_table ?w1), sl_live := (sl_live ?w1)(0x100000000 := None), sl_frees := 1\<rparr>"
  let ?w3 = "?w2\<lparr>sl_table := snd (the (slot_alloc 8 (sl_table ?w2))), sl_live := (sl_live ?w2)(0x200000000 \<mapsto> 8),
    sl_issued := insert 0x200000000 (sl_issued ?w2)\<rparr>"
  note ev = slot_world_init_def slot_table_init_def slot_alloc_def slots_grow_def slot_take_def slot_free_def Let_def indices_def
    io_slot_init_def encode_slot_def decode_slot_index_def busy_def
  have a1: "slot_alloc 7 (sl_table ?w0) = Some (0x100000000, snd (the (slot_alloc 7 (sl_table ?w0))))" by (simp add: ev)
  have a2: "slot_alloc 8 (sl_table ?w2) = Some (0x200000000, snd (the (slot_alloc 8 (sl_table ?w2))))" by (simp add: ev)
  have "slot_step ?w0 ?w1" using allocates[of ?w0, OF _ a1] by (simp add: ev)
  moreover have "slot_step ?w1 ?w2" using frees[of ?w1 "0x100000000"] by (simp add: ev)
  moreover have "slot_step ?w2 ?w3" using allocates[of ?w2, OF _ a2] by (simp add: ev)
  ultimately have r: "slot_step\<^sup>*\<^sup>* ?w0 ?w3" by (meson converse_rtranclp_into_rtranclp rtranclp.rtrancl_refl)
  have "sl_live ?w3 0x100000000 = None" "sl_live ?w3 0x200000000 = Some 8" by simp_all
  then show ?thesis using slot_tokens_precise[OF r, of "0x100000000"] r by (intro exI[of _ ?w3]) auto
qed

end
