(* ===== verification/Scheduler.thy ===== *)
theory Scheduler
  imports Prelude "HOL-Library.Signed_Division" "HOL-Library.Monad_Syntax"
begin

text \<open>
  The scheduler (\<open>scheduler.cc\<close>, \<open>scheduler.h\<close>) with its ready queue, a ring buffer that grows, the part of the
  work tracker it maintains (\<open>task_tracker.h\<close>), and the controller that adapts the batch size and the wait.
  Coroutines, the rings of the kernel and the queues other threads fill are not part of this code: what a
  resumed coroutine does is a function from the world to the handles it makes ready and a new world, and what the
  queues and the kernel deliver during a cycle is the input of the cycle.  The arithmetic of the controller on
  doubles is a parameter, so what is shown holds for every rounding.
\<close>

unbundle bit_operations_syntax

subsection \<open>The ready queue\<close>

type_synonym handle = nat

record ring_queue =
  rq_buf :: "handle list"
  rq_mask :: uint64
  rq_head :: uint64
  rq_tail :: uint64


definition rq_size :: "ring_queue \<Rightarrow> uint64" where
  "rq_size q = rq_tail q - rq_head q"










definition rq_items :: "ring_queue \<Rightarrow> handle list" where
  "rq_items q = map (\<lambda>j. rq_buf q ! unat ((rq_head q + of_nat j) AND rq_mask q)) [0..<unat (rq_size q)]"

definition rq_inv :: "ring_queue \<Rightarrow> bool" where
  "rq_inv q \<longleftrightarrow> (\<exists>k. k < 63 \<and> length (rq_buf q) = 2 ^ k \<and> rq_mask q = 2 ^ k - 1 \<and> unat (rq_size q) \<le> 2 ^ k)"











subsection \<open>The work tracker\<close>

record task_tracker =
  tr_ready :: uint32
  tr_cpu :: uint32
  tr_user_io :: uint32
  tr_io_inflight :: uint32


definition io_submit :: "uint32 \<Rightarrow> task_tracker \<Rightarrow> task_tracker" where
  "io_submit n t = t\<lparr>tr_io_inflight := tr_io_inflight t + n\<rparr>"

definition io_complete :: "uint32 \<Rightarrow> task_tracker \<Rightarrow> task_tracker" where
  "io_complete n t = t\<lparr>tr_io_inflight := tr_io_inflight t - n\<rparr>"

definition user_io_add :: "uint32 \<Rightarrow> task_tracker \<Rightarrow> task_tracker" where
  "user_io_add n t = t\<lparr>tr_user_io := tr_user_io t + n\<rparr>"

definition user_io_remove :: "uint32 \<Rightarrow> task_tracker \<Rightarrow> task_tracker" where
  "user_io_remove n t = t\<lparr>tr_user_io := tr_user_io t - n\<rparr>"

definition executor_add :: "uint32 \<Rightarrow> task_tracker \<Rightarrow> task_tracker" where
  "executor_add n t = t\<lparr>tr_cpu := tr_cpu t + n\<rparr>"




definition user_idle :: "task_tracker \<Rightarrow> bool" where
  "user_idle t \<longleftrightarrow> tr_ready t + tr_cpu t + tr_user_io t = 0"

definition tracker_idle :: "task_tracker \<Rightarrow> bool" where
  "tracker_idle t \<longleftrightarrow> user_idle t \<and> tr_io_inflight t = 0"

subsection \<open>A cycle of the scheduler\<close>

record sched_stats =
  st_inflight :: uint32
  st_cqes_ready :: uint32
  st_tasks_resumed :: uint32
  st_task_runtime_ns :: uint64
  st_loop_runtime_ns :: uint64



record ('d, 'w) scheduler =
  sd_tracker :: task_tracker
  sd_ready :: ring_queue
  sd_stats :: sched_stats
  sd_cpu_batch :: uint64
  sd_io_wait :: int
  sd_io_sat_fast :: 'd
  sd_cpu_pressure_fast :: 'd
  sd_adapt_phase :: uint32
  sd_world :: 'w
  sd_resumed :: "handle list"

























subsection \<open>Progress\<close>

definition items :: "('d, 'w) scheduler \<Rightarrow> handle list" where
  "items s = rq_items (sd_ready s)"

definition sched_ok :: "('d, 'w) scheduler \<Rightarrow> bool" where
  "sched_ok s \<longleftrightarrow> rq_inv (sd_ready s) \<and> tr_ready (sd_tracker s) = of_nat (length (items s))"

text \<open>One state follows another when handles were only appended to the history of handles, those resumed
  followed by those ready, and nothing resumed was forgotten.\<close>

definition follows :: "('d, 'w) scheduler \<Rightarrow> ('d, 'w) scheduler \<Rightarrow> bool" where
  "follows s t \<longleftrightarrow> (\<exists>new. sd_resumed t @ items t = sd_resumed s @ items s @ new) \<and> length (sd_resumed s) \<le> length (sd_resumed t)"






lemma sched_ok_cong: "sd_ready t = sd_ready s \<Longrightarrow> sd_tracker t = sd_tracker s \<Longrightarrow> sched_ok t = sched_ok s"
  by (simp add: sched_ok_def items_def)



text \<open>The loop resumes until nothing is ready or the batch is used up.\<close>

definition used :: "('d, 'w) scheduler \<Rightarrow> nat" where
  "used s = unat (st_tasks_resumed (sd_stats s))"







definition fed :: "nat \<Rightarrow> ('d, 'w) scheduler \<Rightarrow> ('d, 'w) scheduler \<Rightarrow> bool" where
  "fed n s t \<longleftrightarrow> sched_ok t \<and> follows s t \<and> sd_resumed t = sd_resumed s \<and> sd_cpu_batch t = sd_cpu_batch s \<and> sd_adapt_phase t = sd_adapt_phase s \<and> used t = used s \<and>
    length (items s) \<le> length (items t) \<and> length (items t) \<le> length (items s) + n"
















lemma fed_items: "fed n s t \<Longrightarrow> length (items t) \<le> length (items s) + n"
  by (simp add: fed_def)

















end
