(* ===== verification/Transport.thy ===== *)
theory Transport
  imports Errors
begin

text \<open>
  Gather writes on a connection (\<^verbatim>\<open>src/tls/transport.cc\<close>): the loop that hands the
  rest of a list of segments to the socket or the TLS stream until everything is out.

  The kernel (or the record layer) is a parameter: \<open>k i\<close> is its answer to the \<open>i\<close>-th write of
  the connection, an error or the number of bytes it is willing to take, of which it never takes more
  than it is offered.  The lemmas show that a successful call has put the segments on the wire
  completely, in order and once, that a failed one has put a prefix of them there, and that only an
  error of the kernel, or a write that takes nothing, makes it fail.
\<close>

record net =
  n_wire :: string
  n_calls :: nat

type_synonym kernel = "nat \<Rightarrow> nat expected"

definition kernel_writev :: "kernel \<Rightarrow> string list \<Rightarrow> net \<Rightarrow> nat expected \<times> net" where
  "kernel_writev k iov n = (let n' = n\<lparr>n_calls := n_calls n + 1\<rparr> in
     case k (n_calls n) of
       Inl e \<Rightarrow> (Inl e, n')
     | Inr w \<Rightarrow> let w = min w (length (concat iov)) in
         (Inr w, n'\<lparr>n_wire := n_wire n @ take w (concat iov)\<rparr>))"

record writev_stat_t =
  ws_calls :: nat
  ws_partial :: nat

definition writev_stat0 :: writev_stat_t where
  "writev_stat0 = \<lparr>ws_calls = 0, ws_partial = 0\<rparr>"

text \<open>The bytes taken are cut off the front of the segments.\<close>

fun iov_advance :: "nat \<Rightarrow> string list \<Rightarrow> string list" where
  "iov_advance r [] = []"
| "iov_advance r (s # iov) =
    (if r = 0 then s # iov
     else let t = min r (length s) in drop t s # iov_advance (r - t) iov)"

lemma concat_advance: "concat (iov_advance r iov) = drop r (concat iov)"
  by (induction r iov rule: iov_advance.induct) (auto simp: Let_def min_def)

lemma concat_skip [simp]: "concat (dropWhile (\<lambda>s. s = []) iov) = concat iov"
  by (induction iov) auto

definition count_partial :: "string list \<Rightarrow> writev_stat_t \<Rightarrow> writev_stat_t" where
  "count_partial rest st = (if rest \<noteq> [] then st\<lparr>ws_partial := ws_partial st + 1\<rparr> else st)"

function writev_all :: "kernel \<Rightarrow> string list \<Rightarrow> net \<times> writev_stat_t \<Rightarrow> unit expected \<times> net \<times> writev_stat_t" where
  "writev_all k iov (n, st) =
    (if iov = [] then (Inr (), n, st)
     else let st = st\<lparr>ws_calls := ws_calls st + 1\<rparr> in
       case kernel_writev k iov n of
         (Inl e, n) \<Rightarrow> (Inl e, n, st)
       | (Inr w, n) \<Rightarrow>
           if w = 0 then (sys_unexpected ECONNRESET, n, st)
           else let iov = dropWhile (\<lambda>s. s = []) (iov_advance w iov) in
             writev_all k iov (n, count_partial iov st))"
  by pat_completeness auto

termination writev_all
proof (relation "measure (\<lambda>(k, iov, _). length (concat iov))", goal_cases)
  case (2 k iov n st st1 r n1 w iov1)
  then have w: "0 < w" "w \<le> length (concat iov)"
    by (auto simp: kernel_writev_def Let_def split: sum.splits)
  then show ?case using 2 by (auto simp only: in_measure prod.case concat_skip concat_advance length_drop)
qed simp

declare writev_all.simps [simp del]

subsection \<open>What a gather write puts on the wire\<close>

lemma dropWhile_nil_concat: "dropWhile (\<lambda>s. s = []) iov = [] \<longleftrightarrow> concat iov = []"
  by (auto simp: dropWhile_eq_Nil_conv)

lemma dropWhile_nil_start: "dropWhile (\<lambda>s. s = []) iov \<noteq> [] \<Longrightarrow> concat (dropWhile (\<lambda>s. s = []) iov) \<noteq> []"
  by (metis dropWhile_nil_concat concat_skip)

lemma writev_all_wire:
  "writev_all k iov (n, st) = (r, n', st') \<Longrightarrow>
     (\<exists>w. n_wire n' = n_wire n @ take w (concat iov)) \<and>
     (r = Inr () \<longrightarrow> n_wire n' = n_wire n @ concat iov)"
proof (induction k iov "(n, st)" arbitrary: n st r n' st' rule: writev_all.induct)
  case (1 k iov n st)
  show ?case
  proof (cases "iov = []")
    case True
    then show ?thesis using 1(2) by (auto simp: writev_all.simps)
  next
    case False
    obtain a m where kw: "kernel_writev k iov n = (a, m)" by fastforce
    show ?thesis
    proof (cases a)
      case (Inl e)
      then have "m = n\<lparr>n_calls := n_calls n + 1\<rparr>"
        using kw by (auto simp: kernel_writev_def Let_def split: sum.splits)
      then show ?thesis using 1(2) False kw Inl by (auto simp: writev_all.simps[of k iov] Let_def intro: exI[of _ 0])
    next
      case (Inr w)
      have m: "n_wire m = n_wire n @ take w (concat iov)"
        using kw Inr by (auto simp: kernel_writev_def Let_def split: sum.splits)
      show ?thesis
      proof (cases "w = 0")
        case True
        then show ?thesis using 1(2) False kw Inr m by (auto simp: writev_all.simps[of k iov] Let_def intro: exI[of _ 0])
      next
        case w: False
        let ?i = "dropWhile (\<lambda>s. s = []) (iov_advance w iov)"
        have rec: "writev_all k ?i (m, count_partial ?i (st\<lparr>ws_calls := ws_calls st + 1\<rparr>)) = (r, n', st')"
          using 1(2) False kw Inr w by (simp add: writev_all.simps[of k iov] Let_def)
        from 1(1)[OF False refl kw[symmetric] Inr w refl rec]
        obtain v where v: "n_wire n' = n_wire m @ take v (concat ?i)"
          "r = Inr () \<longrightarrow> n_wire n' = n_wire m @ concat ?i" by blast
        have "take w (concat iov) @ take v (drop w (concat iov)) = take (w + v) (concat iov)"
          by (simp add: take_add)
        then show ?thesis using v m by (auto simp: concat_advance intro!: exI[of _ "w + v"])
      qed
    qed
  qed
qed

lemma writev_all_total:
  "(\<And>i. \<exists>w. k i = Inr w \<and> 0 < w) \<Longrightarrow> iov = [] \<or> concat iov \<noteq> [] \<Longrightarrow>
     \<exists>n' st'. writev_all k iov (n, st) = (Inr (), n', st')"
proof (induction k iov "(n, st)" arbitrary: n st rule: writev_all.induct)
  case (1 k iov n st)
  show ?case
  proof (cases "iov = []")
    case True
    then show ?thesis by (auto simp: writev_all.simps)
  next
    case False
    obtain w where w: "k (n_calls n) = Inr w" "0 < w" using 1(2) by blast
    let ?w = "min w (length (concat iov))"
    obtain m where kw: "kernel_writev k iov n = (Inr ?w, m)" using w by (auto simp: kernel_writev_def Let_def)
    have nz: "?w \<noteq> 0" using w 1(3) False by auto
    let ?i = "dropWhile (\<lambda>s. s = []) (iov_advance ?w iov)"
    have "?i = [] \<or> concat ?i \<noteq> []" using dropWhile_nil_start by blast
    from 1(1)[OF False refl kw[symmetric] refl nz refl 1(2) this]
    show ?thesis using False kw nz by (simp add: writev_all.simps[of k iov] Let_def)
  qed
qed

end
