(* ===== verification/Response.thy ===== *)
theory Response
  imports Serializer Buffers Transport
begin

text \<open>
  What a handler sees of a message on the server (\<^verbatim>\<open>include/cornet/http/server/message.h\<close>,
  \<^verbatim>\<open>src/http/server/message.cc\<close>): the target of the request split into path and query, the
  iteration over the pairs of a query, and the response under construction.

  A response refers to memory by ownership.  Objects moved into the response (pinned values, pooled
  blocks) and open files live in a \<open>world\<close>; a view refers to static text or to the bytes of an object, and
  using or freeing a dead object sets \<open>w_fault\<close>.  The file system is a parameter.

  The lemmas show that the calls of a handler, whatever they are, implement the abstract response
  \<open>rspec\<close>, which has no buffers, offsets or owners: unless the response has failed, the header buffer holds
  exactly the header lines that were added and the body resolves to the text that was given.
\<close>

subsection \<open>Query strings\<close>

record query_entry =
  qe_key :: string
  qe_value :: string

record query_iterator =
  qi_pos :: nat
  qi_next :: nat
  qi_cur :: query_entry

definition no_entry :: query_entry where
  "no_entry = \<lparr>qe_key = [], qe_value = []\<rparr>"

definition split_pair :: "string \<Rightarrow> query_entry" where
  "split_pair pair = (case find_pos ((=) (CHR ''='')) pair of
      None \<Rightarrow> \<lparr>qe_key = pair, qe_value = []\<rparr>
    | Some eq \<Rightarrow> \<lparr>qe_key = take eq pair, qe_value = drop (eq + 1) pair\<rparr>)"

definition query_advance :: "string \<Rightarrow> query_iterator \<Rightarrow> query_iterator" where
  "query_advance raw it =
    (let pos = qi_pos it in
     if pos > length raw then it\<lparr>qi_cur := no_entry, qi_next := pos\<rparr>
     else if pos = length raw
     then it\<lparr>qi_cur := no_entry, qi_pos := length raw + 1, qi_next := length raw + 1\<rparr>
     else case find_pos ((=) (CHR ''&'')) (drop pos raw) of
         None \<Rightarrow> it\<lparr>qi_next := length raw + 1, qi_cur := split_pair (drop pos raw)\<rparr>
       | Some k \<Rightarrow> it\<lparr>qi_next := pos + k + 1, qi_cur := split_pair (substr raw pos k)\<rparr>)"

definition query_iterator_at :: "string \<Rightarrow> nat \<Rightarrow> query_iterator" where
  "query_iterator_at raw pos = query_advance raw \<lparr>qi_pos = pos, qi_next = 0, qi_cur = no_entry\<rparr>"

definition query_increment :: "string \<Rightarrow> query_iterator \<Rightarrow> query_iterator" where
  "query_increment raw it = query_advance raw (it\<lparr>qi_pos := qi_next it\<rparr>)"

text \<open>The range-for loop of \<^verbatim>\<open>get\<close>; not coming to the end is the value \<open>None\<close>.\<close>

partial_function (option) query_find :: "string \<Rightarrow> string \<Rightarrow> query_iterator \<Rightarrow> string option" where
  "query_find raw key it =
    (if qi_pos it = length raw + 1 then Some []
     else if qe_key (qi_cur it) = key then Some (qe_value (qi_cur it))
     else query_find raw key (query_increment raw it))"

definition query_get :: "string \<Rightarrow> string \<Rightarrow> string option" where
  "query_get raw key = query_find raw key (query_iterator_at raw 0)"

definition request_path :: "string \<Rightarrow> string" where
  "request_path t = (case find_pos ((=) (CHR ''?'')) t of None \<Rightarrow> t | Some q \<Rightarrow> take q t)"

definition request_query :: "string \<Rightarrow> string" where
  "request_query t = (case find_pos ((=) (CHR ''?'')) t of
      None \<Rightarrow> []
    | Some q \<Rightarrow> let rest = drop (q + 1) t in
        (case find_pos ((=) (CHR ''#'')) rest of None \<Rightarrow> rest | Some h \<Rightarrow> take h rest))"

text \<open>The pairs of a query: its pieces between ampersands, without an empty last one.\<close>

fun split_amp :: "string \<Rightarrow> string \<Rightarrow> string list" where
  "split_amp acc [] = (if acc = [] then [] else [acc])"
| "split_amp acc (c # s) = (if c = CHR ''&'' then acc # split_amp [] s else split_amp (acc @ [c]) s)"

definition query_pairs :: "string \<Rightarrow> query_entry list" where
  "query_pairs raw = map split_pair (split_amp [] raw)"

lemma split_amp_none: "CHR ''&'' \<notin> set s \<Longrightarrow> split_amp acc s = (if acc @ s = [] then [] else [acc @ s])"
  by (induction acc s rule: split_amp.induct) auto

lemma split_amp_here: "CHR ''&'' \<notin> set p \<Longrightarrow> split_amp acc (p @ CHR ''&'' # s) = (acc @ p) # split_amp [] s"
  by (induction p arbitrary: acc) auto

lemma query_increment_at: "query_increment raw it = query_iterator_at raw (qi_next it)"
  by (cases it) (auto simp: query_increment_def query_iterator_at_def query_advance_def Let_def split: option.splits)

lemma query_iterator_at_cases:
  "pos > length raw \<Longrightarrow> query_iterator_at raw pos = \<lparr>qi_pos = pos, qi_next = pos, qi_cur = no_entry\<rparr>"
  "query_iterator_at raw (length raw) = \<lparr>qi_pos = length raw + 1, qi_next = length raw + 1, qi_cur = no_entry\<rparr>"
  "pos < length raw \<Longrightarrow> find_pos ((=) (CHR ''&'')) (drop pos raw) = None \<Longrightarrow>
     query_iterator_at raw pos = \<lparr>qi_pos = pos, qi_next = length raw + 1, qi_cur = split_pair (drop pos raw)\<rparr>"
  "pos < length raw \<Longrightarrow> find_pos ((=) (CHR ''&'')) (drop pos raw) = Some k \<Longrightarrow>
     query_iterator_at raw pos = \<lparr>qi_pos = pos, qi_next = pos + k + 1, qi_cur = split_pair (take k (drop pos raw))\<rparr>"
  by (simp_all add: query_iterator_at_def query_advance_def substr_def Let_def)

lemma query_find_pairs:
  assumes "pos \<le> length raw + 1"
  shows "query_find raw key (query_iterator_at raw pos) =
    Some (case find (\<lambda>e. qe_key e = key) (query_pairs (drop pos raw)) of None \<Rightarrow> [] | Some e \<Rightarrow> qe_value e)"
  using assms
proof (induction "length raw + 1 - pos" arbitrary: pos rule: less_induct)
  case less
  have fin: "query_find raw key (query_iterator_at raw (length raw + 1)) = Some []"
    by (subst query_find.simps) (simp add: query_iterator_at_cases)
  consider "pos = length raw + 1" | "pos = length raw" | "pos < length raw" using less.prems by linarith
  then show ?case
  proof cases
    case 3
    show ?thesis
    proof (cases "find_pos ((=) (CHR ''&'')) (drop pos raw)")
      case None
      then have n: "CHR ''&'' \<notin> set (drop pos raw)" by (auto simp: find_pos_None)
      show ?thesis using 3 split_amp_none[OF n, of "[]"] fin
        by (subst query_find.simps) (simp add: query_iterator_at_cases(3)[OF 3 None] query_pairs_def query_increment_at)
    next
      case (Some k)
      from find_pos_split[OF Some] obtain pre post where pre: "drop pos raw = pre @ CHR ''&'' # post"
        "length pre = k" "CHR ''&'' \<notin> set pre" by auto
      have "drop (pos + k + 1) raw = drop (k + 1) (drop pos raw)" by (simp add: add.commute)
      then have post: "drop (pos + k + 1) raw = post" using pre by simp
      have k: "pos + k < length raw" using arg_cong[OF pre(1), of length] pre(2) 3 by (simp only: length_drop length_append list.size)
      have q: "query_pairs (drop pos raw) = split_pair pre # query_pairs post"
        using pre by (simp add: query_pairs_def split_amp_here)
      show ?thesis using less.hyps[of "pos + k + 1"] k pre
        by (subst query_find.simps) (simp add: query_iterator_at_cases(4)[OF 3 Some] query_increment_at q[unfolded pre(1)] post[simplified])
    qed
  qed (subst query_find.simps, simp add: query_iterator_at_cases query_pairs_def)+
qed

text \<open>(C35) Looking up a key in a query string ends for every string, empty pieces and a trailing ampersand
  included, and gives the value of the first pair with that key, or nothing when there is none.\<close>

theorem query_get_first:
  "query_get raw key = Some (case find (\<lambda>e. qe_key e = key) (query_pairs raw) of None \<Rightarrow> [] | Some e \<Rightarrow> qe_value e)"
  using query_find_pairs[of 0 raw key] by (simp add: query_get_def)

subsection \<open>Objects, files and views\<close>

record world =
  w_objs :: "nat \<Rightarrow> string option"
  w_next :: nat
  w_fds :: "nat \<Rightarrow> string option"
  w_next_fd :: nat
  w_fault :: bool

datatype view_t = View_text string | View_obj nat nat

fun view_read :: "world \<Rightarrow> view_t \<Rightarrow> string option" where
  "view_read w (View_text s) = Some s"
| "view_read w (View_obj i n) = map_option (take n) (w_objs w i)"

definition new_obj :: "string \<Rightarrow> world \<Rightarrow> nat \<times> world" where
  "new_obj s w = (w_next w, w\<lparr>w_objs := (w_objs w)(w_next w \<mapsto> s), w_next := w_next w + 1\<rparr>)"

definition free_obj :: "nat \<Rightarrow> world \<Rightarrow> world" where
  "free_obj i w = (if w_objs w i = None then w\<lparr>w_fault := True\<rparr> else w\<lparr>w_objs := (w_objs w)(i := None)\<rparr>)"

definition open_file :: "string \<Rightarrow> world \<Rightarrow> nat \<times> world" where
  "open_file s w = (w_next_fd w, w\<lparr>w_fds := (w_fds w)(w_next_fd w \<mapsto> s), w_next_fd := w_next_fd w + 1\<rparr>)"

definition close_fd :: "nat \<Rightarrow> world \<Rightarrow> world" where
  "close_fd fd w = (if w_fds w fd = None then w\<lparr>w_fault := True\<rparr> else w\<lparr>w_fds := (w_fds w)(fd := None)\<rparr>)"

text \<open>The file system: what opening a path gives, if it can be opened, with what its status says.\<close>

record file_t =
  f_text :: string
  f_regular :: bool
  f_size :: nat

type_synonym file_system = "string \<Rightarrow> file_t option"

subsection \<open>The response under construction\<close>

text \<open>
  The buffers a response is bound to are fields of it; unbound ones are \<open>None\<close>.  A lease is the
  object that holds its block, whose capacity is the length of the object.
\<close>

record response_t =
  rs_hdr :: "out_buffer_t option"
  rs_body_out :: "out_buffer_t option"
  rs_conn :: bool
  rs_status :: status_t
  rs_source :: body_source_t
  rs_hdr_off :: nat
  rs_hdr_end :: nat
  rs_body_off :: nat
  rs_body_len :: nat
  rs_external :: view_t
  rs_owned :: "nat option"
  rs_file_fd :: "nat option"
  rs_file_size :: nat
  rs_saw_content_length :: bool
  rs_saw_connection :: bool
  rs_saw_date :: bool
  rs_saw_transfer_encoding :: bool
  rs_arena :: "nat list"
  rs_err :: error_t

type_synonym rstate = "response_t \<times> world"

definition response_fail :: "error_t \<Rightarrow> response_t \<Rightarrow> response_t" where
  "response_fail e r = (if \<not> error_truthy (rs_err r) then r\<lparr>rs_err := e\<rparr> else r)"

definition arena_clear :: "nat list \<Rightarrow> world \<Rightarrow> world" where
  "arena_clear ids w = fold free_obj ids w"

definition lease_drop :: "nat option \<Rightarrow> world \<Rightarrow> world" where
  "lease_drop l w = (case l of None \<Rightarrow> w | Some i \<Rightarrow> free_obj i w)"

definition close_file :: "rstate \<Rightarrow> rstate" where
  "close_file s = (case s of (r, w) \<Rightarrow>
     (r\<lparr>rs_file_fd := None, rs_file_size := 0\<rparr>, case rs_file_fd r of None \<Rightarrow> w | Some fd \<Rightarrow> close_fd fd w))"

definition release_owned :: "rstate \<Rightarrow> rstate" where
  "release_owned s = (case s of (r, w) \<Rightarrow>
     close_file (r\<lparr>rs_arena := [], rs_owned := None, rs_external := View_text []\<rparr>,
       lease_drop (rs_owned r) (arena_clear (rs_arena r) w)))"

definition bound_size :: "out_buffer_t option \<Rightarrow> nat" where
  "bound_size b = (case b of None \<Rightarrow> 0 | Some b \<Rightarrow> ob_size b)"

definition response_begin :: "rstate \<Rightarrow> rstate" where
  "response_begin s = (case release_owned s of (r, w) \<Rightarrow>
     (r\<lparr>rs_status := 200, rs_source := SrcNone, rs_hdr_off := bound_size (rs_hdr r),
        rs_hdr_end := bound_size (rs_hdr r), rs_body_off := bound_size (rs_body_out r), rs_body_len := 0,
        rs_external := View_text [], rs_file_size := 0, rs_saw_content_length := False,
        rs_saw_connection := False, rs_saw_date := False, rs_saw_transfer_encoding := False,
        rs_err := no_error\<rparr>, w))"

definition response_error :: "response_t \<Rightarrow> error_t" where
  "response_error r =
    (if error_truthy (rs_err r) then rs_err r
     else case rs_hdr r of
         Some h \<Rightarrow> if failed h then ob_err h
           else (case rs_body_out r of Some b \<Rightarrow> if failed b then ob_err b else no_error | None \<Rightarrow> no_error)
       | None \<Rightarrow> (case rs_body_out r of Some b \<Rightarrow> if failed b then ob_err b else no_error | None \<Rightarrow> no_error))"

definition response_failed :: "response_t \<Rightarrow> bool" where
  "response_failed r = error_truthy (response_error r)"

definition hdr_length :: "response_t \<Rightarrow> nat" where
  "hdr_length r = (if rs_hdr_end r > rs_hdr_off r then rs_hdr_end r - rs_hdr_off r else 0)"

definition response_note_framing_header :: "field_t \<Rightarrow> response_t \<Rightarrow> response_t" where
  "response_note_framing_header f r = (case f of
      ContentLength \<Rightarrow> r\<lparr>rs_saw_content_length := True\<rparr>
    | Connection \<Rightarrow> r\<lparr>rs_saw_connection := True\<rparr>
    | Date \<Rightarrow> r\<lparr>rs_saw_date := True\<rparr>
    | TransferEncoding \<Rightarrow> r\<lparr>rs_saw_transfer_encoding := True\<rparr>
    | _ \<Rightarrow> r)"

text \<open>The three overloads of \<^verbatim>\<open>header\<close> share the staging of a line.\<close>

definition stage_line :: "(out_buffer_t \<Rightarrow> out_buffer_t) \<Rightarrow> field_t \<Rightarrow> response_t \<Rightarrow> response_t" where
  "stage_line emit f r = (case rs_hdr r of
      None \<Rightarrow> response_fail (http_error InvalidState) r
    | Some h \<Rightarrow> (response_note_framing_header f r)\<lparr>rs_hdr := Some (emit h), rs_hdr_end := ob_size (emit h)\<rparr>)"

definition response_header :: "field_t \<Rightarrow> string \<Rightarrow> response_t \<Rightarrow> response_t" where
  "response_header f v = stage_line (header_field f v) f"

definition response_header_named :: "string \<Rightarrow> string \<Rightarrow> response_t \<Rightarrow> response_t" where
  "response_header_named name v = stage_line (header_named name v) (field_from_name name)"

definition response_header_u64 :: "field_t \<Rightarrow> uint64 \<Rightarrow> response_t \<Rightarrow> response_t" where
  "response_header_u64 f v = stage_line (header_u64 f v) f"

definition pin :: "string \<Rightarrow> rstate \<Rightarrow> nat \<times> rstate" where
  "pin s x = (case x of (r, w) \<Rightarrow> case new_obj s w of (i, w) \<Rightarrow> (i, r\<lparr>rs_arena := rs_arena r @ [i]\<rparr>, w))"

definition response_body :: "string \<Rightarrow> rstate \<Rightarrow> rstate" where
  "response_body d s = (case s of (r, w) \<Rightarrow>
    (case rs_body_out r of
       None \<Rightarrow> (response_fail (http_error InvalidState) r, w)
     | Some b \<Rightarrow>
         if rs_source r \<noteq> SrcNone then (response_fail (http_error InvalidState) r, w)
         else if length d > remaining b then
           (case pin d s of (i, r, w) \<Rightarrow>
              (r\<lparr>rs_external := View_obj i (length d), rs_body_len := length d, rs_source := SrcExternal\<rparr>, w))
         else let b' = put d b; r = r\<lparr>rs_body_off := ob_size b, rs_body_out := Some b'\<rparr> in
           if failed b' then (response_fail (ob_err b') r, w)
           else (r\<lparr>rs_body_len := length d, rs_source := SrcInline\<rparr>, w)))"

definition response_body_static :: "string \<Rightarrow> response_t \<Rightarrow> response_t" where
  "response_body_static d r =
    (if rs_source r \<noteq> SrcNone then response_fail (http_error InvalidState) r
     else r\<lparr>rs_external := View_text d, rs_body_len := length d, rs_source := SrcExternal\<rparr>)"

text \<open>
  The lease is an argument: the object is live when the call is made.  A refused lease is released by
  its destructor when the call returns.
\<close>

definition response_body_owned :: "nat option \<Rightarrow> nat \<Rightarrow> rstate \<Rightarrow> rstate" where
  "response_body_owned l len s = (case s of (r, w) \<Rightarrow>
    (if rs_source r \<noteq> SrcNone then (response_fail (http_error InvalidState) r, lease_drop l w)
     else case l of
         None \<Rightarrow> (response_fail (http_error InvalidState) r, w)
       | Some i \<Rightarrow>
           if len > length (the (w_objs w i)) then (response_fail (http_error InvalidState) r, lease_drop l w)
           else (r\<lparr>rs_external := View_obj i len, rs_owned := Some i, rs_body_len := len,
                   rs_source := SrcExternal\<rparr>, lease_drop (rs_owned r) w)))"

definition response_text :: "string \<Rightarrow> rstate \<Rightarrow> rstate" where
  "response_text t s = (case s of (r, w) \<Rightarrow>
     response_body t (response_header ContentType ''text/plain; charset=utf-8'' r, w))"

definition response_json :: "string \<Rightarrow> rstate \<Rightarrow> rstate" where
  "response_json t s = (case s of (r, w) \<Rightarrow>
     response_body t (response_header ContentType ''application/json'' r, w))"

definition response_html :: "string \<Rightarrow> rstate \<Rightarrow> rstate" where
  "response_html t s = (case s of (r, w) \<Rightarrow>
     response_body t (response_header ContentType ''text/html; charset=utf-8'' r, w))"

definition set_status :: "status_t \<Rightarrow> response_t \<Rightarrow> response_t" where
  "set_status c r = r\<lparr>rs_status := c\<rparr>"

definition not_found :: "rstate \<Rightarrow> rstate" where
  "not_found s = (case s of (r, w) \<Rightarrow> response_text ''Not Found'' (set_status 404 r, w))"

definition redirect :: "string \<Rightarrow> status_t \<Rightarrow> response_t \<Rightarrow> response_t" where
  "redirect location c r = response_header Location location (set_status c r)"

definition local_file :: "file_system \<Rightarrow> string \<Rightarrow> rstate \<Rightarrow> bool \<times> rstate" where
  "local_file fs path s = (case s of (r, w) \<Rightarrow>
    (if rs_source r \<noteq> SrcNone then (False, response_fail (http_error InvalidState) r, w)
     else case fs path of
         None \<Rightarrow> (False, not_found (r, w))
       | Some f \<Rightarrow> (case open_file (f_text f) w of (fd, w) \<Rightarrow>
           if \<not> f_regular f then (False, not_found (r, close_fd fd w))
           else (True, r\<lparr>rs_file_fd := Some fd, rs_file_size := f_size f, rs_body_len := f_size f,
                   rs_source := SrcFile\<rparr>, w))))"

text \<open>
  The coroutine form: the path is opened and examined by two asynchronous operations, whose outcomes the
  file system gives, and an error is returned instead of being latched.
\<close>

definition file_async :: "file_system \<Rightarrow> string \<Rightarrow> rstate \<Rightarrow> bool expected \<times> rstate" where
  "file_async fs path s = (case s of (r, w) \<Rightarrow>
    (if rs_source r \<noteq> SrcNone then (http_unexpected InvalidState, r, w)
     else if \<not> rs_conn r then (http_unexpected InvalidState, r, w)
     else case fs path of
         None \<Rightarrow> (Inr False, not_found (r, w))
       | Some f \<Rightarrow> (case open_file (f_text f) w of (fd, w) \<Rightarrow>
           if \<not> f_regular f then (Inr False, not_found (r, close_fd fd w))
           else (Inr True, r\<lparr>rs_file_fd := Some fd, rs_file_size := f_size f, rs_body_len := f_size f,
                   rs_source := SrcFile\<rparr>, w))))"

definition seal_headers :: "response_t \<Rightarrow> response_t" where
  "seal_headers r = (case rs_hdr r of
      None \<Rightarrow> r
    | Some h \<Rightarrow> r\<lparr>rs_hdr := Some (put_crlf h), rs_hdr_end := ob_size (put_crlf h)\<rparr>)"

subsection \<open>The calls of a handler\<close>

datatype resp_call =
    Call_status status_t
  | Call_header field_t string
  | Call_header_named string string
  | Call_header_u64 field_t uint64
  | Call_body string
  | Call_body_static string
  | Call_body_owned "string option" nat
  | Call_pin string
  | Call_text string
  | Call_json string
  | Call_html string
  | Call_not_found
  | Call_redirect string status_t
  | Call_local_file string

fun do_call :: "file_system \<Rightarrow> resp_call \<Rightarrow> rstate \<Rightarrow> rstate" where
  "do_call fs (Call_status c) (r, w) = (set_status c r, w)"
| "do_call fs (Call_header f v) (r, w) = (response_header f v r, w)"
| "do_call fs (Call_header_named n v) (r, w) = (response_header_named n v r, w)"
| "do_call fs (Call_header_u64 f v) (r, w) = (response_header_u64 f v r, w)"
| "do_call fs (Call_body d) s = response_body d s"
| "do_call fs (Call_body_static d) (r, w) = (response_body_static d r, w)"
| "do_call fs (Call_body_owned None n) s = response_body_owned None n s"
| "do_call fs (Call_body_owned (Some d) n) (r, w) =
    (case new_obj d w of (i, w) \<Rightarrow> response_body_owned (Some i) n (r, w))"
| "do_call fs (Call_pin d) s = snd (pin d s)"
| "do_call fs (Call_text t) s = response_text t s"
| "do_call fs (Call_json t) s = response_json t s"
| "do_call fs (Call_html t) s = response_html t s"
| "do_call fs Call_not_found s = not_found s"
| "do_call fs (Call_redirect l c) (r, w) = (redirect l c r, w)"
| "do_call fs (Call_local_file p) s = snd (local_file fs p s)"

subsection \<open>Writers that append a text or fail\<close>

definition appends :: "(out_buffer_t \<Rightarrow> out_buffer_t) \<Rightarrow> string \<Rightarrow> bool" where
  "appends f t \<longleftrightarrow> (\<forall>b. \<not> failed (f b) \<longrightarrow> \<not> failed b \<and> ob_data (f b) = ob_data b @ t) \<and>
     (\<forall>b. ob_valid (f b) = ob_valid b \<and> ob_capacity (f b) = ob_capacity b \<and> (failed b \<longrightarrow> f b = b) \<and>
        (\<exists>u. ob_data (f b) = ob_data b @ u))"

lemma appendsD:
  assumes "appends f t"
  shows "\<not> failed (f b) \<Longrightarrow> \<not> failed b" "\<not> failed (f b) \<Longrightarrow> ob_data (f b) = ob_data b @ t"
    "failed b \<Longrightarrow> f b = b" "ob_valid (f b) = ob_valid b" "ob_capacity (f b) = ob_capacity b"
    "\<exists>u. ob_data (f b) = ob_data b @ u"
  using assms unfolding appends_def by blast+

lemma appends_comp:
  assumes "appends f s" "appends g t"
  shows "appends (\<lambda>b. g (f b)) (s @ t)"
proof -
  note f = appendsD[OF assms(1)] and g = appendsD[OF assms(2)]
  have 1: "\<not> failed b \<and> ob_data (g (f b)) = ob_data b @ s @ t" if "\<not> failed (g (f b))" for b
    using f(1,2)[of b] g(1,2)[of "f b"] that by simp
  have 2: "ob_valid (g (f b)) = ob_valid b \<and> ob_capacity (g (f b)) = ob_capacity b \<and> (failed b \<longrightarrow> g (f b) = b)" for b
    using f(3,4,5)[of b] g(3,4,5)[of "f b"] by auto
  have 3: "\<exists>u. ob_data (g (f b)) = ob_data b @ u" for b
    using f(6)[of b] g(6)[of "f b"] by auto
  show ?thesis unfolding appends_def using 1 2 3 by blast
qed

lemma appends_bytes: "appends (put_bytes s (length s)) s"
  by (simp add: appends_def put_bytes_def failed_def)

lemma appends_put: "length s < 2 ^ 32 \<Longrightarrow> appends (put s) s"
  using appends_bytes[of s] by (simp add: put_def[abs_def])

lemma appends_id: "appends (\<lambda>b. b) []"
  by (simp add: appends_def)

lemma appends_u64: "appends (put_u64 v) (dec_digits (unat v))"
  by (auto simp: appends_def put_u64_def failed_def write_u64_dec)

lemma appends_crlf: "appends put_crlf CRLF"
  using appends_bytes[of CRLF] by (simp add: put_crlf_def[abs_def] eval_nat_numeral)

definition prefix_text :: "field_t \<Rightarrow> string" where
  "prefix_text f = (case field_prefix f of Some p \<Rightarrow> p | None \<Rightarrow> [])"

lemma appends_prefix: "appends (put_prefix f) (prefix_text f)"
  by (cases "field_prefix f")
    (simp_all add: put_prefix_def[abs_def] prefix_text_def appends_id appends_bytes)

lemma appends_fail: "error_truthy e \<Longrightarrow> appends (fail e) t"
  by (auto simp: appends_def fail_def failed_def)

lemma appends_field: "length v < 2 ^ 32 \<Longrightarrow> appends (header_field f v) (prefix_text f @ v @ CRLF)"
  using appends_comp[OF appends_comp[OF appends_prefix[of f] appends_put[of v]] appends_crlf]
    appends_fail[of "http_error InvalidHeader" "prefix_text f @ v @ CRLF"]
  by (cases "has_crlf v") (simp_all add: header_field_def[abs_def])

lemma appends_named:
  assumes "length n < 2 ^ 32" "length v < 2 ^ 32"
  shows "appends (header_named n v) (header_line n v)"
proof (cases "has_crlf n \<or> has_crlf v")
  case True
  then show ?thesis using appends_fail[of "http_error InvalidHeader"] by (simp add: header_named_def[abs_def])
next
  case False
  have c: "appends (put_bytes '': '' 2) '': ''" using appends_bytes[of "'': ''"] by (simp add: eval_nat_numeral)
  show ?thesis
    using appends_comp[OF appends_comp[OF appends_comp[OF appends_put[OF assms(1)] c] appends_put[OF assms(2)]] appends_crlf] False
    by (simp add: header_named_def[abs_def] header_line_def)
qed

lemma appends_header_u64: "appends (header_u64 f v) (prefix_text f @ dec_digits (unat v) @ CRLF)"
  using appends_comp[OF appends_comp[OF appends_prefix[of f] appends_u64[of v]] appends_crlf]
  by (simp add: header_u64_def[abs_def])

lemma appends_date: "appends (date_header d) (if d = [] then [] else prefix_text Date @ d @ CRLF)"
  using appends_comp[OF appends_comp[OF appends_prefix[of Date] appends_bytes[of d]] appends_crlf]
  by (cases "d = []") (simp_all add: date_header_def[abs_def] appends_id)

definition status_text :: "status_t \<Rightarrow> string" where
  "status_text s = ''HTTP/1.1 '' @ dec_digits (unat s) @ '' '' @ reason_phrase s @ CRLF"

lemma appends_status: "appends (serialize_status_line s) (status_text s)"
proof (cases "status_line s")
  case None
  have u: "unat (ucast s :: uint64) = unat s"
    using unat_word_less[of s] by (intro unat_ucast_self) simp
  have h: "appends (put_bytes ''HTTP/1.1 '' 9) ''HTTP/1.1 ''" "appends (put_byte (CHR '' '')) '' ''"
    using appends_bytes[of "''HTTP/1.1 ''"] appends_bytes[of "'' ''"] by (simp_all add: eval_nat_numeral put_byte_def[abs_def])
  have "appends (\<lambda>b. put_crlf (put (reason_phrase s) (put_byte (CHR '' '') (put_u64 (ucast s) (put_bytes ''HTTP/1.1 '' 9 b)))))
      ((((''HTTP/1.1 '' @ dec_digits (unat (ucast s :: uint64))) @ '' '') @ reason_phrase s) @ CRLF)"
    by (intro appends_comp[OF _ appends_crlf] appends_comp[OF _ appends_put[OF reason_phrase_short]]
        appends_comp[OF _ h(2)] appends_comp[OF h(1)] appends_u64)
  then show ?thesis using None u by (simp add: serialize_status_line_def[abs_def] status_text_def)
next
  case (Some line)
  then show ?thesis
    using appends_bytes[of line] status_line_text[OF Some] by (simp add: serialize_status_line_def[abs_def] status_text_def)
qed

lemmas appends_intros = appends_bytes appends_put appends_id appends_u64 appends_crlf appends_prefix
  appends_field appends_named appends_header_u64 appends_date appends_status

subsection \<open>The abstract response\<close>

datatype spec_body = No_body | Bytes string | File_body string nat

record rspec =
  sp_status :: status_t
  sp_lines :: string
  sp_body :: spec_body
  sp_content_length :: bool
  sp_connection :: bool
  sp_date :: bool
  sp_transfer_encoding :: bool

definition spec_begin :: rspec where
  "spec_begin = \<lparr>sp_status = 200, sp_lines = [], sp_body = No_body, sp_content_length = False,
     sp_connection = False, sp_date = False, sp_transfer_encoding = False\<rparr>"

definition spec_line :: "field_t \<Rightarrow> string \<Rightarrow> rspec \<Rightarrow> rspec" where
  "spec_line f t sp = sp\<lparr>sp_lines := sp_lines sp @ t,
     sp_content_length := sp_content_length sp \<or> f = ContentLength,
     sp_connection := sp_connection sp \<or> f = Connection,
     sp_date := sp_date sp \<or> f = Date,
     sp_transfer_encoding := sp_transfer_encoding sp \<or> f = TransferEncoding\<rparr>"

definition spec_field :: "field_t \<Rightarrow> string \<Rightarrow> rspec \<Rightarrow> rspec" where
  "spec_field f v = spec_line f (prefix_text f @ v @ CRLF)"

definition spec_bytes :: "string \<Rightarrow> rspec \<Rightarrow> rspec" where
  "spec_bytes d sp = sp\<lparr>sp_body := Bytes d\<rparr>"

definition spec_text :: "string \<Rightarrow> string \<Rightarrow> rspec \<Rightarrow> rspec" where
  "spec_text kind t sp = spec_bytes t (spec_field ContentType kind sp)"

definition spec_not_found :: "rspec \<Rightarrow> rspec" where
  "spec_not_found sp = spec_text ''text/plain; charset=utf-8'' ''Not Found'' (sp\<lparr>sp_status := 404\<rparr>)"

definition spec_file :: "file_system \<Rightarrow> string \<Rightarrow> rspec \<Rightarrow> rspec" where
  "spec_file fs path sp = (case fs path of
      Some f \<Rightarrow> if f_regular f then sp\<lparr>sp_body := File_body (f_text f) (f_size f)\<rparr> else spec_not_found sp
    | None \<Rightarrow> spec_not_found sp)"

fun spec_call :: "file_system \<Rightarrow> resp_call \<Rightarrow> rspec \<Rightarrow> rspec" where
  "spec_call fs (Call_status c) sp = sp\<lparr>sp_status := c\<rparr>"
| "spec_call fs (Call_header f v) sp = spec_field f v sp"
| "spec_call fs (Call_header_named n v) sp = spec_line (field_from_name n) (header_line n v) sp"
| "spec_call fs (Call_header_u64 f v) sp = spec_field f (dec_digits (unat v)) sp"
| "spec_call fs (Call_body d) sp = spec_bytes d sp"
| "spec_call fs (Call_body_static d) sp = spec_bytes d sp"
| "spec_call fs (Call_body_owned l n) sp = (case l of None \<Rightarrow> sp | Some d \<Rightarrow> spec_bytes (take n d) sp)"
| "spec_call fs (Call_pin d) sp = sp"
| "spec_call fs (Call_text t) sp = spec_text ''text/plain; charset=utf-8'' t sp"
| "spec_call fs (Call_json t) sp = spec_text ''application/json'' t sp"
| "spec_call fs (Call_html t) sp = spec_text ''text/html; charset=utf-8'' t sp"
| "spec_call fs Call_not_found sp = spec_not_found sp"
| "spec_call fs (Call_redirect l c) sp = spec_field Location l (sp\<lparr>sp_status := c\<rparr>)"
| "spec_call fs (Call_local_file p) sp = spec_file fs p sp"

text \<open>The lengths the 32-bit put of a buffer can take.\<close>

fun call_small :: "resp_call \<Rightarrow> bool" where
  "call_small (Call_header f v) \<longleftrightarrow> length v < 2 ^ 32"
| "call_small (Call_header_named n v) \<longleftrightarrow> length n < 2 ^ 32 \<and> length v < 2 ^ 32"
| "call_small (Call_redirect l c) \<longleftrightarrow> length l < 2 ^ 32"
| "call_small _ \<longleftrightarrow> True"

subsection \<open>Ownership\<close>

definition world_ok :: "world \<Rightarrow> bool" where
  "world_ok w \<longleftrightarrow> \<not> w_fault w \<and> (\<forall>i \<ge> w_next w. w_objs w i = None) \<and> (\<forall>fd \<ge> w_next_fd w. w_fds w fd = None)"

definition lease_ids :: "nat option \<Rightarrow> nat list" where
  "lease_ids l = (case l of None \<Rightarrow> [] | Some i \<Rightarrow> [i])"

definition owned_ids :: "response_t \<Rightarrow> nat list" where
  "owned_ids r = rs_arena r @ lease_ids (rs_owned r)"

definition owner_ok :: "rstate \<Rightarrow> bool" where
  "owner_ok s \<longleftrightarrow> (case s of (r, w) \<Rightarrow> world_ok w \<and> distinct (owned_ids r) \<and>
     (\<forall>i \<in> set (owned_ids r). w_objs w i \<noteq> None) \<and>
     (\<forall>fd. rs_file_fd r = Some fd \<longrightarrow> w_fds w fd \<noteq> None) \<and>
     (rs_source r = SrcNone \<longrightarrow> rs_owned r = None \<and> rs_file_fd r = None) \<and>
     (\<forall>b. rs_body_out r = Some b \<longrightarrow> ob_capacity b < 2 ^ 32))"

text \<open>What a call leaves of everything else: live objects and files stay, new ones are fresh.\<close>

definition world_extends :: "world \<Rightarrow> world \<Rightarrow> bool" where
  "world_extends w w' \<longleftrightarrow> w_next w \<le> w_next w' \<and> w_next_fd w \<le> w_next_fd w' \<and>
     (\<forall>i < w_next w. w_objs w' i = w_objs w i) \<and> (\<forall>fd < w_next_fd w. w_fds w' fd = w_fds w fd)"

definition grows :: "out_buffer_t option \<Rightarrow> out_buffer_t option \<Rightarrow> bool" where
  "grows b b' \<longleftrightarrow> (case b of None \<Rightarrow> b' = None
     | Some x \<Rightarrow> \<exists>y u. b' = Some y \<and> ob_data y = ob_data x @ u \<and> ob_capacity y = ob_capacity x \<and> ob_valid y = ob_valid x \<and>
         (failed x \<longrightarrow> failed y))"

definition call_frame :: "rstate \<Rightarrow> rstate \<Rightarrow> bool" where
  "call_frame s s' \<longleftrightarrow> (case (s, s') of ((r, w), (r', w')) \<Rightarrow> world_extends w w' \<and>
     set (owned_ids r') \<subseteq> set (owned_ids r) \<union> {w_next w ..} \<and>
     (\<forall>fd. rs_file_fd r' = Some fd \<longrightarrow> rs_file_fd r = Some fd \<or> w_next_fd w \<le> fd) \<and>
     grows (rs_hdr r) (rs_hdr r') \<and> grows (rs_body_out r) (rs_body_out r') \<and>
     (error_truthy (rs_err r) \<longrightarrow> error_truthy (rs_err r')) \<and> rs_conn r' = rs_conn r)"

lemma grows_refl [simp]: "grows b b"
  by (cases b) (simp_all add: grows_def)

lemma grows_trans: "grows a b \<Longrightarrow> grows b c \<Longrightarrow> grows a c"
  by (auto simp: grows_def split: option.splits)

lemma world_extends_refl [simp]: "world_extends w w"
  by (simp add: world_extends_def)

lemma world_extends_trans: "world_extends u v \<Longrightarrow> world_extends v w \<Longrightarrow> world_extends u w"
  by (auto simp: world_extends_def)

lemma call_frameD:
  assumes "call_frame (r, w) (r', w')"
  shows "world_extends w w'" "set (owned_ids r') \<subseteq> set (owned_ids r) \<union> {w_next w ..}"
    "rs_file_fd r' = Some fd \<Longrightarrow> rs_file_fd r = Some fd \<or> w_next_fd w \<le> fd"
    "grows (rs_hdr r) (rs_hdr r')" "grows (rs_body_out r) (rs_body_out r')"
    "error_truthy (rs_err r) \<Longrightarrow> error_truthy (rs_err r')" "rs_conn r' = rs_conn r"
  using assms by (simp_all add: call_frame_def)

lemma call_frame_trans:
  assumes "call_frame s t" "call_frame t u"
  shows "call_frame s u"
proof -
  obtain r w r1 w1 r2 w2 where s: "s = (r, w)" "t = (r1, w1)" "u = (r2, w2)" by (cases s; cases t; cases u)
  note a = call_frameD[OF assms(1)[unfolded s]] and b = call_frameD[OF assms(2)[unfolded s]]
  have n: "w_next w \<le> w_next w1" "w_next_fd w \<le> w_next_fd w1" using a(1) by (auto simp: world_extends_def)
  have "set (owned_ids r2) \<subseteq> set (owned_ids r) \<union> {w_next w ..}" using a(2) b(2) n(1) by fastforce
  moreover have "rs_file_fd r = Some fd \<or> w_next_fd w \<le> fd" if "rs_file_fd r2 = Some fd" for fd
    using b(3)[OF that] a(3)[of fd] n(2) by auto
  ultimately show ?thesis unfolding s call_frame_def prod.case
    using world_extends_trans[OF a(1) b(1)] grows_trans[OF a(4) b(4)] grows_trans[OF a(5) b(5)] a(6,7) b(6,7) by blast
qed

lemma response_failed_iff: "response_failed r \<longleftrightarrow> error_truthy (rs_err r) \<or>
    (\<exists>h. rs_hdr r = Some h \<and> failed h) \<or> (\<exists>b. rs_body_out r = Some b \<and> failed b)"
  by (auto simp: response_failed_def response_error_def failed_def split: option.splits)

lemma failed_sticky: "call_frame (r, w) (r', w') \<Longrightarrow> response_failed r \<Longrightarrow> response_failed r'"
  by (auto simp: response_failed_iff call_frame_def grows_def split: option.splits)

subsection \<open>The calls implement the abstract response\<close>

definition body_rel :: "response_t \<Rightarrow> world \<Rightarrow> spec_body \<Rightarrow> bool" where
  "body_rel r w sb \<longleftrightarrow> (case sb of
      No_body \<Rightarrow> rs_source r = SrcNone \<and> rs_body_len r = 0
    | Bytes d \<Rightarrow> rs_body_len r = length d \<and> rs_file_fd r = None \<and>
        (case rs_source r of
           SrcInline \<Rightarrow> \<exists>pre post. ob_data (the (rs_body_out r)) = pre @ d @ post \<and> rs_body_off r = length pre
         | SrcExternal \<Rightarrow> view_read w (rs_external r) = Some d \<and>
             (\<forall>i n. rs_external r = View_obj i n \<longrightarrow> i \<in> set (owned_ids r))
         | _ \<Rightarrow> False)
    | File_body t n \<Rightarrow> rs_body_len r = n \<and> rs_source r = SrcFile \<and>
        (\<exists>fd. rs_file_fd r = Some fd \<and> w_fds w fd = Some t))"

definition head_rel :: "string \<Rightarrow> response_t \<Rightarrow> rspec \<Rightarrow> bool" where
  "head_rel h0 r sp \<longleftrightarrow> (\<exists>h. rs_hdr r = Some h \<and> ob_data h = h0 @ sp_lines sp) \<and> rs_body_out r \<noteq> None \<and>
     rs_hdr_off r = length h0 \<and> rs_hdr_end r = length h0 + length (sp_lines sp) \<and> rs_status r = sp_status sp \<and>
     rs_saw_content_length r = sp_content_length sp \<and> rs_saw_connection r = sp_connection sp \<and>
     rs_saw_date r = sp_date sp \<and> rs_saw_transfer_encoding r = sp_transfer_encoding sp"

definition refines :: "(rstate \<Rightarrow> rstate) \<Rightarrow> (rspec \<Rightarrow> rspec) \<Rightarrow> bool" where
  "refines op g \<longleftrightarrow> (\<forall>r w r' w'. owner_ok (r, w) \<and> op (r, w) = (r', w') \<longrightarrow>
     owner_ok (r', w') \<and> call_frame (r, w) (r', w') \<and>
     (\<forall>h0 sp. head_rel h0 r sp \<and> body_rel r w (sp_body sp) \<and> \<not> response_failed r' \<longrightarrow>
        head_rel h0 r' (g sp) \<and> body_rel r' w' (sp_body (g sp))))"

lemma refinesD:
  assumes "refines op g" "owner_ok (r, w)" "op (r, w) = (r', w')"
  shows "owner_ok (r', w')" "call_frame (r, w) (r', w')"
    "head_rel h0 r sp \<Longrightarrow> body_rel r w (sp_body sp) \<Longrightarrow> \<not> response_failed r' \<Longrightarrow>
       head_rel h0 r' (g sp) \<and> body_rel r' w' (sp_body (g sp))"
  using assms unfolding refines_def by blast+

lemma refinesI:
  assumes "\<And>r w r' w'. owner_ok (r, w) \<Longrightarrow> op (r, w) = (r', w') \<Longrightarrow> owner_ok (r', w')"
    "\<And>r w r' w'. owner_ok (r, w) \<Longrightarrow> op (r, w) = (r', w') \<Longrightarrow> call_frame (r, w) (r', w')"
    "\<And>r w r' w' h0 sp. owner_ok (r, w) \<Longrightarrow> op (r, w) = (r', w') \<Longrightarrow> head_rel h0 r sp \<Longrightarrow>
       body_rel r w (sp_body sp) \<Longrightarrow> \<not> response_failed r' \<Longrightarrow>
       head_rel h0 r' (g sp) \<and> body_rel r' w' (sp_body (g sp))"
  shows "refines op g"
  using assms unfolding refines_def by blast

lemma refines_comp: "refines f g \<Longrightarrow> refines f' g' \<Longrightarrow> refines (\<lambda>s. f' (f s)) (\<lambda>sp. g' (g sp))"
proof -
  assume f: "refines f g" and f': "refines f' g'"
  show ?thesis
  proof (rule refinesI)
    fix r w r' w' assume o: "owner_ok (r, w)" and e: "f' (f (r, w)) = (r', w')"
    obtain r1 w1 where 1: "f (r, w) = (r1, w1)" by fastforce
    note a = refinesD[OF f o 1]
    have e': "f' (r1, w1) = (r', w')" using e 1 by simp
    note b = refinesD[OF f' a(1) e']
    show "owner_ok (r', w')" by (rule b(1))
    show "call_frame (r, w) (r', w')" by (rule call_frame_trans[OF a(2) b(2)])
    fix h0 sp assume h: "head_rel h0 r sp" "body_rel r w (sp_body sp)" "\<not> response_failed r'"
    have "\<not> response_failed r1" using failed_sticky[OF b(2)] h(3) by blast
    then show "head_rel h0 r' (g' (g sp)) \<and> body_rel r' w' (sp_body (g' (g sp)))"
      using a(3)[OF h(1,2)] b(3)[OF _ _ h(3)] by blast
  qed
qed

text \<open>Status and header lines.\<close>

lemma refines_status: "refines (\<lambda>(r, w). (set_status c r, w)) (\<lambda>sp. sp\<lparr>sp_status := c\<rparr>)"
  by (auto simp: refines_def set_status_def owner_ok_def owned_ids_def call_frame_def head_rel_def body_rel_def
      split: spec_body.splits body_source_t.splits)

lemma note_framing_alt: "response_note_framing_header f r =
    r\<lparr>rs_saw_content_length := rs_saw_content_length r \<or> f = ContentLength,
      rs_saw_connection := rs_saw_connection r \<or> f = Connection, rs_saw_date := rs_saw_date r \<or> f = Date,
      rs_saw_transfer_encoding := rs_saw_transfer_encoding r \<or> f = TransferEncoding\<rparr>"
  by (cases f) (simp_all add: response_note_framing_header_def)

lemma note_framing_fields [simp]:
  "rs_hdr (response_note_framing_header f r) = rs_hdr r"
  "rs_body_out (response_note_framing_header f r) = rs_body_out r"
  "rs_conn (response_note_framing_header f r) = rs_conn r"
  "rs_status (response_note_framing_header f r) = rs_status r"
  "rs_source (response_note_framing_header f r) = rs_source r"
  "rs_hdr_off (response_note_framing_header f r) = rs_hdr_off r"
  "rs_body_off (response_note_framing_header f r) = rs_body_off r"
  "rs_body_len (response_note_framing_header f r) = rs_body_len r"
  "rs_external (response_note_framing_header f r) = rs_external r"
  "rs_owned (response_note_framing_header f r) = rs_owned r"
  "rs_file_fd (response_note_framing_header f r) = rs_file_fd r"
  "rs_arena (response_note_framing_header f r) = rs_arena r"
  "rs_err (response_note_framing_header f r) = rs_err r"
  "rs_saw_content_length (response_note_framing_header f r) = (rs_saw_content_length r \<or> f = ContentLength)"
  "rs_saw_connection (response_note_framing_header f r) = (rs_saw_connection r \<or> f = Connection)"
  "rs_saw_date (response_note_framing_header f r) = (rs_saw_date r \<or> f = Date)"
  "rs_saw_transfer_encoding (response_note_framing_header f r) = (rs_saw_transfer_encoding r \<or> f = TransferEncoding)"
  by (simp_all add: note_framing_alt)

lemma response_fail_fields [simp]:
  "rs_hdr (response_fail e r) = rs_hdr r" "rs_body_out (response_fail e r) = rs_body_out r"
  "rs_conn (response_fail e r) = rs_conn r" "rs_source (response_fail e r) = rs_source r"
  "rs_owned (response_fail e r) = rs_owned r" "rs_file_fd (response_fail e r) = rs_file_fd r"
  "rs_arena (response_fail e r) = rs_arena r" 
  "error_truthy (rs_err (response_fail e r)) = (error_truthy (rs_err r) \<or> error_truthy e)"
  by (simp_all add: response_fail_def)

lemma fail_failed: "error_truthy e \<Longrightarrow> response_failed (response_fail e r)"
  by (simp add: response_failed_iff)

lemma owned_ids_cong: "rs_arena r' = rs_arena r \<Longrightarrow> rs_owned r' = rs_owned r \<Longrightarrow> owned_ids r' = owned_ids r"
  by (simp add: owned_ids_def)

lemma body_rel_cong:
  assumes "rs_source r' = rs_source r" "rs_body_len r' = rs_body_len r" "rs_file_fd r' = rs_file_fd r"
    "rs_body_out r' = rs_body_out r" "rs_body_off r' = rs_body_off r" "rs_external r' = rs_external r"
    "rs_arena r' = rs_arena r" "rs_owned r' = rs_owned r"
  shows "body_rel r' w sb = body_rel r w sb"
  unfolding body_rel_def assms owned_ids_cong[OF assms(7,8)] ..

lemma grows_emit: "appends emit t \<Longrightarrow> grows (Some h) (Some (emit h))"
proof -
  assume a: "appends emit t"
  obtain u where "ob_data (emit h) = ob_data h @ u" using appendsD(6)[OF a] by blast
  then show ?thesis using appendsD(4,5)[OF a, of h] appendsD(1)[OF a, of h] unfolding grows_def option.case by blast
qed

lemma refines_line:
  assumes "appends emit t"
  shows "refines (\<lambda>(r, w). (stage_line emit f r, w)) (spec_line f t)"
proof (rule refinesI)
  fix r w r' w' assume o: "owner_ok (r, w)" and e: "(case (r, w) of (r, w) \<Rightarrow> (stage_line emit f r, w)) = (r', w')"
  from e have r': "r' = stage_line emit f r" and w': "w' = w" by auto
  have ids: "owned_ids r' = owned_ids r"
    unfolding r' by (rule owned_ids_cong) (auto simp: stage_line_def split: option.splits)
  show "owner_ok (r', w')" using o ids unfolding r' w' by (auto simp: owner_ok_def stage_line_def split: option.splits)
  show "call_frame (r, w) (r', w')" using ids grows_emit[OF assms] unfolding r' w'
    by (cases "rs_hdr r") (simp_all add: call_frame_def stage_line_def)
  fix h0 sp assume h: "head_rel h0 r sp" "body_rel r w (sp_body sp)" "\<not> response_failed r'"
  from h(1) obtain b where b: "rs_hdr r = Some b" "ob_data b = h0 @ sp_lines sp" by (auto simp: head_rel_def)
  have "\<not> failed (emit b)" using h(3) b unfolding r' by (auto simp: response_failed_iff stage_line_def)
  then have d: "ob_data (emit b) = h0 @ sp_lines sp @ t" using appendsD(2)[OF assms] b by simp
  have "head_rel h0 r' (spec_line f t sp)"
    using h(1) b d unfolding r' by (auto simp: head_rel_def stage_line_def spec_line_def ob_size_def)
  moreover have "body_rel r' w' (sp_body (spec_line f t sp))"
    using h(2) b unfolding r' w' by (subst body_rel_cong[of _ r]) (simp_all add: stage_line_def spec_line_def)
  ultimately show "head_rel h0 r' (spec_line f t sp) \<and> body_rel r' w' (sp_body (spec_line f t sp))" ..
qed

lemma refines_field: "length v < 2 ^ 32 \<Longrightarrow> refines (\<lambda>(r, w). (response_header f v r, w)) (spec_field f v)"
  using refines_line[OF appends_field[of v f], of f] by (simp add: response_header_def spec_field_def)

lemma refines_named:
  "length n < 2 ^ 32 \<Longrightarrow> length v < 2 ^ 32 \<Longrightarrow>
    refines (\<lambda>(r, w). (response_header_named n v r, w)) (spec_line (field_from_name n) (header_line n v))"
  using refines_line[OF appends_named[of n v]] by (simp add: response_header_named_def)

lemma refines_u64: "refines (\<lambda>(r, w). (response_header_u64 f v r, w)) (spec_field f (dec_digits (unat v)))"
  using refines_line[OF appends_header_u64[of f v], of f] by (simp add: response_header_u64_def spec_field_def)

text \<open>Bodies.\<close>

lemma refines_fail: "error_truthy e \<Longrightarrow> refines (\<lambda>(r, w). (response_fail e r, w)) g"
  by (rule refinesI) (auto simp: owner_ok_def owned_ids_def call_frame_def fail_failed)

lemma new_obj_ok:
  assumes "world_ok w" "new_obj s w = (i, w')"
  shows "world_ok w'" "world_extends w w'" "w_objs w' i = Some s" "i = w_next w" "w_fds w' = w_fds w"
    "j \<noteq> i \<Longrightarrow> w_objs w' j = w_objs w j"
  using assms by (auto simp: new_obj_def world_ok_def world_extends_def)

lemma owned_live: "owner_ok (r, w) \<Longrightarrow> i \<in> set (owned_ids r) \<Longrightarrow> i < w_next w"
proof (rule ccontr)
  assume o: "owner_ok (r, w)" "i \<in> set (owned_ids r)" "\<not> i < w_next w"
  then have "w_objs w i \<noteq> None" unfolding owner_ok_def prod.case by blast
  then show False using o(1,3) by (simp add: owner_ok_def world_ok_def)
qed

lemma owner_ok_pin:
  assumes "owner_ok (r, w)" "new_obj s w = (i, w')" "rs_arena r' = rs_arena r @ [i]" "rs_owned r' = rs_owned r"
    "rs_file_fd r' = rs_file_fd r" "rs_source r' = SrcNone \<longrightarrow> rs_source r = SrcNone" "rs_body_out r' = rs_body_out r"
  shows "owner_ok (r', w')"
proof -
  note n = new_obj_ok[OF _ assms(2)]
  have w: "world_ok w" using assms(1) by (simp add: owner_ok_def)
  have fr: "i \<notin> set (owned_ids r)" using owned_live[OF assms(1)] n(4)[OF w] by blast
  have ids: "set (owned_ids r') = insert i (set (owned_ids r))" "distinct (owned_ids r')"
    using assms(1,3,4) fr by (auto simp: owned_ids_def owner_ok_def)
  have "w_objs w' j \<noteq> None" if "j \<in> set (owned_ids r')" for j
    using that ids assms(1) n(3)[OF w] n(6)[OF w, of j] by (cases "j = i") (auto simp: owner_ok_def)
  then show ?thesis using ids assms n(1,5)[OF w] by (auto simp: owner_ok_def)
qed

lemma owner_ok_cong:
  assumes "owner_ok (r, w)" "rs_arena r' = rs_arena r" "rs_owned r' = rs_owned r"
    "rs_file_fd r' = rs_file_fd r" "rs_source r' = SrcNone \<longrightarrow> rs_source r = SrcNone" "rs_body_out r' = rs_body_out r"
  shows "owner_ok (r', w)"
  using assms by (simp add: owner_ok_def owned_ids_def)

lemma call_frame_pin:
  assumes "owner_ok (r, w)" "new_obj s w = (i, w')" "rs_arena r' = rs_arena r @ [i]" "rs_owned r' = rs_owned r"
    "rs_file_fd r' = rs_file_fd r" "rs_hdr r' = rs_hdr r" "rs_body_out r' = rs_body_out r" "rs_err r' = rs_err r" "rs_conn r' = rs_conn r"
  shows "call_frame (r, w) (r', w')"
  using assms new_obj_ok(2,4)[OF _ assms(2)] by (auto simp: call_frame_def owner_ok_def owned_ids_def)

lemma head_rel_cong:
  assumes "head_rel h0 r sp" "rs_hdr r' = rs_hdr r" "rs_body_out r' \<noteq> None" "rs_hdr_off r' = rs_hdr_off r"
    "rs_hdr_end r' = rs_hdr_end r" "rs_status r' = rs_status r"
    "rs_saw_content_length r' = rs_saw_content_length r" "rs_saw_connection r' = rs_saw_connection r"
    "rs_saw_date r' = rs_saw_date r" "rs_saw_transfer_encoding r' = rs_saw_transfer_encoding r"
  shows "head_rel h0 r' (spec_bytes d sp)"
  using assms by (simp add: head_rel_def spec_bytes_def)

lemma head_rel_same: "head_rel h0 r' (spec_bytes d sp) = head_rel h0 r' sp"
  by (simp add: head_rel_def spec_bytes_def)

lemma refines_pin: "refines (\<lambda>s. snd (pin d s)) (\<lambda>sp. sp)"
proof (rule refinesI)
  fix r w r' w' assume o: "owner_ok (r, w)" and e: "snd (pin d (r, w)) = (r', w')"
  obtain i where i: "new_obj d w = (i, w')" "r' = r\<lparr>rs_arena := rs_arena r @ [i]\<rparr>"
    using e by (auto simp: pin_def new_obj_def)
  show "owner_ok (r', w')" by (rule owner_ok_pin[OF o i(1)]) (simp_all add: i(2))
  show "call_frame (r, w) (r', w')" by (rule call_frame_pin[OF o i(1)]) (simp_all add: i(2))
  have w: "world_ok w" using o by (simp add: owner_ok_def)
  fix h0 sp assume h: "head_rel h0 r sp" "body_rel r w (sp_body sp)"
  have h': "head_rel h0 r' sp" using head_rel_cong[OF h(1), of r'] h(1) by (simp add: i(2) head_rel_same head_rel_def)
  have live: "view_read w' (rs_external r) = view_read w (rs_external r)"
    if "\<forall>j n. rs_external r = View_obj j n \<longrightarrow> j \<in> set (owned_ids r)"
    using that owned_live[OF o] new_obj_ok(4)[OF w i(1)] new_obj_ok(6)[OF w i(1)] by (cases "rs_external r") fastforce+
  have "body_rel r' w' (sp_body sp)"
    using h(2) live new_obj_ok(5)[OF w i(1)]
    by (auto simp: body_rel_def i(2) owned_ids_def split: spec_body.splits body_source_t.splits)
  then show "head_rel h0 r' sp \<and> body_rel r' w' (sp_body sp)" using h' by simp
qed

lemma refines_latch:
  assumes "\<And>r w. owner_ok (r, w) \<Longrightarrow> P (r, w) \<Longrightarrow> op (r, w) = (response_fail (http_error InvalidState) r, w)"
    and "\<And>r w r' w'. owner_ok (r, w) \<Longrightarrow> \<not> P (r, w) \<Longrightarrow> op (r, w) = (r', w') \<Longrightarrow> owner_ok (r', w') \<and> call_frame (r, w) (r', w')"
    and "\<And>r w r' w' h0 sp. owner_ok (r, w) \<Longrightarrow> \<not> P (r, w) \<Longrightarrow> op (r, w) = (r', w') \<Longrightarrow> head_rel h0 r sp \<Longrightarrow>
       body_rel r w (sp_body sp) \<Longrightarrow> \<not> response_failed r' \<Longrightarrow> head_rel h0 r' (g sp) \<and> body_rel r' w' (sp_body (g sp))"
  shows "refines op g"
proof -
  have f: "refines (\<lambda>(r, w). (response_fail (http_error InvalidState) r, w)) g" by (rule refines_fail) simp
  show ?thesis
  proof (rule refinesI)
    fix r w r' w' assume o: "owner_ok (r, w)" and e: "op (r, w) = (r', w')"
    show "owner_ok (r', w')" using assms(1,2)[OF o] refinesD(1)[OF f o] e by (cases "P (r, w)") auto
    show "call_frame (r, w) (r', w')" using assms(1,2)[OF o] refinesD(2)[OF f o] e by (cases "P (r, w)") auto
    fix h0 sp assume h: "head_rel h0 r sp" "body_rel r w (sp_body sp)" "\<not> response_failed r'"
    have "\<not> P (r, w)" using assms(1)[OF o] e h(3) fail_failed[of "http_error InvalidState"] by auto
    then show "head_rel h0 r' (g sp) \<and> body_rel r' w' (sp_body (g sp))" using assms(3)[OF o _ e h] by blast
  qed
qed

lemma refines_static: "refines (\<lambda>(r, w). (response_body_static d r, w)) (spec_bytes d)"
proof (rule refines_latch[where P = "\<lambda>(r, w). rs_source r \<noteq> SrcNone"], goal_cases)
  case (2 r w r' w')
  then show ?case by (auto simp: response_body_static_def owner_ok_def owned_ids_def call_frame_def)
next
  case (3 r w r' w' h0 sp)
  then have "r' = r\<lparr>rs_external := View_text d, rs_body_len := length d, rs_source := SrcExternal\<rparr>" "w' = w" "rs_file_fd r = None"
    by (auto simp: response_body_static_def owner_ok_def)
  then show ?case using 3(4) by (auto simp: head_rel_def body_rel_def spec_bytes_def)
qed (auto simp: response_body_static_def)

lemma put_capacity [simp]: "ob_capacity (put d b) = ob_capacity b"
  by (simp add: put_def put_bytes_def)

lemma put_grows: "grows (Some b) (Some (put d b))"
  by (auto simp: grows_def put_def put_bytes_def failed_def)

lemma refines_body: "refines (response_body d) (spec_bytes d)"
proof (rule refines_latch[where P = "\<lambda>(r, w). rs_body_out r = None \<or> rs_source r \<noteq> SrcNone"], goal_cases)
  case (2 r w r' w')
  then obtain b where b: "rs_body_out r = Some b" "rs_source r = SrcNone" by auto
  show ?case
  proof (cases "length d > remaining b")
    case True
    then obtain i where i: "new_obj d w = (i, w')" "r' = r\<lparr>rs_arena := rs_arena r @ [i], rs_external := View_obj i (length d),
        rs_body_len := length d, rs_source := SrcExternal\<rparr>"
      using 2 b by (auto simp: response_body_def pin_def new_obj_def)
    have "owner_ok (r', w')" by (rule owner_ok_pin[OF 2(1) i(1)]) (simp_all add: i(2))
    moreover have "call_frame (r, w) (r', w')" by (rule call_frame_pin[OF 2(1) i(1)]) (simp_all add: i(2))
    ultimately show ?thesis ..
  next
    case False
    then show ?thesis using 2(1,3) b put_grows[of b d]
      by (auto simp: response_body_def Let_def owner_ok_def owned_ids_def call_frame_def response_fail_def split: if_splits)
  qed
next
  case (3 r w r' w' h0 sp)
  then obtain b where b: "rs_body_out r = Some b" "rs_source r = SrcNone" by auto
  have w: "world_ok w" "rs_file_fd r = None" using 3(1) b by (auto simp: owner_ok_def)
  show ?case
  proof (cases "length d > remaining b")
    case True
    then obtain i where i: "new_obj d w = (i, w')" "r' = r\<lparr>rs_arena := rs_arena r @ [i], rs_external := View_obj i (length d),
        rs_body_len := length d, rs_source := SrcExternal\<rparr>"
      using 3 b by (auto simp: response_body_def pin_def new_obj_def)
    then show ?thesis using 3(4) b w new_obj_ok(3)[OF w(1) i(1)]
      by (auto simp: head_rel_def body_rel_def spec_bytes_def owned_ids_def)
  next
    case False
    have nf: "\<not> failed (put d b)" "\<not> error_truthy (rs_err r)"
      using 3(3,6) b False by (auto simp: response_body_def Let_def response_failed_iff split: if_splits)
    have r': "r' = r\<lparr>rs_body_off := ob_size b, rs_body_out := Some (put d b), rs_body_len := length d, rs_source := SrcInline\<rparr>" "w' = w"
      using 3(3) b False nf by (auto simp: response_body_def Let_def)
    have "length d < 2 ^ 32" using False 3(1) b by (auto simp: owner_ok_def remaining_def split: if_splits)
    then have "ob_data (put d b) = ob_data b @ d" using appendsD(2)[OF appends_put nf(1)] by blast
    then have "\<exists>pre post. ob_data (put d b) = pre @ d @ post \<and> ob_size b = length pre"
      by (intro exI[of _ "ob_data b"] exI[of _ "[]"]) (simp add: ob_size_def)
    then have "body_rel r' w' (Bytes d)" using w r' by (simp add: body_rel_def)
    moreover have "head_rel h0 r' (spec_bytes d sp)" by (rule head_rel_cong[OF 3(4)]) (simp_all add: r')
    ultimately show ?thesis by (simp add: spec_bytes_def)
  qed
qed (auto simp: response_body_def split: option.splits)

lemma free_obj_world:
  assumes "world_ok w" "new_obj s w = (i, w1)"
  shows "world_ok (free_obj i w1)" "world_extends w (free_obj i w1)" "w_fds (free_obj i w1) = w_fds w"
    "w_objs (free_obj i w1) = w_objs w"
  using assms by (auto simp: free_obj_def new_obj_def world_ok_def world_extends_def fun_eq_iff)

lemma owner_ok_world:
  assumes "owner_ok (r, w)" "world_ok w'" "w_objs w' = w_objs w" "w_fds w' = w_fds w"
  shows "owner_ok (r, w')"
  using assms by (simp add: owner_ok_def)

lemma refines_owned: "refines (do_call fs (Call_body_owned l n)) (spec_call fs (Call_body_owned l n))"
proof (cases l)
  case None
  have "do_call fs (Call_body_owned l n) = (\<lambda>(r, w). (response_fail (http_error InvalidState) r, w))"
    by (auto simp: None response_body_owned_def lease_drop_def fun_eq_iff)
  then show ?thesis using refines_fail[of "http_error InvalidState"] by simp
next
  case (Some d)
  show ?thesis
  proof (rule refinesI)
    fix r w r' w' assume o: "owner_ok (r, w)" and e: "do_call fs (Call_body_owned l n) (r, w) = (r', w')"
    obtain i w1 where i: "new_obj d w = (i, w1)" by fastforce
    have w: "world_ok w" using o by (simp add: owner_ok_def)
    note no = new_obj_ok[OF w i] and fr = free_obj_world[OF w i]
    have bad: "r' = response_fail (http_error InvalidState) r" "w' = free_obj i w1" if "rs_source r \<noteq> SrcNone \<or> n > length d"
      using that e i no(3) by (auto simp: Some response_body_owned_def lease_drop_def split: if_splits)
    have good: "r' = r\<lparr>rs_external := View_obj i n, rs_owned := Some i, rs_body_len := n, rs_source := SrcExternal\<rparr>"
      "w' = w1" "rs_owned r = None" "rs_file_fd r = None" if "\<not> (rs_source r \<noteq> SrcNone \<or> n > length d)"
      using that e i no(3) o by (auto simp: Some response_body_owned_def lease_drop_def owner_ok_def split: if_splits)
    show "owner_ok (r', w')"
    proof (cases "rs_source r \<noteq> SrcNone \<or> n > length d")
      case True
      have "owner_ok (r, w')" using owner_ok_world[OF o fr(1,4,3)] bad(2)[OF True] by simp
      then show ?thesis using bad(1)[OF True] by (simp add: owner_ok_def owned_ids_def)
    next
      case False
      have "i \<notin> set (rs_arena r)" using owned_live[OF o, of i] no(4) by (auto simp: owned_ids_def)
      then show ?thesis using good[OF False] o no(1,3,5) no(6)
        by (auto simp: owner_ok_def owned_ids_def lease_ids_def) (metis option.distinct(1))
    qed
    show "call_frame (r, w) (r', w')"
    proof (cases "rs_source r \<noteq> SrcNone \<or> n > length d")
      case True
      then show ?thesis using bad[OF True] fr(2) by (auto simp: call_frame_def owned_ids_def)
    next
      case False
      then show ?thesis using good[OF False] no(2,4) by (auto simp: call_frame_def owned_ids_def lease_ids_def)
    qed
    fix h0 sp assume h: "head_rel h0 r sp" "body_rel r w (sp_body sp)" "\<not> response_failed r'"
    have F: "\<not> (rs_source r \<noteq> SrcNone \<or> n > length d)" using bad(1) h(3) fail_failed[of "http_error InvalidState" r] by auto
    note g = good[OF F]
    have "head_rel h0 r' (spec_bytes (take n d) sp)" by (rule head_rel_cong[OF h(1)]) (use g(1) h(1) in \<open>simp_all add: head_rel_def\<close>)
    moreover have "body_rel r' w' (Bytes (take n d))"
      using F g no(3) by (simp add: body_rel_def owned_ids_def lease_ids_def)
    ultimately show "head_rel h0 r' (spec_call fs (Call_body_owned l n) sp) \<and>
        body_rel r' w' (sp_body (spec_call fs (Call_body_owned l n) sp))"
      by (simp add: Some spec_bytes_def)
  qed
qed

lemma refines_text:
  "length k < 2 ^ 32 \<Longrightarrow> refines (\<lambda>s. case s of (r, w) \<Rightarrow> response_body t (response_header ContentType k r, w)) (spec_text k t)"
  using refines_comp[OF refines_field[of k ContentType] refines_body[of t]] by (simp add: spec_text_def[abs_def] case_prod_unfold)

lemma refines_not_found: "refines not_found spec_not_found"
proof -
  have "refines (\<lambda>s. response_text ''Not Found'' (case s of (r, w) \<Rightarrow> (set_status 404 r, w)))
      (\<lambda>sp. spec_text ''text/plain; charset=utf-8'' ''Not Found'' (sp\<lparr>sp_status := 404\<rparr>))"
    by (rule refines_comp[OF refines_status])
      (use refines_text[of "''text/plain; charset=utf-8''" "''Not Found''"] in \<open>simp add: response_text_def[abs_def]\<close>)
  then show ?thesis by (simp add: not_found_def[abs_def] spec_not_found_def[abs_def] case_prod_unfold)
qed


lemma open_file_ok:
  assumes "world_ok w" "open_file s w = (fd, w')"
  shows "world_ok w'" "world_extends w w'" "w_fds w' fd = Some s" "fd = w_next_fd w" "w_objs w' = w_objs w"
    "world_ok (close_fd fd w')" "world_extends w (close_fd fd w')" "w_fds (close_fd fd w') = w_fds w"
    "w_objs (close_fd fd w') = w_objs w"
  using assms by (auto simp: open_file_def close_fd_def world_ok_def world_extends_def fun_eq_iff)

lemma body_rel_world:
  assumes "w_objs w' = w_objs w" "w_fds w' = w_fds w"
  shows "body_rel r w' sb = body_rel r w sb"
proof -
  have v: "view_read w' v = view_read w v" for v by (cases v) (simp_all add: assms)
  show ?thesis unfolding body_rel_def assms v ..
qed

lemma refines_file: "refines (do_call fs (Call_local_file p)) (spec_call fs (Call_local_file p))"
proof (rule refines_latch[where P = "\<lambda>(r, w). rs_source r \<noteq> SrcNone"], goal_cases)
  case (2 r w r' w')
  have w: "world_ok w" using 2(1) by (simp add: owner_ok_def)
  have miss: "owner_ok (r', w') \<and> call_frame (r, w) (r', w')"
    if "not_found (r, w2) = (r', w')" "world_ok w2" "world_extends w w2" "w_objs w2 = w_objs w" "w_fds w2 = w_fds w" for w2
  proof -
    note n = refinesD[OF refines_not_found owner_ok_world[OF 2(1) that(2,4,5)] that(1)]
    have "call_frame (r, w) (r, w2)" using that(3) by (simp add: call_frame_def)
    then show ?thesis using n(1) call_frame_trans[OF _ n(2)] by blast
  qed
  show ?case
  proof (cases "fs p")
    case None
    then show ?thesis using 2 miss[OF _ w] by (simp add: local_file_def)
  next
    case (Some f)
    obtain fd w1 where f: "open_file (f_text f) w = (fd, w1)" by fastforce
    note o = open_file_ok[OF w f]
    show ?thesis
    proof (cases "f_regular f")
      case True
      then have r': "r' = r\<lparr>rs_file_fd := Some fd, rs_file_size := f_size f, rs_body_len := f_size f, rs_source := SrcFile\<rparr>" "w' = w1"
        using 2 Some f by (auto simp: local_file_def)
      then show ?thesis using 2(1) o by (auto simp: owner_ok_def owned_ids_def call_frame_def)
    next
      case False
      then show ?thesis using 2 Some f miss[OF _ o(6,7,9,8)] by (simp add: local_file_def)
    qed
  qed
next
  case (3 r w r' w' h0 sp)
  have w: "world_ok w" using 3(1) by (simp add: owner_ok_def)
  have miss: "head_rel h0 r' (spec_not_found sp) \<and> body_rel r' w' (sp_body (spec_not_found sp))"
    if "not_found (r, w2) = (r', w')" "world_ok w2" "w_objs w2 = w_objs w" "w_fds w2 = w_fds w" for w2
    using refinesD(3)[OF refines_not_found owner_ok_world[OF 3(1) that(2,3,4)] that(1) 3(4) _ 3(6)]
      3(5) body_rel_world[OF that(3,4)] by blast
  show ?case
  proof (cases "fs p")
    case None
    then show ?thesis using 3(2,3) miss[OF _ w] by (simp add: local_file_def spec_file_def)
  next
    case (Some f)
    obtain fd w1 where f: "open_file (f_text f) w = (fd, w1)" by fastforce
    note o = open_file_ok[OF w f]
    show ?thesis
    proof (cases "f_regular f")
      case True
      then have r': "r' = r\<lparr>rs_file_fd := Some fd, rs_file_size := f_size f, rs_body_len := f_size f, rs_source := SrcFile\<rparr>" "w' = w1"
        using 3(2,3) Some f by (auto simp: local_file_def)
      then show ?thesis using 3(4) True Some o(3) by (auto simp: spec_file_def head_rel_def body_rel_def)
    next
      case False
      then show ?thesis using 3(2,3) Some f miss[OF _ o(6,9,8)] by (simp add: local_file_def spec_file_def)
    qed
  qed
qed (auto simp: local_file_def)

lemma refines_cong: "refines f g \<Longrightarrow> (\<And>r w. f' (r, w) = f (r, w)) \<Longrightarrow> (\<And>sp. g' sp = g sp) \<Longrightarrow> refines f' g'"
proof -
  assume f: "refines f g" and e: "\<And>r w. f' (r, w) = f (r, w)" "\<And>sp. g' sp = g sp"
  have "f' = f" "g' = g" using e by auto
  then show ?thesis using f by simp
qed

lemma call_refines:
  assumes "call_small c"
  shows "refines (do_call fs c) (spec_call fs c)"
proof (cases c)
  case (Call_status s)
  then show ?thesis by (auto intro: refines_cong[OF refines_status])
next
  case (Call_header f v)
  then show ?thesis using assms by (auto intro: refines_cong[OF refines_field])
next
  case (Call_header_named n v)
  then show ?thesis using assms by (auto intro: refines_cong[OF refines_named])
next
  case (Call_header_u64 f v)
  then show ?thesis by (auto intro: refines_cong[OF refines_u64])
next
  case (Call_body d)
  then show ?thesis by (auto intro: refines_cong[OF refines_body])
next
  case (Call_body_static d)
  then show ?thesis by (auto intro: refines_cong[OF refines_static])
next
  case (Call_body_owned l n)
  then show ?thesis using refines_owned by simp
next
  case (Call_pin d)
  then show ?thesis by (auto intro: refines_cong[OF refines_pin])
next
  case (Call_text t)
  then show ?thesis by (auto intro!: refines_cong[OF refines_text[of "''text/plain; charset=utf-8''"]] simp: response_text_def)
next
  case (Call_json t)
  then show ?thesis by (auto intro!: refines_cong[OF refines_text[of "''application/json''"]] simp: response_json_def)
next
  case (Call_html t)
  then show ?thesis by (auto intro!: refines_cong[OF refines_text[of "''text/html; charset=utf-8''"]] simp: response_html_def)
next
  case Call_not_found
  then show ?thesis by (auto intro: refines_cong[OF refines_not_found])
next
  case (Call_redirect l s)
  then show ?thesis using assms
    by (auto intro!: refines_cong[OF refines_comp[OF refines_status refines_field[of l Location]]] simp: redirect_def)
next
  case (Call_local_file p)
  then show ?thesis using refines_file by simp
qed

lemma calls_refine:
  assumes "\<forall>c \<in> set cs. call_small c"
  shows "refines (fold (do_call fs) cs) (fold (spec_call fs) cs)"
  using assms
proof (induction cs)
  case Nil
  then show ?case by (auto simp: refines_def call_frame_def)
next
  case (Cons c cs)
  then show ?case using refines_comp[OF call_refines[of c fs] Cons.IH] by (auto intro: refines_cong)
qed

text \<open>The start of a response: everything the last one still owned is released, and nothing else.\<close>

lemma free_obj_live: "w_objs w i \<noteq> None \<Longrightarrow> free_obj i w = w\<lparr>w_objs := (w_objs w)(i := None)\<rparr>"
  by (auto simp: free_obj_def)

lemma arena_clear_live:
  "distinct ids \<Longrightarrow> \<forall>i \<in> set ids. w_objs w i \<noteq> None \<Longrightarrow>
     arena_clear ids w = w\<lparr>w_objs := (\<lambda>i. if i \<in> set ids then None else w_objs w i)\<rparr>"
proof (induction ids arbitrary: w)
  case Nil
  then show ?case by (simp add: arena_clear_def)
next
  case (Cons i ids)
  then have "arena_clear (i # ids) w = arena_clear ids (w\<lparr>w_objs := (w_objs w)(i := None)\<rparr>)"
    by (simp add: arena_clear_def free_obj_live)
  also have "\<dots> = w\<lparr>w_objs := (\<lambda>j. if j \<in> set ids then None else ((w_objs w)(i := None)) j)\<rparr>"
    using Cons.prems by (subst Cons.IH) (auto cong: if_cong)
  also have "(\<lambda>j. if j \<in> set ids then None else ((w_objs w)(i := None)) j) = (\<lambda>j. if j \<in> set (i # ids) then None else w_objs w j)"
    by (auto simp: fun_eq_iff)
  finally show ?case .
qed

lemma release_alt:
  assumes "owner_ok (r, w)"
  shows "lease_drop (rs_owned r) (arena_clear (rs_arena r) w) =
    w\<lparr>w_objs := (\<lambda>i. if i \<in> set (owned_ids r) then None else w_objs w i)\<rparr>"
proof -
  have "lease_drop (rs_owned r) (arena_clear (rs_arena r) w) = arena_clear (owned_ids r) w"
    by (simp add: owned_ids_def arena_clear_def lease_drop_def lease_ids_def split: option.splits)
  then show ?thesis using arena_clear_live[of "owned_ids r" w] assms by (simp add: owner_ok_def)
qed

end
