(* ===== verification/Framing.thy ===== *)
theory Framing
  imports Response
begin

text \<open>
  The writing side of a server connection (\<^verbatim>\<open>src/http/server/connection.cc\<close>,
  \<^verbatim>\<open>include/cornet/http/server/connection.h\<close>, the body writer of
  \<^verbatim>\<open>src/http/server/message.cc\<close>): framing of a response into staging buffers, the batch of
  responses that wait to be written, the gather write of a round with its file bodies, the reset after
  it, and the streamed responses.

  The socket, the files and the pipe are parameters (\<open>os_t\<close>); the date line comes from the clock.  The
  lemmas relate the slots of the batch to the text each stands for (\<open>conn_inv\<close>), and show that every
  exchange adds the text of its response, with the length it announces, and keeps the ownership of the
  memory and the files its body refers to.
\<close>

record os_t =
  os_socket :: kernel
  os_file :: kernel
  os_pipe :: bool
  os_tls :: bool

record server_options =
  so_serve_date_header :: bool
  so_serve_server_header :: bool
  so_date :: string

record pending_t =
  p_head_off :: nat
  p_head_len :: nat
  p_hdr_off :: nat
  p_hdr_len :: nat
  p_source :: body_source_t
  p_body_off :: nat
  p_body_len :: nat
  p_external :: view_t
  p_owned :: "nat option"
  p_pinned :: "nat list"
  p_file_fd :: "nat option"
  p_file_pos :: nat

definition pending0 :: pending_t where
  "pending0 = \<lparr>p_head_off = 0, p_head_len = 0, p_hdr_off = 0, p_hdr_len = 0, p_source = SrcNone,
     p_body_off = 0, p_body_len = 0, p_external = View_text [], p_owned = None, p_pinned = [],
     p_file_fd = None, p_file_pos = 0\<rparr>"

record connection_metrics =
  cm_requests :: nat
  cm_responses :: nat
  cm_pipelined_batches :: nat
  cm_writev_calls :: nat
  cm_writev_partial :: nat
  cm_iov_batch_split :: nat
  cm_spill_used :: nat
  cm_protocol_errors :: nat
  cm_timeouts :: nat
  cm_tls_handshake_errors :: nat

record conn_out =
  co_resp :: response_t
  co_world :: world
  co_head :: out_buffer_t
  co_stream :: out_buffer_t
  co_pending :: "pending_t list"
  co_net :: net
  co_close_after_flush :: bool
  co_closing :: bool
  co_in_body :: bool
  co_streaming_write :: bool
  co_headers_staged :: bool
  co_stream_finished :: bool
  co_metrics :: connection_metrics

abbreviation co_hdr :: "conn_out \<Rightarrow> out_buffer_t" where
  "co_hdr c \<equiv> the (rs_hdr (co_resp c))"

abbreviation co_body_out :: "conn_out \<Rightarrow> out_buffer_t" where
  "co_body_out c \<equiv> the (rs_body_out (co_resp c))"

definition kMaxPending :: nat where "kMaxPending = 64"
definition kMaxPendingIov :: nat where "kMaxPendingIov = 3 * 64"

definition status_forces_close :: "status_t \<Rightarrow> bool" where
  "status_forces_close s \<longleftrightarrow> s \<in> {400, 408, 413, 414, 431, 500, 501, 503, 505}"

definition kHdrServer :: string where "kHdrServer = ''Server: cornet'' @ CRLF"
definition kHdrConnKeepAlive :: string where "kHdrConnKeepAlive = ''Connection: keep-alive'' @ CRLF"
definition kHdrConnClose :: string where "kHdrConnClose = ''Connection: close'' @ CRLF"
definition kHdrServerKeepAlive :: string where
  "kHdrServerKeepAlive = ''Server: cornet'' @ CRLF @ ''Connection: keep-alive'' @ CRLF"
definition kHdrServerClose :: string where
  "kHdrServerClose = ''Server: cornet'' @ CRLF @ ''Connection: close'' @ CRLF"

subsection \<open>Framing\<close>

definition static_lines :: "bool \<Rightarrow> bool \<Rightarrow> bool \<Rightarrow> out_buffer_t \<Rightarrow> out_buffer_t" where
  "static_lines emit_server emit_conn close_after b =
    (if emit_server \<and> emit_conn then put (if close_after then kHdrServerClose else kHdrServerKeepAlive) b
     else if emit_server then put kHdrServer b
     else if emit_conn then put (if close_after then kHdrConnClose else kHdrConnKeepAlive) b
     else b)"

definition length_line :: "response_t \<Rightarrow> out_buffer_t \<Rightarrow> out_buffer_t" where
  "length_line r b =
    (if \<not> rs_saw_content_length r \<and> \<not> rs_saw_transfer_encoding r \<and> rs_source r \<noteq> SrcStreaming \<and>
        \<not> status_forbids_body (rs_status r)
     then header_u64 ContentLength (of_nat (rs_body_len r)) b else b)"

definition chunked_line :: "response_t \<Rightarrow> out_buffer_t \<Rightarrow> out_buffer_t" where
  "chunked_line r b =
    (if rs_source r = SrcStreaming \<and> \<not> rs_saw_transfer_encoding r
     then header_field TransferEncoding ''chunked'' b else b)"

definition frame_head :: "server_options \<Rightarrow> bool \<Rightarrow> conn_out \<Rightarrow> conn_out" where
  "frame_head opt close_after c =
    (let r = seal_headers (co_resp c);
         b = serialize_status_line (rs_status r) (co_head c);
         b = (if so_serve_date_header opt \<and> \<not> rs_saw_date r then date_header (so_date opt) b else b);
         b = static_lines (so_serve_server_header opt) (\<not> rs_saw_connection r) close_after b;
         b = length_line r b;
         b = chunked_line r b in
     c\<lparr>co_resp := r, co_head := b\<rparr>)"

definition count_response :: "conn_out \<Rightarrow> conn_out" where
  "count_response c = c\<lparr>co_metrics := (co_metrics c)\<lparr>cm_responses := cm_responses (co_metrics c) + 1\<rparr>\<rparr>"

text \<open>
  The body of a slot: for a body that leaves, the slot takes over what the response owns.  The length is
  narrowed to 32 bits.
\<close>

definition take_body :: "bool \<Rightarrow> conn_out \<Rightarrow> pending_t \<Rightarrow> pending_t \<times> conn_out" where
  "take_body head_request c p =
    (let r = co_resp c in
     if \<not> status_forbids_body (rs_status r) \<and> \<not> head_request \<and> rs_body_len r > 0 then
       let p = p\<lparr>p_source := rs_source r, p_body_len := rs_body_len r mod 2 ^ 32\<rparr> in
       if rs_source r = SrcInline then (p\<lparr>p_body_off := rs_body_off r\<rparr>, c)
       else if rs_source r = SrcFile then
         (p\<lparr>p_file_fd := rs_file_fd r, p_file_pos := 0\<rparr>, c\<lparr>co_resp := r\<lparr>rs_file_fd := None\<rparr>\<rparr>)
       else (p\<lparr>p_external := rs_external r, p_owned := rs_owned r, p_pinned := rs_arena r\<rparr>,
             c\<lparr>co_resp := r\<lparr>rs_owned := None, rs_arena := []\<rparr>\<rparr>)
     else if rs_file_fd r \<noteq> None then
       (case close_file (r, co_world c) of (r, w) \<Rightarrow> (p, c\<lparr>co_resp := r, co_world := w\<rparr>))
     else (p, c))"

definition frame_response :: "server_options \<Rightarrow> bool \<Rightarrow> bool \<Rightarrow> conn_out \<Rightarrow> conn_out" where
  "frame_response opt head_request close_after c =
    (if rs_source (co_resp c) = SrcStreaming then count_response (c\<lparr>co_streaming_write := True\<rparr>)
     else let off = ob_size (co_head c);
              c = frame_head opt close_after c;
              p = pending0\<lparr>p_head_off := off, p_head_len := ob_size (co_head c) - off,
                    p_hdr_off := rs_hdr_off (co_resp c), p_hdr_len := hdr_length (co_resp c)\<rparr>;
              (p, c) = take_body head_request c p in
       count_response
        (if length (co_pending c) < kMaxPending then c\<lparr>co_pending := co_pending c @ [p]\<rparr>
         else c\<lparr>co_head := fail (http_error OutputOverflow) (co_head c)\<rparr>))"

definition set_response :: "rstate \<Rightarrow> conn_out \<Rightarrow> conn_out" where
  "set_response s c = c\<lparr>co_resp := fst s, co_world := snd s\<rparr>"

definition write_error :: "server_options \<Rightarrow> bool \<Rightarrow> status_t \<Rightarrow> conn_out \<Rightarrow> conn_out" where
  "write_error opt head_request status c =
    (let c = c\<lparr>co_in_body := False\<rparr>;
         (r, w) = response_begin (co_resp c, co_world c);
         r = response_header ContentType ''text/plain; charset=utf-8'' (set_status status r);
         r = response_body_static (reason_phrase status) r;
         c = frame_response opt head_request True (set_response (r, w) c) in
     c\<lparr>co_close_after_flush := True,
       co_metrics := (co_metrics c)\<lparr>cm_protocol_errors := cm_protocol_errors (co_metrics c) + 1\<rparr>\<rparr>)"

definition write_continue :: "conn_out \<Rightarrow> conn_out" where
  "write_continue c =
    (let b = put_crlf (serialize_status_line 100 (co_head c));
         p = pending0\<lparr>p_head_off := ob_size (co_head c), p_head_len := ob_size b - ob_size (co_head c)\<rparr>;
         c = c\<lparr>co_head := b\<rparr> in
     if length (co_pending c) < kMaxPending then c\<lparr>co_pending := co_pending c @ [p]\<rparr> else c)"

subsection \<open>Writing a round\<close>

text \<open>The segments of a slot; reading an object that is gone is a fault.\<close>

definition body_segment :: "conn_out \<Rightarrow> pending_t \<Rightarrow> string option list" where
  "body_segment c p =
    (if p_body_len p = 0 then []
     else case p_source p of
         SrcInline \<Rightarrow> [Some (substr (ob_data (co_body_out c)) (p_body_off p) (p_body_len p))]
       | SrcExternal \<Rightarrow> [map_option (take (p_body_len p)) (view_read (co_world c) (p_external p))]
       | _ \<Rightarrow> [])"

definition head_segments :: "conn_out \<Rightarrow> pending_t \<Rightarrow> string list" where
  "head_segments c p =
    (if p_head_len p > 0 then [substr (ob_data (co_head c)) (p_head_off p) (p_head_len p)] else []) @
    (if p_hdr_len p > 0 then [substr (ob_data (co_hdr c)) (p_hdr_off p) (p_hdr_len p)] else [])"

fun gather :: "conn_out \<Rightarrow> pending_t list \<Rightarrow> string option list \<Rightarrow> string option list \<times> bool" where
  "gather c [] iov = (iov, False)"
| "gather c (p # ps) iov =
    (if length iov + 3 > kMaxPendingIov then (iov, True)
     else gather c ps (iov @ map Some (head_segments c p) @ body_segment c p))"

definition build_iovecs :: "nat \<Rightarrow> nat \<Rightarrow> conn_out \<Rightarrow> string list \<times> conn_out" where
  "build_iovecs i j c =
    (case gather c (take (j - i) (drop i (co_pending c))) [] of (iov, split) \<Rightarrow>
      let c = (if split then c\<lparr>co_metrics := (co_metrics c)\<lparr>cm_iov_batch_split := cm_iov_batch_split (co_metrics c) + 1\<rparr>\<rparr> else c);
          c = (if None \<in> set iov then c\<lparr>co_world := (co_world c)\<lparr>w_fault := True\<rparr>\<rparr> else c) in
      (map (\<lambda>x. case x of None \<Rightarrow> [] | Some s \<Rightarrow> s) iov, c))"

definition conn_writev_span :: "os_t \<Rightarrow> string list \<Rightarrow> conn_out \<Rightarrow> unit expected \<times> conn_out" where
  "conn_writev_span os iov c = (case writev_all (os_socket os) iov (co_net c, writev_stat0) of (r, n, st) \<Rightarrow>
     (r, c\<lparr>co_net := n, co_metrics := (co_metrics c)\<lparr>cm_writev_calls := cm_writev_calls (co_metrics c) + ws_calls st,
       cm_writev_partial := cm_writev_partial (co_metrics c) + ws_partial st\<rparr>\<rparr>))"

text \<open>
  Bytes from a file: the kernel gives at most what was asked for and what the file still has.  The
  calls of a connection share one numbering.
\<close>

definition file_read :: "os_t \<Rightarrow> string \<Rightarrow> nat \<Rightarrow> nat \<Rightarrow> net \<Rightarrow> string expected \<times> net" where
  "file_read os text pos want n = (let n' = n\<lparr>n_calls := n_calls n + 1\<rparr> in
     case os_file os (n_calls n) of
       Inl e \<Rightarrow> (Inl e, n')
     | Inr g \<Rightarrow> (Inr (take (min g want) (drop pos text)), n'))"

text \<open>The inner loop of both paths: write one run until it is out.\<close>

function drain_run :: "os_t \<Rightarrow> string \<Rightarrow> net \<Rightarrow> unit expected \<times> net" where
  "drain_run os s n =
    (if s = [] then (Inr (), n)
     else case kernel_writev (os_socket os) [s] n of
         (Inl e, n) \<Rightarrow> (Inl e, n)
       | (Inr w, n) \<Rightarrow> if w = 0 then (sys_unexpected ECONNRESET, n) else drain_run os (drop w s) n)"
  by pat_completeness auto

termination drain_run
  by (relation "measure (\<lambda>(os, s, n). length s)") (auto simp: kernel_writev_def Let_def split: sum.splits)

declare drain_run.simps [simp del]

abbreviation EIO :: int where "EIO \<equiv> 5"
abbreviation EMFILE :: int where "EMFILE \<equiv> 24"

definition kChunk :: nat where "kChunk = 64 * 1024"

text \<open>The loop over the file; \<open>gone\<close> is the error when the file gives nothing more.\<close>

function send_file :: "os_t \<Rightarrow> int \<Rightarrow> string \<Rightarrow> nat \<Rightarrow> nat \<Rightarrow> net \<Rightarrow> unit expected \<times> net" where
  "send_file os gone text pos len n =
    (if len = 0 then (Inr (), n)
     else case file_read os text pos (min len kChunk) n of
         (Inl e, n) \<Rightarrow> (Inl e, n)
       | (Inr d, n) \<Rightarrow>
           if d = [] then (sys_unexpected gone, n)
           else case drain_run os d n of
               (Inl e, n) \<Rightarrow> (Inl e, n)
             | (Inr _, n) \<Rightarrow> send_file os gone text (pos + length d) (len - length d) n)"
  by pat_completeness auto

termination send_file
  by (relation "measure (\<lambda>(os, gone, text, pos, len, n). len)") (auto simp: file_read_def Let_def split: sum.splits)

declare send_file.simps [simp del]

definition splice_file_to_socket :: "os_t \<Rightarrow> string \<Rightarrow> nat \<Rightarrow> nat \<Rightarrow> net \<Rightarrow> unit expected \<times> net" where
  "splice_file_to_socket os text pos len n =
    (if \<not> os_pipe os then (sys_unexpected EMFILE, n) else send_file os ECONNRESET text pos len n)"

definition stream_file_over_tls :: "os_t \<Rightarrow> string \<Rightarrow> nat \<Rightarrow> nat \<Rightarrow> net \<Rightarrow> unit expected \<times> net" where
  "stream_file_over_tls os text pos len n = send_file os EIO text pos len n"

definition file_text :: "world \<Rightarrow> nat \<Rightarrow> string" where
  "file_text w fd = (case w_fds w fd of None \<Rightarrow> [] | Some t \<Rightarrow> t)"

definition transmit_file :: "os_t \<Rightarrow> string \<Rightarrow> nat \<Rightarrow> nat \<Rightarrow> net \<Rightarrow> unit expected \<times> net" where
  "transmit_file os text pos len n =
    (if os_tls os then stream_file_over_tls os text pos len n else splice_file_to_socket os text pos len n)"

definition send_file_body :: "os_t \<Rightarrow> nat \<Rightarrow> conn_out \<Rightarrow> unit expected \<times> conn_out" where
  "send_file_body os i c =
    (let p = co_pending c ! i;
         fd = the (p_file_fd p);
         (r, n) = transmit_file os (file_text (co_world c) fd) (p_file_pos p) (p_body_len p) (co_net c) in
     (r, c\<lparr>co_net := n, co_world := close_fd fd (co_world c),
           co_pending := (co_pending c)[i := p\<lparr>p_file_fd := None, p_source := SrcNone\<rparr>]\<rparr>))"

text \<open>The position of the next file body from \<open>i\<close> on, or the end of the batch.\<close>

definition next_file :: "nat \<Rightarrow> conn_out \<Rightarrow> nat" where
  "next_file i c = i + length (takeWhile (\<lambda>p. p_source p \<noteq> SrcFile) (drop i (co_pending c)))"

definition flush_buffers :: "os_t \<Rightarrow> nat \<Rightarrow> nat \<Rightarrow> conn_out \<Rightarrow> unit expected \<times> conn_out" where
  "flush_buffers os i j c = (case build_iovecs i j c of (iov, c) \<Rightarrow> conn_writev_span os iov c)"

definition flush_file :: "os_t \<Rightarrow> nat \<Rightarrow> conn_out \<Rightarrow> unit expected \<times> conn_out" where
  "flush_file os i c =
    (let hv = head_segments c (co_pending c ! i);
         (r, c) = (if hv \<noteq> [] then conn_writev_span os hv c else (Inr (), c)) in
     case r of Inl e \<Rightarrow> (Inl e, c) | Inr _ \<Rightarrow> send_file_body os i c)"

lemma conn_writev_span_pending: "conn_writev_span os iov c = (r, c') \<Longrightarrow> co_pending c' = co_pending c"
  by (auto simp: conn_writev_span_def split: prod.splits)

lemma flush_buffers_pending: "flush_buffers os i j c = (r, c') \<Longrightarrow> co_pending c' = co_pending c"
  by (auto simp: flush_buffers_def build_iovecs_def Let_def split: prod.splits if_splits dest!: conn_writev_span_pending)

lemma flush_file_pending: "flush_file os i c = (r, c') \<Longrightarrow> length (co_pending c') = length (co_pending c)"
  by (auto simp: flush_file_def send_file_body_def Let_def split: prod.splits if_splits sum.splits dest!: conn_writev_span_pending)

function flush_slow :: "os_t \<Rightarrow> nat \<Rightarrow> conn_out \<Rightarrow> unit expected \<times> conn_out" where
  "flush_slow os i c =
    (if i < length (co_pending c) then
       let j = next_file i c;
           (r, c1) = (if j > i then flush_buffers os i j c else (Inr (), c)) in
       case r of
         Inl e \<Rightarrow> (Inl e, c1)
       | Inr _ \<Rightarrow>
           if j < length (co_pending c1) then
             (case flush_file os j c1 of
                (Inl e, c2) \<Rightarrow> (Inl e, c2)
              | (Inr _, c2) \<Rightarrow> flush_slow os (j + 1) c2)
           else (Inr (), c1)
     else (Inr (), c))"
  by pat_completeness auto

termination flush_slow
  by (relation "measure (\<lambda>(os, i, c). length (co_pending c) - i)")
    (auto simp: next_file_def split: if_splits dest!: flush_buffers_pending[OF sym] flush_file_pending[OF sym] flush_file_pending)

declare flush_slow.simps [simp del]

definition flush :: "os_t \<Rightarrow> conn_out \<Rightarrow> unit expected \<times> conn_out" where
  "flush os c =
    (if co_pending c = [] then (Inr (), c)
     else if failed (co_head c) then (Inl (ob_err (co_head c)), c)
     else if failed (co_hdr c) then (Inl (ob_err (co_hdr c)), c)
     else if failed (co_body_out c) then (Inl (ob_err (co_body_out c)), c)
     else if next_file 0 c = length (co_pending c) then flush_buffers os 0 (length (co_pending c)) c
     else flush_slow os 0 c)"

definition drop_pending :: "pending_t \<Rightarrow> world \<Rightarrow> world" where
  "drop_pending p w = arena_clear (p_pinned p) (lease_drop (p_owned p) w)"

definition reset_round :: "conn_out \<Rightarrow> conn_out" where
  "reset_round c = c\<lparr>co_world := fold drop_pending (co_pending c) (co_world c), co_pending := [],
     co_head := out_clear (co_head c),
     co_resp := (co_resp c)\<lparr>rs_hdr := map_option out_clear (rs_hdr (co_resp c)),
        rs_body_out := map_option out_clear (rs_body_out (co_resp c))\<rparr>,
     co_stream := out_clear (co_stream c), co_streaming_write := False,
     co_headers_staged := False, co_stream_finished := False\<rparr>"

subsection \<open>Streamed responses\<close>

definition stage_headers :: "server_options \<Rightarrow> conn_out \<Rightarrow> conn_out" where
  "stage_headers opt c = (frame_head opt False c)\<lparr>co_headers_staged := True\<rparr>"

text \<open>
  \<^verbatim>\<open>response_t::chunked\<close>.  Without a connection the code latches an error and then uses the null pointer:
  that is \<open>None\<close>.
\<close>

definition chunked :: "server_options \<Rightarrow> conn_out \<Rightarrow> conn_out option" where
  "chunked opt c =
    (let r = co_resp c;
         r = (if rs_source r \<noteq> SrcNone then response_fail (http_error InvalidState) r else r) in
     if \<not> rs_conn r then None
     else Some (stage_headers opt (c\<lparr>co_resp := r\<lparr>rs_source := SrcStreaming\<rparr>\<rparr>)))"

definition flush_stream :: "os_t \<Rightarrow> conn_out \<Rightarrow> unit expected \<times> conn_out" where
  "flush_stream os c =
    (if failed (co_stream c) then (Inl (ob_err (co_stream c)), c)
     else if ob_size (co_stream c) = 0 then (Inr (), c)
     else let first = co_headers_staged c;
              c = (if first then c\<lparr>co_headers_staged := False\<rparr> else c);
              iov = (if first \<and> ob_size (co_head c) > 0 then [ob_data (co_head c)] else []) @
                (if first \<and> hdr_length (co_resp c) > 0 then [take (hdr_length (co_resp c)) (ob_data (co_hdr c))] else []) @
                [ob_data (co_stream c)] in
       case conn_writev_span os iov c of
         (Inl e, c) \<Rightarrow> (Inl e, c)
       | (Inr _, c) \<Rightarrow> (Inr (), c\<lparr>co_stream := out_clear (co_stream c)\<rparr>))"

definition write_direct :: "os_t \<Rightarrow> string \<Rightarrow> conn_out \<Rightarrow> unit expected \<times> conn_out" where
  "write_direct os d c = (if d = [] then (Inr (), c) else conn_writev_span os [d] c)"

definition body_writer_failed :: "conn_out \<Rightarrow> bool" where
  "body_writer_failed c \<longleftrightarrow> failed (co_head c) \<or> failed (co_hdr c) \<or> failed (co_stream c)"

definition stage_stream :: "(out_buffer_t \<Rightarrow> out_buffer_t) \<Rightarrow> conn_out \<Rightarrow> conn_out" where
  "stage_stream f c = c\<lparr>co_stream := f (co_stream c)\<rparr>"

definition body_writer_write :: "os_t \<Rightarrow> string \<Rightarrow> conn_out \<Rightarrow> unit expected \<times> conn_out" where
  "body_writer_write os d c =
    (if failed (co_head c) \<or> failed (co_hdr c) then (http_unexpected InvalidState, c)
     else let len = length d mod 2 ^ 32 in
     if len = 0 then (Inr (), c)
     else let tmp = write_chunk_size (of_nat len); n = length tmp in
     if (len + n + 2) mod 2 ^ 32 \<le> remaining (co_stream c) then
       flush_stream os (stage_stream (\<lambda>b. put_crlf (put d (put_bytes tmp n b))) c)
     else case flush_stream os (stage_stream (put_bytes tmp n) c) of
         (Inl e, c) \<Rightarrow> (Inl e, c)
       | (Inr _, c) \<Rightarrow> (case write_direct os d c of
           (Inl e, c) \<Rightarrow> (Inl e, c)
         | (Inr _, c) \<Rightarrow> flush_stream os (stage_stream put_crlf c)))"

definition kTerm :: string where "kTerm = ''0'' @ CRLF @ CRLF"

definition body_writer_finish :: "os_t \<Rightarrow> conn_out \<Rightarrow> unit expected \<times> conn_out" where
  "body_writer_finish os c =
    (case flush_stream os (stage_stream (put_bytes kTerm 5) c) of
       (Inl e, c) \<Rightarrow> (Inl e, c)
     | (Inr _, c) \<Rightarrow> (Inr (), c\<lparr>co_stream_finished := True\<rparr>))"

definition needs_streaming_settlement :: "conn_out \<Rightarrow> bool" where
  "needs_streaming_settlement c \<longleftrightarrow> rs_source (co_resp c) = SrcStreaming \<and> \<not> co_stream_finished c"

definition settle_streaming :: "server_options \<Rightarrow> bool \<Rightarrow> conn_out \<Rightarrow> conn_out" where
  "settle_streaming opt head_request c =
    (if co_headers_staged c then
       write_error opt head_request 500 (c\<lparr>co_head := out_clear (co_head c),
         co_resp := (co_resp c)\<lparr>rs_hdr := map_option out_clear (rs_hdr (co_resp c))\<rparr>,
         co_stream := out_clear (co_stream c)\<rparr>)
     else c\<lparr>co_metrics := (co_metrics c)\<lparr>cm_protocol_errors := cm_protocol_errors (co_metrics c) + 1\<rparr>,
            co_closing := True\<rparr>)"

subsection \<open>Answering a request\<close>

text \<open>
  The end of the dispatch of \<^verbatim>\<open>run\<close>, once the handler has returned: a response that failed is replaced
  by a 500, a stream that was left unfinished is settled, and every other response is framed.
\<close>

definition finish_exchange :: "server_options \<Rightarrow> bool \<Rightarrow> bool \<Rightarrow> conn_out \<Rightarrow> conn_out" where
  "finish_exchange opt head_request keep_alive c =
    (if response_failed (co_resp c) then write_error opt head_request 500 c
     else let close_after = (\<not> keep_alive \<or> co_closing c \<or> status_forces_close (rs_status (co_resp c))) in
     if needs_streaming_settlement c then (settle_streaming opt head_request c)\<lparr>co_close_after_flush := True\<rparr>
     else let c = frame_response opt head_request close_after c in
       if close_after then c\<lparr>co_close_after_flush := True\<rparr> else c)"

text \<open>A whole exchange whose handler makes the calls \<open>cs\<close> on the response.\<close>

definition begin_exchange :: "conn_out \<Rightarrow> conn_out" where
  "begin_exchange c = set_response (response_begin (co_resp c, co_world c)) c"

definition handler_calls :: "file_system \<Rightarrow> resp_call list \<Rightarrow> conn_out \<Rightarrow> conn_out" where
  "handler_calls fs cs c = set_response (fold (do_call fs) cs (co_resp c, co_world c)) c"

record exchange =
  x_head :: bool
  x_keep_alive :: bool
  x_calls :: "resp_call list"

definition serve :: "server_options \<Rightarrow> file_system \<Rightarrow> exchange \<Rightarrow> conn_out \<Rightarrow> conn_out" where
  "serve opt fs x c = finish_exchange opt (x_head x) (x_keep_alive x) (handler_calls fs (x_calls x) (begin_exchange c))"

subsection \<open>What a response looks like on the wire\<close>

definition date_part :: "server_options \<Rightarrow> rspec \<Rightarrow> string" where
  "date_part opt sp = (if so_serve_date_header opt \<and> \<not> sp_date sp \<and> so_date opt \<noteq> []
     then prefix_text Date @ so_date opt @ CRLF else [])"

definition server_part :: "server_options \<Rightarrow> string" where
  "server_part opt = (if so_serve_server_header opt then ''Server: cornet'' @ CRLF else [])"

definition connection_part :: "bool \<Rightarrow> rspec \<Rightarrow> string" where
  "connection_part close_after sp = (if sp_connection sp then []
     else ''Connection: '' @ (if close_after then ''close'' else ''keep-alive'') @ CRLF)"

definition body_size :: "rspec \<Rightarrow> nat" where
  "body_size sp = (case sp_body sp of No_body \<Rightarrow> 0 | Bytes d \<Rightarrow> length d | File_body t n \<Rightarrow> n)"

definition length_part :: "rspec \<Rightarrow> string" where
  "length_part sp = (if sp_content_length sp \<or> sp_transfer_encoding sp \<or> status_forbids_body (sp_status sp) then []
     else prefix_text ContentLength @ dec_digits (body_size sp) @ CRLF)"

definition head_bytes :: "server_options \<Rightarrow> bool \<Rightarrow> rspec \<Rightarrow> string" where
  "head_bytes opt close_after sp = status_text (sp_status sp) @ date_part opt sp @ server_part opt @
     connection_part close_after sp @ length_part sp"

definition body_bytes :: "bool \<Rightarrow> rspec \<Rightarrow> string" where
  "body_bytes head_request sp = (if status_forbids_body (sp_status sp) \<or> head_request then []
     else case sp_body sp of No_body \<Rightarrow> [] | Bytes d \<Rightarrow> d | File_body t n \<Rightarrow> take n t)"

definition response_bytes :: "server_options \<Rightarrow> bool \<Rightarrow> bool \<Rightarrow> rspec \<Rightarrow> string" where
  "response_bytes opt head_request close_after sp =
     head_bytes opt close_after sp @ (sp_lines sp @ CRLF) @ body_bytes head_request sp"

subsection \<open>The slots of a round\<close>

definition pending_ids :: "pending_t \<Rightarrow> nat list" where
  "pending_ids p = p_pinned p @ lease_ids (p_owned p)"

fun source_slot :: "body_source_t \<Rightarrow> string \<Rightarrow> world \<Rightarrow> pending_t \<Rightarrow> string \<Rightarrow> bool" where
  "source_slot SrcInline bd w p d \<longleftrightarrow> p_body_off p + p_body_len p \<le> length bd \<and>
     substr bd (p_body_off p) (p_body_len p) = d \<and> p_file_fd p = None"
| "source_slot SrcExternal bd w p d \<longleftrightarrow> map_option (take (p_body_len p)) (view_read w (p_external p)) = Some d \<and>
     (\<forall>i n. p_external p = View_obj i n \<longrightarrow> i \<in> set (pending_ids p)) \<and> p_file_fd p = None"
| "source_slot SrcFile bd w p d \<longleftrightarrow> (\<exists>fd t. p_file_fd p = Some fd \<and> w_fds w fd = Some t \<and>
     d = take (p_body_len p) t \<and> p_file_pos p = 0)"
| "source_slot _ bd w p d \<longleftrightarrow> False"

definition body_slot :: "string \<Rightarrow> world \<Rightarrow> pending_t \<Rightarrow> string \<Rightarrow> bool" where
  "body_slot bd w p d \<longleftrightarrow> p_body_len p = 0 \<and> d = [] \<and> p_source p = SrcNone \<and> p_file_fd p = None \<or>
     p_body_len p > 0 \<and> source_slot (p_source p) bd w p d"

definition slot_rel :: "string \<Rightarrow> string \<Rightarrow> string \<Rightarrow> world \<Rightarrow> pending_t \<Rightarrow> string \<Rightarrow> bool" where
  "slot_rel hb hr bd w p t \<longleftrightarrow> (\<exists>d. t = substr hb (p_head_off p) (p_head_len p) @ substr hr (p_hdr_off p) (p_hdr_len p) @ d \<and>
     p_head_off p + p_head_len p \<le> length hb \<and> p_hdr_off p + p_hdr_len p \<le> length hr \<and> body_slot bd w p d)"

definition same_for :: "pending_t \<Rightarrow> world \<Rightarrow> world \<Rightarrow> bool" where
  "same_for p w w' \<longleftrightarrow> (\<forall>i \<in> set (pending_ids p). w_objs w' i = w_objs w i) \<and>
     (\<forall>fd. p_file_fd p = Some fd \<longrightarrow> w_fds w' fd = w_fds w fd)"

lemma substr_append: "off + len \<le> length s \<Longrightarrow> substr (s @ u) off len = substr s off len"
  by (simp add: substr_def)

lemma body_slot_mono:
  assumes "body_slot bd w p d" "same_for p w w'"
  shows "body_slot (bd @ u) w' p d"
proof -
  have v: "view_read w' (p_external p) = view_read w (p_external p)"
    if "\<forall>i n. p_external p = View_obj i n \<longrightarrow> i \<in> set (pending_ids p)"
    using that assms(2) by (cases "p_external p") (auto simp: same_for_def)
  have "source_slot (p_source p) bd w p d \<Longrightarrow> source_slot (p_source p) (bd @ u) w' p d"
    using assms(2) v by (cases "p_source p") (auto simp: same_for_def substr_append)
  then show ?thesis using assms(1) by (auto simp: body_slot_def)
qed

lemma slot_rel_mono:
  assumes "slot_rel hb hr bd w p t" "same_for p w w'"
  shows "slot_rel (hb @ u) (hr @ v) (bd @ x) w' p t"
  using assms(1) body_slot_mono[OF _ assms(2)] by (auto simp: slot_rel_def substr_append)

definition slot_fds :: "pending_t \<Rightarrow> nat list" where
  "slot_fds p = lease_ids (p_file_fd p)"

definition batch_ids :: "pending_t list \<Rightarrow> nat list" where
  "batch_ids ps = concat (map pending_ids ps)"

definition batch_fds :: "pending_t list \<Rightarrow> nat list" where
  "batch_fds ps = concat (map slot_fds ps)"

definition conn_inv :: "conn_out \<Rightarrow> string list \<Rightarrow> bool" where
  "conn_inv c ts \<longleftrightarrow> owner_ok (co_resp c, co_world c) \<and> rs_hdr (co_resp c) \<noteq> None \<and> rs_body_out (co_resp c) \<noteq> None \<and>
     list_all2 (slot_rel (ob_data (co_head c)) (ob_data (co_hdr c)) (ob_data (co_body_out c)) (co_world c)) (co_pending c) ts \<and>
     distinct (batch_ids (co_pending c) @ owned_ids (co_resp c)) \<and>
     distinct (batch_fds (co_pending c) @ lease_ids (rs_file_fd (co_resp c))) \<and>
     (\<forall>i \<in> set (batch_ids (co_pending c)). w_objs (co_world c) i \<noteq> None)"

lemma conn_invD:
  assumes "conn_inv c ts"
  shows "owner_ok (co_resp c, co_world c)" "rs_hdr (co_resp c) \<noteq> None" "rs_body_out (co_resp c) \<noteq> None"
    "list_all2 (slot_rel (ob_data (co_head c)) (ob_data (co_hdr c)) (ob_data (co_body_out c)) (co_world c)) (co_pending c) ts"
    "distinct (batch_ids (co_pending c) @ owned_ids (co_resp c))"
    "distinct (batch_fds (co_pending c) @ lease_ids (rs_file_fd (co_resp c)))"
    "\<forall>i \<in> set (batch_ids (co_pending c)). w_objs (co_world c) i \<noteq> None"
  using assms unfolding conn_inv_def by blast+

lemma world_ok_live:
  assumes "world_ok w"
  shows "w_objs w i \<noteq> None \<Longrightarrow> i < w_next w" "w_fds w fd \<noteq> None \<Longrightarrow> fd < w_next_fd w"
  using assms unfolding world_ok_def by (meson not_le_imp_less)+

lemma conn_inv_live:
  assumes "conn_inv c ts" "p \<in> set (co_pending c)"
  shows "i \<in> set (pending_ids p) \<Longrightarrow> i < w_next (co_world c)" "p_file_fd p = Some fd \<Longrightarrow> fd < w_next_fd (co_world c)"
proof -
  have w: "world_ok (co_world c)" using conn_invD(1)[OF assms(1)] by (simp add: owner_ok_def)
  show "i < w_next (co_world c)" if "i \<in> set (pending_ids p)"
    using that assms(2) conn_invD(7)[OF assms(1)] by (intro world_ok_live(1)[OF w]) (auto simp: batch_ids_def)
  show "fd < w_next_fd (co_world c)" if "p_file_fd p = Some fd"
  proof -
    obtain k where k: "k < length (co_pending c)" "p = co_pending c ! k" using assms(2) by (auto simp: in_set_conv_nth)
    then have "slot_rel (ob_data (co_head c)) (ob_data (co_hdr c)) (ob_data (co_body_out c)) (co_world c) p (ts ! k)"
      using conn_invD(4)[OF assms(1)] by (auto simp: list_all2_conv_all_nth)
    then have "w_fds (co_world c) fd \<noteq> None"
      using that by (cases "p_source p") (auto simp: slot_rel_def body_slot_def)
    then show ?thesis by (rule world_ok_live(2)[OF w])
  qed
qed

lemma conn_inv_step:
  assumes i: "conn_inv c ts" and o: "owner_ok (r', w')"
    and g: "grows (rs_hdr (co_resp c)) (rs_hdr r')" "grows (rs_body_out (co_resp c)) (rs_body_out r')"
    and h: "ob_data h' = ob_data (co_head c) @ u"
    and s: "\<And>p. p \<in> set (co_pending c) \<Longrightarrow> same_for p (co_world c) w'"
    and d: "set (owned_ids r') \<inter> set (batch_ids (co_pending c)) = {}"
      "\<And>fd. rs_file_fd r' = Some fd \<Longrightarrow> fd \<notin> set (batch_fds (co_pending c))"
    and c': "co_resp c' = r'" "co_world c' = w'" "co_head c' = h'" "co_pending c' = co_pending c"
  shows "conn_inv c' ts"
proof -
  note I = conn_invD[OF i]
  obtain b b' x where b: "rs_hdr (co_resp c) = Some b" "rs_hdr r' = Some b'" "ob_data b' = ob_data b @ x"
    using I(2) g(1) by (auto simp: grows_def)
  obtain e e' y where e: "rs_body_out (co_resp c) = Some e" "rs_body_out r' = Some e'" "ob_data e' = ob_data e @ y"
    using I(3) g(2) by (auto simp: grows_def)
  have "list_all2 (slot_rel (ob_data h') (ob_data b') (ob_data e') w') (co_pending c) ts"
    using I(4) s slot_rel_mono unfolding h b(3) e(3)
    by (auto simp: list_all2_conv_all_nth b(1) e(1))
  moreover have "w_objs w' j \<noteq> None" if "j \<in> set (batch_ids (co_pending c))" for j
    using that I(7) s by (auto simp: batch_ids_def same_for_def)
  moreover have "distinct (owned_ids r')" using o by (simp add: owner_ok_def)
  moreover have "distinct (batch_fds (co_pending c) @ lease_ids (rs_file_fd r'))"
    using I(6) d(2) by (auto simp: lease_ids_def split: option.splits)
  ultimately show ?thesis unfolding conn_inv_def c' using o I(5) d(1) b e by auto
qed

lemma begin_facts:
  assumes "owner_ok (r, w)" "response_begin (r, w) = (r', w')"
  shows "owner_ok (r', w')" "owned_ids r' = []" "rs_file_fd r' = None" "rs_hdr r' = rs_hdr r"
    "rs_body_out r' = rs_body_out r" "\<not> error_truthy (rs_err r')" "rs_conn r' = rs_conn r"
    "w_objs w' = (\<lambda>i. if i \<in> set (owned_ids r) then None else w_objs w i)"
    "w_fds w' = (\<lambda>fd. if rs_file_fd r = Some fd then None else w_fds w fd)"
    "rs_hdr r = Some h \<Longrightarrow> rs_body_out r \<noteq> None \<Longrightarrow> head_rel (ob_data h) r' spec_begin" "body_rel r' w' No_body"
proof -
  let ?w = "w\<lparr>w_objs := (\<lambda>i. if i \<in> set (owned_ids r) then None else w_objs w i)\<rparr>"
  have cl: "(case rs_file_fd r of None \<Rightarrow> ?w | Some fd \<Rightarrow> close_fd fd ?w) =
      ?w\<lparr>w_fds := (\<lambda>fd. if rs_file_fd r = Some fd then None else w_fds w fd)\<rparr>"
  proof (cases "rs_file_fd r")
    case (Some a)
    have "w_fds w a \<noteq> None" using assms(1) Some by (simp add: owner_ok_def)
    moreover have "(w_fds w)(a := None) = (\<lambda>fd. if a = fd then None else w_fds w fd)" by auto
    ultimately show ?thesis using Some by (auto simp: close_fd_def)
  qed (simp cong: if_cong)
  have w': "w' = ?w\<lparr>w_fds := (\<lambda>fd. if rs_file_fd r = Some fd then None else w_fds w fd)\<rparr>"
  proof -
    have "w' = (case rs_file_fd r of None \<Rightarrow> lease_drop (rs_owned r) (arena_clear (rs_arena r) w)
        | Some fd \<Rightarrow> close_fd fd (lease_drop (rs_owned r) (arena_clear (rs_arena r) w)))"
      using assms(2) by (simp add: response_begin_def release_owned_def close_file_def)
    then show ?thesis unfolding release_alt[OF assms(1)] cl .
  qed
  show "w_objs w' = (\<lambda>i. if i \<in> set (owned_ids r) then None else w_objs w i)"
    "w_fds w' = (\<lambda>fd. if rs_file_fd r = Some fd then None else w_fds w fd)" by (simp_all add: w')
  have r': "rs_arena r' = []" "rs_owned r' = None" "rs_file_fd r' = None" "rs_hdr r' = rs_hdr r" "rs_body_out r' = rs_body_out r"
    "rs_err r' = no_error" "rs_conn r' = rs_conn r" "rs_source r' = SrcNone" "rs_body_len r' = 0" "rs_status r' = 200"
    "rs_hdr_off r' = bound_size (rs_hdr r)" "rs_hdr_end r' = bound_size (rs_hdr r)" "\<not> rs_saw_content_length r'"
    "\<not> rs_saw_connection r'" "\<not> rs_saw_date r'" "\<not> rs_saw_transfer_encoding r'"
    using assms(2) by (auto simp: response_begin_def release_owned_def close_file_def)
  have "world_ok w'" using assms(1) by (simp add: w' owner_ok_def world_ok_def)
  then show "owner_ok (r', w')" using assms(1) r' by (simp add: owner_ok_def owned_ids_def lease_ids_def)
  show "owned_ids r' = []" "rs_file_fd r' = None" "rs_hdr r' = rs_hdr r" "rs_body_out r' = rs_body_out r"
    "\<not> error_truthy (rs_err r')" "rs_conn r' = rs_conn r" "body_rel r' w' No_body"
    using r' by (simp_all add: owned_ids_def lease_ids_def body_rel_def)
  show "rs_hdr r = Some h \<Longrightarrow> rs_body_out r \<noteq> None \<Longrightarrow> head_rel (ob_data h) r' spec_begin"
    using r' by (simp add: head_rel_def spec_begin_def bound_size_def ob_size_def)
qed

lemma begin_exchange_inv:
  assumes "conn_inv c ts"
  shows "conn_inv (begin_exchange c) ts"
proof -
  obtain r' w' where e: "response_begin (co_resp c, co_world c) = (r', w')" by fastforce
  note I = conn_invD[OF assms] and B = begin_facts[OF conn_invD(1)[OF assms] e]
  have s: "same_for p (co_world c) w'" if "p \<in> set (co_pending c)" for p
  proof -
    have "set (pending_ids p) \<subseteq> set (batch_ids (co_pending c))" "set (slot_fds p) \<subseteq> set (batch_fds (co_pending c))"
      using that by (auto simp: batch_ids_def batch_fds_def)
    then show ?thesis using I(5,6) unfolding same_for_def B(8,9)
      by (auto simp: slot_fds_def lease_ids_def)
  qed
  show ?thesis
    by (rule conn_inv_step[OF assms B(1), where h' = "co_head c" and u = "[]"])
      (use B s e in \<open>auto simp: begin_exchange_def set_response_def\<close>)
qed

lemma conn_inv_batch:
  assumes "conn_inv c ts"
  shows "i \<in> set (batch_ids (co_pending c)) \<Longrightarrow> i < w_next (co_world c)"
    "fd \<in> set (batch_fds (co_pending c)) \<Longrightarrow> fd < w_next_fd (co_world c)"
  using conn_inv_live[OF assms]
  by (auto simp: batch_ids_def batch_fds_def slot_fds_def lease_ids_def split: option.splits dest: sym)

lemma handler_calls_inv:
  assumes "conn_inv c ts" "\<forall>x \<in> set cs. call_small x"
  shows "conn_inv (handler_calls fs cs c) ts"
proof -
  obtain r' w' where e: "fold (do_call fs) cs (co_resp c, co_world c) = (r', w')" by fastforce
  note I = conn_invD[OF assms(1)] and R = refinesD[OF calls_refine[OF assms(2)] conn_invD(1)[OF assms(1)] e]
  note F = call_frameD[OF R(2)]
  note L = conn_inv_live[OF assms(1)]
  have s: "same_for p (co_world c) w'" if "p \<in> set (co_pending c)" for p
    using F(1) L[OF that] by (auto simp: same_for_def world_extends_def)
  have "set (owned_ids r') \<inter> set (batch_ids (co_pending c)) = {}"
    using F(2) I(5) conn_inv_batch(1)[OF assms(1)] by (fastforce simp: disjoint_iff)
  moreover have "fd \<notin> set (batch_fds (co_pending c))" if "rs_file_fd r' = Some fd" for fd
    using F(3)[OF that] I(6) conn_inv_batch(2)[OF assms(1), of fd] by (auto simp: lease_ids_def)
  ultimately show ?thesis
    by (intro conn_inv_step[OF assms(1) R(1), where h' = "co_head c" and u = "[]"])
      (use F s e in \<open>auto simp: handler_calls_def set_response_def\<close>)
qed

subsection \<open>Framing appends one response\<close>

lemma appends_static:
  "appends (static_lines s cn cl) ((if s then ''Server: cornet'' @ CRLF else []) @
     (if cn then ''Connection: '' @ (if cl then ''close'' else ''keep-alive'') @ CRLF else []))"
proof -
  have p: "appends (put t) t" if "t \<in> {kHdrServer, kHdrConnKeepAlive, kHdrConnClose, kHdrServerKeepAlive, kHdrServerClose}" for t
    using that by (intro appends_put) (auto simp: kHdrServer_def kHdrConnKeepAlive_def kHdrConnClose_def kHdrServerKeepAlive_def kHdrServerClose_def)
  show ?thesis
    using p[of kHdrServer] p[of kHdrConnKeepAlive] p[of kHdrConnClose] p[of kHdrServerKeepAlive] p[of kHdrServerClose] appends_id
    by (cases s; cases cn; cases cl) (simp_all add: static_lines_def[abs_def] kHdrServer_def kHdrConnKeepAlive_def
        kHdrConnClose_def kHdrServerKeepAlive_def kHdrServerClose_def)
qed

lemma body_rel_size: "body_rel r w (sp_body sp) \<Longrightarrow> rs_body_len r = body_size sp \<and> rs_source r \<noteq> SrcStreaming"
  by (auto simp: body_rel_def body_size_def split: spec_body.splits body_source_t.splits)

definition head_writer :: "server_options \<Rightarrow> bool \<Rightarrow> response_t \<Rightarrow> out_buffer_t \<Rightarrow> out_buffer_t" where
  "head_writer opt cl r b = chunked_line r (length_line r (static_lines (so_serve_server_header opt) (\<not> rs_saw_connection r) cl
     (if so_serve_date_header opt \<and> \<not> rs_saw_date r then date_header (so_date opt) (serialize_status_line (rs_status r) b)
      else serialize_status_line (rs_status r) b)))"

lemma frame_head_alt:
  "frame_head opt cl c = c\<lparr>co_resp := seal_headers (co_resp c), co_head := head_writer opt cl (seal_headers (co_resp c)) (co_head c)\<rparr>"
  by (simp add: frame_head_def head_writer_def Let_def)

definition common_writer :: "server_options \<Rightarrow> bool \<Rightarrow> rspec \<Rightarrow> out_buffer_t \<Rightarrow> out_buffer_t" where
  "common_writer opt cl sp b = static_lines (so_serve_server_header opt) (\<not> sp_connection sp) cl
     (if so_serve_date_header opt \<and> \<not> sp_date sp then date_header (so_date opt) (serialize_status_line (sp_status sp) b)
      else serialize_status_line (sp_status sp) b)"

lemma appends_common:
  "appends (common_writer opt cl sp) (status_text (sp_status sp) @ date_part opt sp @ server_part opt @ connection_part cl sp)"
proof -
  let ?date = "\<lambda>b. if so_serve_date_header opt \<and> \<not> sp_date sp then date_header (so_date opt) b else b"
  have d: "appends ?date (date_part opt sp)"
    using appends_date[of "so_date opt"] appends_id 
    by (cases "so_serve_date_header opt"; cases "sp_date sp"; cases "so_date opt = []") (simp_all add: date_part_def)
  have st: "appends (static_lines (so_serve_server_header opt) (\<not> sp_connection sp) cl) (server_part opt @ connection_part cl sp)"
    using appends_static[of "so_serve_server_header opt" "\<not> sp_connection sp" cl]
    by (cases "sp_connection sp") (simp_all add: server_part_def connection_part_def)
  show ?thesis using appends_comp[OF appends_comp[OF appends_status[of "sp_status sp"] d] st]
    by (simp only: common_writer_def[abs_def] append_assoc)
qed

lemma head_writer_common: "head_rel h0 r sp \<Longrightarrow> head_writer opt cl r b = chunked_line r (length_line r (common_writer opt cl sp b))"
  by (simp only: head_writer_def common_writer_def head_rel_def)

lemma appends_head:
  assumes "head_rel h0 r sp" "rs_body_len r = body_size sp" "rs_source r \<noteq> SrcStreaming" "body_size sp < 2 ^ 32"
  shows "appends (head_writer opt cl r) (head_bytes opt cl sp)"
proof -
  have f: "rs_status r = sp_status sp" "rs_saw_content_length r = sp_content_length sp"
    "rs_saw_transfer_encoding r = sp_transfer_encoding sp"
    using assms(1) by (simp_all add: head_rel_def)
  have u: "unat (of_nat (body_size sp) :: uint64) = body_size sp" using assms(4) by (intro unat_of_nat_small) simp
  have l: "appends (length_line r) (length_part sp)"
    using appends_header_u64[of ContentLength "of_nat (body_size sp)"] appends_id assms(2,3) f u
    by (auto simp: length_line_def[abs_def] length_part_def)
  have k: "head_writer opt cl r = (\<lambda>b. length_line r (common_writer opt cl sp b))"
    using assms(3) head_writer_common[OF assms(1)] by (simp add: chunked_line_def fun_eq_iff)
  show ?thesis unfolding k using appends_comp[OF appends_common l] by (simp only: head_bytes_def append_assoc)
qed

definition stream_head :: "server_options \<Rightarrow> bool \<Rightarrow> rspec \<Rightarrow> string" where
  "stream_head opt cl sp = status_text (sp_status sp) @ date_part opt sp @ server_part opt @ connection_part cl sp @
     (if sp_transfer_encoding sp then [] else prefix_text TransferEncoding @ ''chunked'' @ CRLF)"

lemma appends_stream_head:
  assumes "head_rel h0 r sp" "rs_source r = SrcStreaming"
  shows "appends (head_writer opt cl r) (stream_head opt cl sp)"
proof -
  have "appends (chunked_line r) (if sp_transfer_encoding sp then [] else prefix_text TransferEncoding @ ''chunked'' @ CRLF)"
    using assms appends_field[of "''chunked''" TransferEncoding] appends_id
    by (simp add: chunked_line_def[abs_def] head_rel_def)
  moreover have "head_writer opt cl r = (\<lambda>b. chunked_line r (common_writer opt cl sp b))"
    using assms(2) head_writer_common[OF assms(1)] by (simp add: length_line_def fun_eq_iff)
  ultimately show ?thesis using appends_comp[OF appends_common] by (simp only: stream_head_def append_assoc)
qed

lemma seal_fields [simp]:
  "rs_status (seal_headers r) = rs_status r" "rs_source (seal_headers r) = rs_source r"
  "rs_body_out (seal_headers r) = rs_body_out r" "rs_body_off (seal_headers r) = rs_body_off r"
  "rs_body_len (seal_headers r) = rs_body_len r" "rs_external (seal_headers r) = rs_external r"
  "rs_owned (seal_headers r) = rs_owned r" "rs_file_fd (seal_headers r) = rs_file_fd r"
  "rs_arena (seal_headers r) = rs_arena r" "rs_hdr_off (seal_headers r) = rs_hdr_off r"
  "rs_saw_connection (seal_headers r) = rs_saw_connection r" "rs_saw_date (seal_headers r) = rs_saw_date r"
  "rs_saw_content_length (seal_headers r) = rs_saw_content_length r" "rs_err (seal_headers r) = rs_err r"
  "rs_saw_transfer_encoding (seal_headers r) = rs_saw_transfer_encoding r" "rs_conn (seal_headers r) = rs_conn r"
  by (simp_all add: seal_headers_def split: option.splits)

lemma seal_rel:
  assumes "head_rel h0 r sp" "\<not> failed (the (rs_hdr (seal_headers r)))"
  shows "ob_data (the (rs_hdr (seal_headers r))) = h0 @ sp_lines sp @ CRLF" "hdr_length (seal_headers r) = length (sp_lines sp @ CRLF)"
    "rs_hdr_off (seal_headers r) = length h0" "head_rel h0 (seal_headers r) (sp\<lparr>sp_lines := sp_lines sp @ CRLF\<rparr>)"
proof -
  obtain h where h: "rs_hdr r = Some h" "ob_data h = h0 @ sp_lines sp" using assms(1) by (auto simp: head_rel_def)
  have d: "ob_data (put_crlf h) = h0 @ sp_lines sp @ CRLF"
    using appendsD(2)[OF appends_crlf] assms(2) h by (simp add: seal_headers_def)
  show "ob_data (the (rs_hdr (seal_headers r))) = h0 @ sp_lines sp @ CRLF" "rs_hdr_off (seal_headers r) = length h0"
    "hdr_length (seal_headers r) = length (sp_lines sp @ CRLF)"
    using assms(1) h d by (simp_all add: seal_headers_def hdr_length_def ob_size_def head_rel_def)
  show "head_rel h0 (seal_headers r) (sp\<lparr>sp_lines := sp_lines sp @ CRLF\<rparr>)"
    using assms(1) h d by (simp add: seal_headers_def ob_size_def head_rel_def)
qed

lemma seal_owner: "owner_ok (r, w) \<Longrightarrow> owner_ok (seal_headers r, w)"
  by (simp add: owner_ok_def owned_ids_def)

lemma seal_grows: "grows (rs_hdr r) (rs_hdr (seal_headers r))"
  using grows_emit[OF appends_crlf] by (cases "rs_hdr r") (simp_all add: seal_headers_def)

text \<open>What taking over the body of a response gives: the slot has the bytes that leave, and what it owns is no longer the response's.\<close>

definition body_taken :: "string \<Rightarrow> conn_out \<Rightarrow> pending_t \<Rightarrow> pending_t \<Rightarrow> conn_out \<Rightarrow> bool" where
  "body_taken d c p p' c' \<longleftrightarrow> body_slot (ob_data (co_body_out c)) (co_world c') p' d \<and>
    p_head_off p' = p_head_off p \<and> p_head_len p' = p_head_len p \<and> p_hdr_off p' = p_hdr_off p \<and> p_hdr_len p' = p_hdr_len p \<and>
    co_head c' = co_head c \<and> co_pending c' = co_pending c \<and> rs_hdr (co_resp c') = rs_hdr (co_resp c) \<and>
    rs_body_out (co_resp c') = rs_body_out (co_resp c) \<and> owner_ok (co_resp c', co_world c') \<and>
    w_objs (co_world c') = w_objs (co_world c) \<and> set (owned_ids (co_resp c')) \<subseteq> set (owned_ids (co_resp c)) \<and>
    set (pending_ids p') \<subseteq> set (owned_ids (co_resp c)) \<and> distinct (pending_ids p' @ owned_ids (co_resp c')) \<and>
    w_fds (co_world c') = (\<lambda>fd. if rs_file_fd (co_resp c) = Some fd \<and> p_file_fd p' = None then None else w_fds (co_world c) fd) \<and>
    (p_file_fd p' = None \<or> p_file_fd p' = rs_file_fd (co_resp c)) \<and> rs_file_fd (co_resp c') = None"

definition empty_slot :: "pending_t \<Rightarrow> bool" where
  "empty_slot p \<longleftrightarrow> p_source p = SrcNone \<and> p_body_len p = 0 \<and> p_file_fd p = None \<and> p_owned p = None \<and> p_pinned p = [] \<and> p_file_pos p = 0"

lemma take_inline:
  assumes "owner_ok (co_resp c, co_world c)" "body_rel (co_resp c) (co_world c) (sp_body sp)" "empty_slot p"
    "body_size sp > 0" "rs_source (co_resp c) = SrcInline" "body_bytes False sp = d" "\<not> status_forbids_body (sp_status sp)"
  shows "body_taken d c p (p\<lparr>p_source := SrcInline, p_body_len := body_size sp, p_body_off := rs_body_off (co_resp c)\<rparr>) c"
proof -
  have "rs_file_fd (co_resp c) = None" using assms(2,5) by (auto simp: body_rel_def split: spec_body.splits)
  then show ?thesis using assms
    by (auto simp: body_taken_def empty_slot_def body_slot_def body_rel_def body_size_def body_bytes_def pending_ids_def
        lease_ids_def substr_def owner_ok_def split: spec_body.splits)
qed

lemma take_external:
  assumes "owner_ok (co_resp c, co_world c)" "body_rel (co_resp c) (co_world c) (sp_body sp)" "empty_slot p"
    "body_size sp > 0" "rs_source (co_resp c) = SrcExternal" "body_bytes False sp = d" "\<not> status_forbids_body (sp_status sp)"
  shows "body_taken d c p (p\<lparr>p_source := SrcExternal, p_body_len := body_size sp, p_external := rs_external (co_resp c),
      p_owned := rs_owned (co_resp c), p_pinned := rs_arena (co_resp c)\<rparr>)
    (c\<lparr>co_resp := (co_resp c)\<lparr>rs_owned := None, rs_arena := []\<rparr>\<rparr>)" (is "body_taken d c p ?p ?c")
proof -
  have fd: "rs_file_fd (co_resp c) = None" using assms(2,5) by (auto simp: body_rel_def split: spec_body.splits)
  have "owner_ok (co_resp ?c, co_world ?c)" using assms(1,5) by (simp add: owner_ok_def owned_ids_def lease_ids_def)
  moreover have "body_slot (ob_data (co_body_out c)) (co_world ?c) ?p d"
    using assms fd by (auto simp: empty_slot_def body_slot_def body_rel_def body_size_def body_bytes_def pending_ids_def
        owned_ids_def split: spec_body.splits)
  ultimately show ?thesis using assms(1,3) fd
    by (auto simp: body_taken_def empty_slot_def pending_ids_def owned_ids_def lease_ids_def owner_ok_def)
qed

lemma take_file:
  assumes "owner_ok (co_resp c, co_world c)" "body_rel (co_resp c) (co_world c) (sp_body sp)" "empty_slot p"
    "body_size sp > 0" "rs_source (co_resp c) = SrcFile" "body_bytes False sp = d" "\<not> status_forbids_body (sp_status sp)"
  shows "body_taken d c p (p\<lparr>p_source := SrcFile, p_body_len := body_size sp, p_file_fd := rs_file_fd (co_resp c), p_file_pos := 0\<rparr>)
    (c\<lparr>co_resp := (co_resp c)\<lparr>rs_file_fd := None\<rparr>\<rparr>)"
proof -
  obtain fd where "rs_file_fd (co_resp c) = Some fd" using assms(2,5) by (auto simp: body_rel_def split: spec_body.splits)
  then show ?thesis using assms
    by (auto simp: body_taken_def empty_slot_def body_slot_def body_rel_def body_size_def body_bytes_def pending_ids_def
        owned_ids_def lease_ids_def owner_ok_def split: spec_body.splits)
qed

lemma take_nothing:
  assumes "owner_ok (co_resp c, co_world c)" "empty_slot p"
    and t: "take_body hr c p = (p', c')" "status_forbids_body (rs_status (co_resp c)) \<or> hr \<or> rs_body_len (co_resp c) = 0"
  shows "body_taken [] c p p' c'"
proof (cases "rs_file_fd (co_resp c)")
  case None
  then have "p' = p" "c' = c" using t by (auto simp: take_body_def Let_def)
  then show ?thesis using assms(1,2) None
    by (auto simp: body_taken_def empty_slot_def body_slot_def pending_ids_def lease_ids_def owner_ok_def)
next
  case (Some fd)
  have live: "w_fds (co_world c) fd \<noteq> None" "rs_source (co_resp c) \<noteq> SrcNone" using assms(1) Some by (auto simp: owner_ok_def)
  have p': "p' = p" "co_resp c' = (co_resp c)\<lparr>rs_file_fd := None, rs_file_size := 0\<rparr>"
    "co_world c' = (co_world c)\<lparr>w_fds := (w_fds (co_world c))(fd := None)\<rparr>" "co_head c' = co_head c" "co_pending c' = co_pending c"
    using t Some live by (auto simp: take_body_def Let_def close_file_def close_fd_def)
  have "owner_ok (co_resp c', co_world c')"
    using assms(1) live(2) by (auto simp: p' owner_ok_def owned_ids_def world_ok_def)
  then show ?thesis using assms(1,2) Some p'
    by (auto simp: body_taken_def empty_slot_def body_slot_def pending_ids_def owned_ids_def lease_ids_def owner_ok_def fun_eq_iff)
qed

lemma take_body_slot:
  assumes o: "owner_ok (co_resp c, co_world c)" and b: "body_rel (co_resp c) (co_world c) (sp_body sp)"
    and s: "rs_status (co_resp c) = sp_status sp" and n: "body_size sp < 2 ^ 32"
    and t: "take_body hr c p = (p', c')" and p: "empty_slot p"
  shows "body_taken (body_bytes hr sp) c p p' c'"
proof (cases "\<not> status_forbids_body (sp_status sp) \<and> \<not> hr \<and> body_size sp > 0")
  case True
  have len: "rs_body_len (co_resp c) = body_size sp" using body_rel_size[OF b] by simp
  note T = o b p conjunct2[OF conjunct2[OF True]] _ refl conjunct1[OF True]
  show ?thesis
  proof (cases "rs_source (co_resp c)")
    case SrcNone
    then show ?thesis using b True by (auto simp: body_rel_def body_size_def split: spec_body.splits)
  next
    case SrcStreaming
    then show ?thesis using body_rel_size[OF b] by simp
  next
    case SrcInline
    then show ?thesis using take_inline[OF T] t True s len n by (auto simp: take_body_def Let_def)
  next
    case SrcExternal
    then show ?thesis using take_external[OF T] t True s len n by (auto simp: take_body_def Let_def)
  next
    case SrcFile
    then show ?thesis using take_file[OF T] t True s len n by (auto simp: take_body_def Let_def)
  qed
next
  case False
  then have "body_bytes hr sp = []"
    by (auto simp: body_bytes_def body_size_def split: spec_body.splits)
  then show ?thesis using take_nothing[OF o p t] False s body_rel_size[OF b] by auto
qed


lemma batch_snoc [simp]: "batch_ids (ps @ [p]) = batch_ids ps @ pending_ids p" "batch_fds (ps @ [p]) = batch_fds ps @ slot_fds p"
  by (simp_all add: batch_ids_def batch_fds_def)

lemma conn_inv_push:
  assumes i: "conn_inv c ts" and c': "co_resp c' = co_resp c" "co_world c' = co_world c" "co_head c' = co_head c" "co_pending c' = co_pending c @ [p]"
    and s: "slot_rel (ob_data (co_head c)) (ob_data (co_hdr c)) (ob_data (co_body_out c)) (co_world c) p t"
    and d: "distinct (batch_ids (co_pending c) @ pending_ids p @ owned_ids (co_resp c))"
      "distinct (batch_fds (co_pending c) @ slot_fds p @ lease_ids (rs_file_fd (co_resp c)))"
    and l: "\<forall>i \<in> set (pending_ids p). w_objs (co_world c) i \<noteq> None"
  shows "conn_inv c' (ts @ [t])"
proof -
  note I = conn_invD[OF i]
  have "list_all2 (slot_rel (ob_data (co_head c)) (ob_data (co_hdr c)) (ob_data (co_body_out c)) (co_world c)) (co_pending c @ [p]) (ts @ [t])"
    using I(4) s by (simp add: list_all2_append list_all2_lengthD)
  moreover have "\<forall>i \<in> set (batch_ids (co_pending c @ [p])). w_objs (co_world c) i \<noteq> None" using I(7) l unfolding batch_snoc set_append by blast
  ultimately show ?thesis unfolding conn_inv_def c' using I(1,2,3) d by (simp only: batch_snoc append_assoc) blast
qed

lemma frame_response_inv:
  assumes i: "conn_inv c ts" and h: "head_rel h0 (co_resp c) sp" and b: "body_rel (co_resp c) (co_world c) (sp_body sp)"
    and n: "body_size sp < 2 ^ 32" and l: "length (co_pending c) < kMaxPending"
    and c': "c' = frame_response opt hr cl c" and f: "\<not> failed (co_head c')" "\<not> failed (co_hdr c')"
  shows "conn_inv c' (ts @ [response_bytes opt hr cl sp])"
    "\<exists>p. co_pending c' = co_pending c @ [p] \<and> rs_hdr (co_resp c') = rs_hdr (seal_headers (co_resp c)) \<and>
       rs_body_out (co_resp c') = rs_body_out (co_resp c)" "rs_file_fd (co_resp c') = None"
proof -
  let ?r = "seal_headers (co_resp c)"
  note I = conn_invD[OF i]
  let ?c1 = "frame_head opt cl c"
  let ?p0 = "pending0\<lparr>p_head_off := ob_size (co_head c), p_head_len := ob_size (co_head ?c1) - ob_size (co_head c),
    p_hdr_off := rs_hdr_off ?r, p_hdr_len := hdr_length ?r\<rparr>"
  obtain p c2 where t: "take_body hr ?c1 ?p0 = (p, c2)" by fastforce
  have c1: "co_resp ?c1 = ?r" "co_world ?c1 = co_world c" "co_pending ?c1 = co_pending c"
    "co_head ?c1 = head_writer opt cl ?r (co_head c)" by (simp_all add: frame_head_alt)
  have br: "body_rel ?r (co_world c) (sp_body sp)" using b by (subst body_rel_cong[of _ "co_resp c"]) simp_all
  have T: "body_taken (body_bytes hr sp) ?c1 ?p0 p c2"
    by (rule take_body_slot[OF _ _ _ n t]) (use seal_owner[OF I(1)] br h in \<open>simp_all add: c1 head_rel_def empty_slot_def pending0_def\<close>)
  have ns: "rs_source (co_resp c) \<noteq> SrcStreaming" using body_rel_size[OF b] by simp
  have pend: "co_pending c2 = co_pending c" using T by (simp add: body_taken_def c1)
  have C: "c' = count_response (c2\<lparr>co_pending := co_pending c @ [p]\<rparr>)"
    using ns l t unfolding c' by (simp add: frame_response_def Let_def c1 pend)
  then have cf: "co_head c' = co_head ?c1" "co_hdr c' = the (rs_hdr ?r)" "co_resp c' = co_resp c2" "co_world c' = co_world c2"
    "co_pending c' = co_pending c @ [p]" "rs_body_out (co_resp c') = rs_body_out (co_resp c)" "rs_hdr (co_resp c') = rs_hdr ?r"
    using T by (simp_all add: count_response_def body_taken_def c1)
  show "\<exists>p. co_pending c' = co_pending c @ [p] \<and> rs_hdr (co_resp c') = rs_hdr ?r \<and> rs_body_out (co_resp c') = rs_body_out (co_resp c)"
    using cf by blast
  show "rs_file_fd (co_resp c') = None" using T cf(3) by (simp add: body_taken_def)
  note S = seal_rel[OF h f(2)[unfolded cf(2)]]
  have hd: "ob_data (co_head ?c1) = ob_data (co_head c) @ head_bytes opt cl sp"
    using appendsD(2)[OF appends_head[OF S(4)], of opt cl "co_head c"] f(1) body_rel_size[OF br] n
    unfolding cf(1) c1 by (simp add: body_size_def head_bytes_def date_part_def connection_part_def length_part_def)
  have slot: "slot_rel (ob_data (co_head ?c1)) (ob_data (the (rs_hdr ?r))) (ob_data (co_body_out c)) (co_world c2) p (response_bytes opt hr cl sp)"
    unfolding slot_rel_def
    by (rule exI[of _ "body_bytes hr sp"]) (use T hd S in \<open>auto simp: body_taken_def response_bytes_def pending0_def ob_size_def substr_def c1\<close>)
  have own: "owner_ok (co_resp c2, co_world c2)" using T by (simp add: body_taken_def)
  have sf: "same_for q (co_world c) (co_world c2)" if "q \<in> set (co_pending c)" for q
  proof -
    have "set (slot_fds q) \<subseteq> set (batch_fds (co_pending c))" using that by (auto simp: batch_fds_def)
    then show ?thesis using T I(6) by (auto simp: body_taken_def c1 same_for_def slot_fds_def lease_ids_def)
  qed
  have ids: "set (pending_ids p) \<subseteq> set (owned_ids (co_resp c))" "set (owned_ids (co_resp c2)) \<subseteq> set (owned_ids (co_resp c))"
    "distinct (pending_ids p @ owned_ids (co_resp c2))" "w_objs (co_world c2) = w_objs (co_world c)"
    "rs_file_fd (co_resp c2) = None" "set (slot_fds p) \<subseteq> set (lease_ids (rs_file_fd (co_resp c)))"
    using T by (auto simp: body_taken_def c1 owned_ids_def slot_fds_def lease_ids_def)
  have C0: "conn_inv (c2\<lparr>co_head := co_head ?c1\<rparr>) ts"
    by (rule conn_inv_step[OF i own, where h' = "co_head ?c1" and u = "head_bytes opt cl sp"])
      (use T hd sf seal_grows[of "co_resp c"] ids I(5) in \<open>auto simp: body_taken_def c1\<close>)
  have d: "distinct (slot_fds p)" by (simp add: slot_fds_def lease_ids_def split: option.splits)
  have d1: "distinct (batch_ids (co_pending c) @ pending_ids p @ owned_ids (co_resp c2))" using I(5) ids(1,2,3) by auto
  have d2: "distinct (batch_fds (co_pending c) @ slot_fds p @ lease_ids (rs_file_fd (co_resp c2)))"
    using I(6) ids(5,6) d by (auto simp: lease_ids_def)
  have lv: "\<forall>i \<in> set (pending_ids p). w_objs (co_world c2) i \<noteq> None" using I(1) ids(1,4) by (auto simp: owner_ok_def)
  show "conn_inv c' (ts @ [response_bytes opt hr cl sp])"
    by (rule conn_inv_push[OF C0]) (use cf slot d1 d2 lv pend in simp_all)
qed

subsection \<open>Misuse of the response\<close>

fun misuse :: "resp_call \<Rightarrow> rspec \<Rightarrow> bool" where
  "misuse (Call_status c) sp = False"
| "misuse (Call_header f v) sp = False"
| "misuse (Call_header_named n v) sp = False"
| "misuse (Call_header_u64 f v) sp = False"
| "misuse (Call_pin d) sp = False"
| "misuse (Call_redirect l c) sp = False"
| "misuse (Call_body_owned l n) sp = (sp_body sp \<noteq> No_body \<or> (case l of None \<Rightarrow> True | Some d \<Rightarrow> n > length d))"
| "misuse _ sp = (sp_body sp \<noteq> No_body)"

fun spec_run :: "file_system \<Rightarrow> resp_call list \<Rightarrow> rspec \<Rightarrow> rspec option" where
  "spec_run fs [] sp = Some sp"
| "spec_run fs (c # cs) sp = (if misuse c sp then None else spec_run fs cs (spec_call fs c sp))"

definition buffers_ok :: "response_t \<Rightarrow> bool" where
  "buffers_ok r \<longleftrightarrow> (\<forall>h. rs_hdr r = Some h \<longrightarrow> \<not> failed h) \<and> (\<forall>b. rs_body_out r = Some b \<longrightarrow> \<not> failed b)"

lemma failed_split: "response_failed r \<longleftrightarrow> error_truthy (rs_err r) \<or> \<not> buffers_ok r"
  by (auto simp: response_failed_iff buffers_ok_def)

lemma buffers_back: "call_frame (r, w) (r', w') \<Longrightarrow> buffers_ok r' \<Longrightarrow> buffers_ok r"
  by (auto simp: call_frame_def buffers_ok_def grows_def split: option.splits)

lemma source_None: "body_rel r w sb \<Longrightarrow> rs_source r = SrcNone \<longleftrightarrow> sb = No_body"
  by (auto simp: body_rel_def split: spec_body.splits body_source_t.splits)

lemma stage_line_err: "rs_hdr r \<noteq> None \<Longrightarrow> rs_err (stage_line e f r) = rs_err r"
  by (auto simp: stage_line_def)

lemma stage_line_fields [simp]:
  "rs_source (stage_line e f r) = rs_source r" "rs_body_out (stage_line e f r) = rs_body_out r"
  by (auto simp: stage_line_def split: option.splits)

lemma body_err:
  assumes "rs_body_out r \<noteq> None" "response_body d (r, w) = (r', w')" "buffers_ok r'" "\<not> error_truthy (rs_err r)"
  shows "error_truthy (rs_err r') \<longleftrightarrow> rs_source r \<noteq> SrcNone"
  using assms by (auto simp: response_body_def pin_def new_obj_def Let_def buffers_ok_def split: if_splits)

lemma not_found_err:
  assumes "rs_hdr r \<noteq> None" "rs_body_out r \<noteq> None" "not_found (r, w) = (r', w')" "buffers_ok r'" "\<not> error_truthy (rs_err r)"
  shows "error_truthy (rs_err r') \<longleftrightarrow> rs_source r \<noteq> SrcNone"
  using assms body_err[of "response_header ContentType ''text/plain; charset=utf-8'' (set_status 404 r)" "''Not Found''" w r' w']
  by (simp add: not_found_def response_text_def response_header_def set_status_def stage_line_err)

lemma call_err:
  assumes "head_rel h0 r sp" "body_rel r w (sp_body sp)" "do_call fs c (r, w) = (r', w')" "buffers_ok r'" "\<not> error_truthy (rs_err r)"
  shows "error_truthy (rs_err r') \<longleftrightarrow> misuse c sp"
proof -
  have b: "rs_hdr r \<noteq> None" "rs_body_out r \<noteq> None" using assms(1) by (auto simp: head_rel_def)
  note s = source_None[OF assms(2)]
  have tx: "error_truthy (rs_err r') \<longleftrightarrow> rs_source r \<noteq> SrcNone"
    if "response_body t (response_header ContentType k r, w) = (r', w')" for t k
    using body_err[OF _ that assms(4)] b assms(5) by (simp add: response_header_def stage_line_err)
  show ?thesis
  proof (cases c)
    case (Call_body_owned l n)
    then show ?thesis using assms(3,5) s
      by (cases l) (auto simp: response_body_owned_def new_obj_def split: if_splits)
  next
    case (Call_local_file p)
    then show ?thesis
    proof (cases "rs_source r = SrcNone")
      case True
      then show ?thesis using assms(3,5) s Call_local_file not_found_err[OF b _ assms(4,5)]
        by (auto simp: local_file_def open_file_def split: option.splits if_splits)
    next
      case False
      then show ?thesis using assms(3) s Call_local_file by (auto simp: local_file_def)
    qed
  next
    case (Call_body d)
    then show ?thesis using body_err[OF b(2) _ assms(4,5)] assms(3) s by simp
  next
    case Call_not_found
    then show ?thesis using not_found_err[OF b _ assms(4,5)] assms(3) s by simp
  qed (use assms(3,5) s b tx in \<open>auto simp: set_status_def response_header_def response_header_named_def response_header_u64_def
      stage_line_err response_body_static_def pin_def new_obj_def response_text_def response_json_def response_html_def redirect_def
      split: if_splits\<close>)
qed

lemma calls_run:
  assumes "\<forall>c \<in> set cs. call_small c" "owner_ok (r, w)" "head_rel h0 r sp" "body_rel r w (sp_body sp)" "\<not> error_truthy (rs_err r)"
    "fold (do_call fs) cs (r, w) = (r', w')" "buffers_ok r'"
  shows "(error_truthy (rs_err r') \<longleftrightarrow> spec_run fs cs sp = None) \<and>
    (\<forall>sp'. spec_run fs cs sp = Some sp' \<longrightarrow> head_rel h0 r' sp' \<and> body_rel r' w' (sp_body sp'))"
  using assms
proof (induction cs arbitrary: r w sp)
  case (Cons c cs)
  obtain r1 w1 where e: "do_call fs c (r, w) = (r1, w1)" by fastforce
  have cs: "\<forall>c \<in> set cs. call_small c" "call_small c" using Cons.prems(1) by auto
  note R = refinesD[OF call_refines[OF cs(2)] Cons.prems(2) e]
  have f: "fold (do_call fs) cs (r1, w1) = (r', w')" using Cons.prems(6) e by simp
  note S = refinesD[OF calls_refine[OF cs(1)] R(1) f]
  have ok: "buffers_ok r1" using buffers_back[OF S(2) Cons.prems(7)] .
  note E = call_err[OF Cons.prems(3,4) e ok Cons.prems(5)]
  show ?case
  proof (cases "misuse c sp")
    case True
    then show ?thesis using E call_frameD(6)[OF S(2)] by simp
  next
    case False
    then have nf: "\<not> response_failed r1" using E ok by (simp add: failed_split)
    then have nr: "\<not> error_truthy (rs_err r1)" by (simp add: failed_split)
    have rr: "head_rel h0 r1 (spec_call fs c sp)" "body_rel r1 w1 (sp_body (spec_call fs c sp))"
      using R(3)[OF Cons.prems(3,4) nf] by auto
    show ?thesis using Cons.IH[OF cs(1) R(1) rr nr f Cons.prems(7)] False by simp
  qed
qed auto

subsection \<open>A sequence of exchanges\<close>

definition error_spec :: "status_t \<Rightarrow> rspec" where
  "error_spec s = spec_bytes (reason_phrase s)
     (spec_field ContentType ''text/plain; charset=utf-8'' (spec_begin\<lparr>sp_status := s\<rparr>))"

definition exchange_text :: "server_options \<Rightarrow> file_system \<Rightarrow> exchange \<Rightarrow> string" where
  "exchange_text opt fs x = (case spec_run fs (x_calls x) spec_begin of
      None \<Rightarrow> response_bytes opt (x_head x) True (error_spec 500)
    | Some sp \<Rightarrow> response_bytes opt (x_head x) (\<not> x_keep_alive x \<or> status_forces_close (sp_status sp)) sp)"

definition exchange_small :: "file_system \<Rightarrow> exchange \<Rightarrow> bool" where
  "exchange_small fs x \<longleftrightarrow> list_all call_small (x_calls x) \<and>
     (case spec_run fs (x_calls x) spec_begin of None \<Rightarrow> True | Some sp \<Rightarrow> body_size sp < 2 ^ 32)"

definition out_good :: "conn_out \<Rightarrow> bool" where
  "out_good c \<longleftrightarrow> \<not> failed (co_head c) \<and> \<not> failed (co_hdr c) \<and> \<not> failed (co_body_out c)"

lemma conn_inv_cong:
  "conn_inv c ts \<Longrightarrow> co_resp c' = co_resp c \<Longrightarrow> co_world c' = co_world c \<Longrightarrow> co_head c' = co_head c \<Longrightarrow>
     co_pending c' = co_pending c \<Longrightarrow> conn_inv c' ts"
  by (simp add: conn_inv_def)

definition error_calls :: "status_t \<Rightarrow> resp_call list" where
  "error_calls s = [Call_status s, Call_header ContentType ''text/plain; charset=utf-8'', Call_body_static (reason_phrase s)]"

lemma write_error_alt:
  "\<exists>m. write_error opt hr s c = (frame_response opt hr True (handler_calls fs (error_calls s)
     (begin_exchange (c\<lparr>co_in_body := False\<rparr>))))\<lparr>co_close_after_flush := True, co_metrics := m\<rparr>"
  by (cases "response_begin (co_resp c, co_world c)")
    (auto simp: write_error_def handler_calls_def begin_exchange_def error_calls_def set_response_def Let_def)

lemma error_spec_run: "spec_run fs (error_calls s) spec_begin = Some (error_spec s)"
  by (simp add: error_calls_def error_spec_def spec_begin_def spec_field_def spec_line_def)

lemma error_spec_size: "body_size (error_spec s) < 2 ^ 32"
  using reason_phrase_short[of s] by (simp add: error_spec_def spec_bytes_def body_size_def)

text \<open>Nothing a later step does unlatches a failed buffer.\<close>

lemma appends_if: "appends f s \<Longrightarrow> \<exists>u. appends (\<lambda>b. if P then f b else b) u"
  using appends_id by (cases P) auto

lemma appends_writer: "\<exists>t. appends (head_writer opt cl r) t"
proof -
  have 1: "\<exists>t. appends (\<lambda>b. if P then date_header d b else b) t" for P d by (rule appends_if[OF appends_date])
  have 2: "\<exists>t. appends (length_line r) t" unfolding length_line_def[abs_def] by (rule appends_if[OF appends_header_u64])
  have 3: "\<exists>t. appends (chunked_line r) t" unfolding chunked_line_def[abs_def] by (rule appends_if[OF appends_field]) simp
  obtain a b d where "appends (\<lambda>b. if so_serve_date_header opt \<and> \<not> rs_saw_date r then date_header (so_date opt) b else b) a"
    "appends (length_line r) b" "appends (chunked_line r) d" using 1 2 3 by metis
  from appends_comp[OF appends_comp[OF appends_comp[OF appends_comp[OF appends_status[of "rs_status r"] this(1)]
    appends_static[of "so_serve_server_header opt" "\<not> rs_saw_connection r" cl]] this(2)] this(3)]
  show ?thesis unfolding head_writer_def[abs_def] by blast
qed

lemma frame_response_keeps:
  assumes "length (co_pending c) < kMaxPending" "rs_source (co_resp c) \<noteq> SrcStreaming"
  shows "co_head (frame_response opt hr cl c) = head_writer opt cl (seal_headers (co_resp c)) (co_head c)"
    "rs_hdr (co_resp (frame_response opt hr cl c)) = rs_hdr (seal_headers (co_resp c))"
    "rs_body_out (co_resp (frame_response opt hr cl c)) = rs_body_out (co_resp c)"
    "length (co_pending (frame_response opt hr cl c)) = Suc (length (co_pending c))"
    "co_closing (frame_response opt hr cl c) = co_closing c"
proof -
  obtain p c2 where t: "take_body hr (frame_head opt cl c) (pending0\<lparr>p_head_off := ob_size (co_head c),
      p_head_len := ob_size (co_head (frame_head opt cl c)) - ob_size (co_head c), p_hdr_off := rs_hdr_off (co_resp (frame_head opt cl c)),
      p_hdr_len := hdr_length (co_resp (frame_head opt cl c))\<rparr>) = (p, c2)" by fastforce
  have "co_head c2 = co_head (frame_head opt cl c)" "rs_hdr (co_resp c2) = rs_hdr (co_resp (frame_head opt cl c))"
    "rs_body_out (co_resp c2) = rs_body_out (co_resp (frame_head opt cl c))" "co_pending c2 = co_pending (frame_head opt cl c)"
    "co_closing c2 = co_closing (frame_head opt cl c)"
    using t by (auto simp: take_body_def close_file_def Let_def split: if_splits)
  then show "co_head (frame_response opt hr cl c) = head_writer opt cl (seal_headers (co_resp c)) (co_head c)"
    "rs_hdr (co_resp (frame_response opt hr cl c)) = rs_hdr (seal_headers (co_resp c))"
    "rs_body_out (co_resp (frame_response opt hr cl c)) = rs_body_out (co_resp c)"
    "length (co_pending (frame_response opt hr cl c)) = Suc (length (co_pending c))"
    "co_closing (frame_response opt hr cl c) = co_closing c"
    using assms t by (simp_all add: frame_response_def frame_head_alt count_response_def Let_def)
qed

lemma frame_good:
  assumes "length (co_pending c) < kMaxPending" "rs_source (co_resp c) \<noteq> SrcStreaming" "rs_hdr (co_resp c) \<noteq> None"
    "out_good (frame_response opt hr cl c)"
  shows "out_good c"
proof -
  note k = frame_response_keeps[OF assms(1,2), of opt hr cl]
  obtain t where t: "appends (head_writer opt cl (seal_headers (co_resp c))) t" using appends_writer by blast
  obtain h where h: "rs_hdr (co_resp c) = Some h" using assms(3) by auto
  have "\<not> failed (put_crlf h)" using assms(4) k h by (simp add: out_good_def seal_headers_def)
  then have "\<not> failed h" by (rule appendsD(1)[OF appends_crlf])
  moreover have "\<not> failed (co_head c)" using assms(4) k appendsD(1)[OF t] by (simp add: out_good_def)
  ultimately show ?thesis using assms(4) k h by (simp add: out_good_def)
qed

lemma body_not_streaming:
  "response_body d (r, w) = (r', w') \<Longrightarrow> rs_source r \<noteq> SrcStreaming \<Longrightarrow> rs_source r' \<noteq> SrcStreaming"
  by (auto simp: response_body_def pin_def new_obj_def Let_def split: option.splits if_splits)

lemma not_found_not_streaming:
  "not_found (r, w) = (r', w') \<Longrightarrow> rs_source r \<noteq> SrcStreaming \<Longrightarrow> rs_source r' \<noteq> SrcStreaming"
  by (auto simp: not_found_def response_text_def response_header_def set_status_def dest!: body_not_streaming)

lemma call_not_streaming:
  assumes "do_call fs c (r, w) = (r', w')" "rs_source r \<noteq> SrcStreaming"
  shows "rs_source r' \<noteq> SrcStreaming"
proof (cases c)
  case (Call_body_owned l n)
  then show ?thesis using assms
    by (cases l) (auto simp: response_body_owned_def new_obj_def split: if_splits)
next
  case (Call_local_file p)
  then show ?thesis using assms
    by (auto simp: local_file_def open_file_def split: option.splits if_splits dest!: not_found_not_streaming)
qed (use assms in \<open>auto simp: set_status_def response_header_def response_header_named_def response_header_u64_def
      response_body_static_def pin_def new_obj_def response_text_def response_json_def response_html_def redirect_def
      split: if_splits dest!: body_not_streaming not_found_not_streaming\<close>)

lemma calls_not_streaming:
  "fold (do_call fs) cs (r, w) = (r', w') \<Longrightarrow> rs_source r \<noteq> SrcStreaming \<Longrightarrow> rs_source r' \<noteq> SrcStreaming"
proof (induction cs arbitrary: r w)
  case (Cons c cs)
  then show ?case using call_not_streaming[of fs c r w] by (cases "do_call fs c (r, w)") auto
qed simp

definition handled :: "file_system \<Rightarrow> resp_call list \<Rightarrow> conn_out \<Rightarrow> conn_out" where
  "handled fs cs c = handler_calls fs cs (begin_exchange c)"

lemma handled_inv: "conn_inv c ts \<Longrightarrow> list_all call_small cs \<Longrightarrow> conn_inv (handled fs cs c) ts"
  unfolding handled_def by (intro handler_calls_inv begin_exchange_inv) (simp_all add: list_all_iff)

lemma handled_run:
  assumes "conn_inv c ts" "list_all call_small cs" "out_good (handled fs cs c)"
  shows "error_truthy (rs_err (co_resp (handled fs cs c))) \<longleftrightarrow> spec_run fs cs spec_begin = None"
    "spec_run fs cs spec_begin = Some sp \<Longrightarrow> head_rel (ob_data (co_hdr c)) (co_resp (handled fs cs c)) sp \<and>
       body_rel (co_resp (handled fs cs c)) (co_world (handled fs cs c)) (sp_body sp)"
    "rs_source (co_resp (handled fs cs c)) \<noteq> SrcStreaming"
    "response_failed (co_resp (handled fs cs c)) \<longleftrightarrow> spec_run fs cs spec_begin = None" "out_good c"
proof -
  note I = conn_invD[OF assms(1)]
  obtain r w where b: "response_begin (co_resp c, co_world c) = (r, w)" by fastforce
  obtain r' w' where f: "fold (do_call fs) cs (r, w) = (r', w')" by fastforce
  have e: "co_resp (handled fs cs c) = r'" "co_world (handled fs cs c) = w'" "co_head (handled fs cs c) = co_head c"
    using b f by (simp_all add: handled_def handler_calls_def begin_exchange_def set_response_def)
  obtain h where h: "rs_hdr (co_resp c) = Some h" using I(2) by auto
  note B = begin_facts[OF I(1) b]
  have hr: "head_rel (ob_data h) r spec_begin" using B(10)[OF h I(3)] .
  have sm: "\<forall>c \<in> set cs. call_small c" using assms(2) by (simp add: list_all_iff)
  note R = refinesD[OF calls_refine[OF sm] B(1) f]
  have bo: "rs_hdr r' \<noteq> None" "rs_body_out r' \<noteq> None"
    using call_frameD(4,5)[OF R(2)] B(4,5) h I(3) by (auto simp: grows_def)
  have ok: "buffers_ok r'" using assms(3) e bo by (auto simp: out_good_def buffers_ok_def)
  have nb: "body_rel r w (sp_body spec_begin)" using B(11) by (simp add: spec_begin_def)
  note C = calls_run[OF sm B(1) hr nb B(6) f ok]
  show "error_truthy (rs_err (co_resp (handled fs cs c))) \<longleftrightarrow> spec_run fs cs spec_begin = None" using C e by simp
  show "response_failed (co_resp (handled fs cs c)) \<longleftrightarrow> spec_run fs cs spec_begin = None" using C e ok by (simp add: failed_split)
  show "spec_run fs cs spec_begin = Some sp \<Longrightarrow> head_rel (ob_data (co_hdr c)) (co_resp (handled fs cs c)) sp \<and>
       body_rel (co_resp (handled fs cs c)) (co_world (handled fs cs c)) (sp_body sp)" using C e h by simp
  have "rs_source r \<noteq> SrcStreaming" using source_None[OF nb] by (simp add: spec_begin_def)
  then show "rs_source (co_resp (handled fs cs c)) \<noteq> SrcStreaming" using calls_not_streaming[OF f] e by simp
  have "buffers_ok r" using buffers_back[OF R(2) ok] .
  then show "out_good c" using assms(3) B(4,5) h I(3) e(3) by (auto simp: out_good_def buffers_ok_def)
qed

lemma error_page:
  assumes "conn_inv c ts" "length (co_pending c) < kMaxPending" "out_good (write_error opt hr s c)"
  shows "conn_inv (write_error opt hr s c) (ts @ [response_bytes opt hr True (error_spec s)])" "out_good c"
    "rs_file_fd (co_resp (write_error opt hr s c)) = None" "co_closing (write_error opt hr s c) = co_closing c"
    "length (co_pending (write_error opt hr s c)) = Suc (length (co_pending c))"
proof -
  let ?c = "c\<lparr>co_in_body := False\<rparr>" and ?fs = "\<lambda>_. None"
  have i: "conn_inv ?c ts" by (rule conn_inv_cong[OF assms(1)]) simp_all
  have sm: "list_all call_small (error_calls s)" by (simp add: error_calls_def)
  let ?h = "handled ?fs (error_calls s) ?c"
  obtain m where m: "write_error opt hr s c = (frame_response opt hr True ?h)\<lparr>co_close_after_flush := True, co_metrics := m\<rparr>"
    using write_error_alt[of opt hr s c ?fs] by (auto simp: handled_def)
  have hi: "conn_inv ?h ts" by (rule handled_inv[OF i sm])
  have src: "rs_source (co_resp ?h) \<noteq> SrcStreaming"
    by (cases "response_begin (co_resp c, co_world c)")
      (auto simp: handled_def handler_calls_def begin_exchange_def set_response_def error_calls_def response_body_static_def
        response_header_def set_status_def response_begin_def split: prod.splits)
  have l: "length (co_pending ?h) < kMaxPending" using assms(2) by (simp add: handled_def handler_calls_def begin_exchange_def set_response_def)
  have g: "out_good (frame_response opt hr True ?h)" using assms(3) by (simp add: m out_good_def)
  have gh: "out_good ?h" by (rule frame_good[OF l src conn_invD(2)[OF hi] g])
  note R = handled_run[OF i sm gh]
  note S = R(2)[OF error_spec_run]
  note F = frame_response_inv[OF hi conjunct1[OF S] conjunct2[OF S] error_spec_size l refl, where opt = opt and hr = hr and cl = True]
  have fi: "conn_inv (frame_response opt hr True ?h) (ts @ [response_bytes opt hr True (error_spec s)])"
    "rs_file_fd (co_resp (frame_response opt hr True ?h)) = None"
    using F(1,3) g by (auto simp: out_good_def)
  show "rs_file_fd (co_resp (write_error opt hr s c)) = None" using fi(2) by (simp add: m)
  show "co_closing (write_error opt hr s c) = co_closing c" "length (co_pending (write_error opt hr s c)) = Suc (length (co_pending c))"
    using frame_response_keeps(4,5)[OF l src] by (simp_all add: m handled_def handler_calls_def begin_exchange_def set_response_def)
  from fi(1) show "conn_inv (write_error opt hr s c) (ts @ [response_bytes opt hr True (error_spec s)])"
    by (rule conn_inv_cong) (simp_all add: m)
  show "out_good c" using R(5) by (simp add: out_good_def)
qed

lemma serve_inv:
  assumes "conn_inv c ts" "\<not> co_closing c" "exchange_small fs x" "length (co_pending c) < kMaxPending" "out_good (serve opt fs x c)"
  shows "conn_inv (serve opt fs x c) (ts @ [exchange_text opt fs x])" "out_good c"
    "rs_file_fd (co_resp (serve opt fs x c)) = None" "\<not> co_closing (serve opt fs x c)"
    "length (co_pending (serve opt fs x c)) = Suc (length (co_pending c))"
proof -
  let ?h = "handled fs (x_calls x) c"
  have sm: "list_all call_small (x_calls x)" using assms(3) by (simp add: exchange_small_def)
  have hi: "conn_inv ?h ts" by (rule handled_inv[OF assms(1) sm])
  have s: "serve opt fs x c = finish_exchange opt (x_head x) (x_keep_alive x) ?h" by (simp add: serve_def handled_def)
  have l: "length (co_pending ?h) < kMaxPending" and cl: "\<not> co_closing ?h"
    using assms(2,4) by (simp_all add: handled_def handler_calls_def begin_exchange_def set_response_def)
  obtain r w where rw: "response_begin (co_resp c, co_world c) = (r, w)" by fastforce
  have src: "rs_source (co_resp ?h) \<noteq> SrcStreaming"
    using calls_not_streaming[of fs "x_calls x" r w] rw source_None[OF begin_facts(11)[OF conn_invD(1)[OF assms(1)] rw]]
    by (cases "fold (do_call fs) (x_calls x) (r, w)") (simp add: handled_def handler_calls_def begin_exchange_def set_response_def)
  let ?close = "\<not> x_keep_alive x \<or> status_forces_close (rs_status (co_resp ?h))"
  have gh: "out_good ?h"
  proof (cases "response_failed (co_resp ?h)")
    case True
    then show ?thesis using error_page(2)[OF hi l] assms(5) by (simp add: s finish_exchange_def)
  next
    case False
    then have "out_good (frame_response opt (x_head x) ?close ?h)" using assms(5) src cl
      by (auto simp: s finish_exchange_def needs_streaming_settlement_def Let_def out_good_def split: if_splits)
    then show ?thesis by (rule frame_good[OF l src conn_invD(2)[OF hi]])
  qed
  note R = handled_run[OF assms(1) sm gh]
  show "out_good c" by (rule R(5))
  have hp: "co_pending ?h = co_pending c" by (simp add: handled_def handler_calls_def begin_exchange_def set_response_def)
  have A: "conn_inv (serve opt fs x c) (ts @ [exchange_text opt fs x]) \<and> rs_file_fd (co_resp (serve opt fs x c)) = None \<and>
    \<not> co_closing (serve opt fs x c) \<and> length (co_pending (serve opt fs x c)) = Suc (length (co_pending c))"
  proof (cases "spec_run fs (x_calls x) spec_begin")
    case None
    then have w: "serve opt fs x c = write_error opt (x_head x) 500 ?h" using R(4) by (simp add: s finish_exchange_def)
    show ?thesis using error_page[OF hi l, of opt "x_head x" 500] assms(5) None cl hp by (simp add: w exchange_text_def)
  next
    case (Some sp)
    note S = R(2)[OF Some]
    let ?f = "frame_response opt (x_head x) ?close ?h"
    have fin: "co_resp (serve opt fs x c) = co_resp ?f" "co_world (serve opt fs x c) = co_world ?f" "co_closing (serve opt fs x c) = co_closing ?f"
      "co_head (serve opt fs x c) = co_head ?f" "co_pending (serve opt fs x c) = co_pending ?f"
      using R(4) Some src cl by (auto simp: s finish_exchange_def needs_streaming_settlement_def Let_def)
    have sz: "body_size sp < 2 ^ 32" using assms(3) Some by (simp add: exchange_small_def)
    have st: "rs_status (co_resp ?h) = sp_status sp" using S by (simp add: head_rel_def)
    have g: "\<not> failed (co_head ?f)" "\<not> failed (co_hdr ?f)" using assms(5) fin by (auto simp: out_good_def)
    note F = frame_response_inv[OF hi conjunct1[OF S] conjunct2[OF S] sz l refl g]
    have "conn_inv (serve opt fs x c) (ts @ [response_bytes opt (x_head x) ?close sp])" using F(1) by (rule conn_inv_cong) (simp_all add: fin)
    then show ?thesis using F(3) fin frame_response_keeps(4,5)[OF l src] cl hp by (simp add: exchange_text_def Some st)
  qed
  then show "conn_inv (serve opt fs x c) (ts @ [exchange_text opt fs x])" "rs_file_fd (co_resp (serve opt fs x c)) = None"
    "\<not> co_closing (serve opt fs x c)" "length (co_pending (serve opt fs x c)) = Suc (length (co_pending c))" by blast+
qed

end
