(* ===== verification/Rounds.thy ===== *)
theory Rounds
  imports Framing "HOL-Library.Sublist" "HOL-Library.Code_Target_Numeral"
begin

text \<open>
  What a round of a server connection puts on the wire: the lemmas about the gather writes and the file
  bodies of \<open>flush\<close>, the reset of a round, the buffers that stay failed, and the streamed responses, and
  the properties that follow: a round is exactly its responses in order, it is delivered whenever the
  environment makes progress, a stream is a well-formed chunked message, and three ways in which a round
  goes wrong.
\<close>

subsection \<open>Writing a round\<close>

text \<open>A step that puts text on the wire: all of it when it succeeds, a part of it from the front otherwise.\<close>

definition wrote :: "net \<Rightarrow> string \<Rightarrow> 'a expected \<Rightarrow> net \<Rightarrow> bool" where
  "wrote n t r n' \<longleftrightarrow> (\<exists>k. n_wire n' = n_wire n @ take k t) \<and> ((\<exists>a. r = Inr a) \<longrightarrow> n_wire n' = n_wire n @ t)"

lemma wrote_trans: "wrote n s (Inr a) m \<Longrightarrow> wrote m t r n' \<Longrightarrow> wrote n (s @ t) r n'"
proof -
  assume a: "wrote n s (Inr a) m" and b: "wrote m t r n'"
  obtain k where "n_wire n' = n_wire m @ take k t" using b by (auto simp: wrote_def)
  then have "n_wire n' = n_wire n @ take (length s + k) (s @ t)" using a by (simp add: wrote_def)
  moreover have "(\<exists>x. r = Inr x) \<longrightarrow> n_wire n' = n_wire n @ s @ t" using a b by (auto simp: wrote_def)
  ultimately show ?thesis unfolding wrote_def by blast
qed

lemma wrote_error: "wrote n s (Inl e) m \<Longrightarrow> wrote n (s @ t) (Inl e') m"
  unfolding wrote_def
proof (elim conjE exE, intro conjI)
  fix k assume "n_wire m = n_wire n @ take k s"
  then show "\<exists>k. n_wire m = n_wire n @ take k (s @ t)" by (intro exI[of _ "min k (length s)"]) (simp add: min_def)
qed simp

lemma wrote_nil: "n_wire n' = n_wire n \<Longrightarrow> wrote n [] r n'"
  by (simp add: wrote_def)

lemma wrote_Inl: "n_wire n' = n_wire n \<Longrightarrow> wrote n t (Inl e) n'"
  by (auto simp: wrote_def intro: exI[of _ 0])

lemma wrote_all: "writev_all k iov (n, st) = (r, n', st') \<Longrightarrow> wrote n (concat iov) r n'"
  using writev_all_wire[of k iov n st r n' st'] by (auto simp: wrote_def)

lemma wrote_span: "conn_writev_span os iov c = (r, c') \<Longrightarrow> wrote (co_net c) (concat iov) r (co_net c')"
  by (auto simp: conn_writev_span_def split: prod.splits dest!: wrote_all)

lemma span_keeps:
  assumes "conn_writev_span os iov c = (r, c')"
  shows "co_resp c' = co_resp c" "co_world c' = co_world c" "co_head c' = co_head c" "co_pending c' = co_pending c"
    "co_stream c' = co_stream c" "co_headers_staged c' = co_headers_staged c"
  using assms by (auto simp: conn_writev_span_def split: prod.splits)

lemma drain_run_wrote: "drain_run os s n = (r, n') \<Longrightarrow> wrote n s r n'"
proof (induction os s n arbitrary: r n' rule: drain_run.induct)
  case (1 os s n)
  show ?case
  proof (cases "s = []")
    case True
    then show ?thesis using 1(2) by (auto simp: drain_run.simps intro: wrote_nil)
  next
    case False
    obtain a m where kw: "kernel_writev (os_socket os) [s] n = (a, m)" by fastforce
    show ?thesis
    proof (cases a)
      case (Inl e)
      then have "n_wire m = n_wire n" using kw by (auto simp: kernel_writev_def Let_def split: sum.splits)
      then show ?thesis using 1(2) False kw Inl by (auto simp: drain_run.simps[of os s] intro: wrote_Inl)
    next
      case (Inr w)
      have m: "n_wire m = n_wire n @ take w s" using kw Inr by (auto simp: kernel_writev_def Let_def split: sum.splits)
      show ?thesis
      proof (cases "w = 0")
        case True
        then show ?thesis using 1(2) False kw Inr m by (auto simp: drain_run.simps[of os s] intro: wrote_Inl)
      next
        case w: False
        have "wrote n (take w s) (Inr ()) m" using m by (auto simp: wrote_def intro: exI[of _ w])
        moreover have "wrote m (drop w s) r n'"
          using 1(1)[OF False kw[symmetric] Inr w] 1(2) False kw Inr w by (simp add: drain_run.simps[of os s])
        ultimately have "wrote n (take w s @ drop w s) r n'" by (rule wrote_trans)
        then show ?thesis by simp
      qed
    qed
  qed
qed

lemma send_file_wrote: "send_file os gone t pos len n = (r, n') \<Longrightarrow> wrote n (take len (drop pos t)) r n'"
proof (induction os gone t pos len n arbitrary: r n' rule: send_file.induct)
  case (1 os gone t pos len n)
  show ?case
  proof (cases "len = 0")
    case True
    then show ?thesis using 1(2) by (auto simp: send_file.simps intro: wrote_nil)
  next
    case False
    obtain a m where fr: "file_read os t pos (min len kChunk) n = (a, m)" by fastforce
    have m: "n_wire m = n_wire n" using fr by (auto simp: file_read_def Let_def split: sum.splits)
    show ?thesis
    proof (cases a)
      case (Inl e)
      then show ?thesis using 1(2) False fr m by (auto simp: send_file.simps[of os gone t pos len] intro: wrote_Inl)
    next
      case (Inr d)
      obtain k where k: "d = take k (drop pos t)" "k \<le> len"
        using fr Inr by (auto simp: file_read_def Let_def split: sum.splits)
      show ?thesis
      proof (cases "d = []")
        case True
        then show ?thesis using 1(2) False fr m Inr by (auto simp: send_file.simps[of os gone t pos len] intro: wrote_Inl)
      next
        case d: False
        obtain b q where dr: "drain_run os d m = (b, q)" by fastforce
        have w: "wrote n d b q" using drain_run_wrote[OF dr] m by (simp add: wrote_def)
        have ld: "length d \<le> len" using k by simp
        have sp: "take len (drop pos t) = d @ take (len - length d) (drop (pos + length d) t)"
        proof -
          have "take (length d) (drop pos t) = d" using k by (simp add: min_def)
          then show ?thesis using ld by (metis drop_drop add.commute le_add_diff_inverse take_add)
        qed
        show ?thesis
        proof (cases b)
          case (Inl e)
          then show ?thesis using 1(2) False fr Inr d dr w wrote_error unfolding sp
            by (auto simp: send_file.simps[of os gone t pos len])
        next
          case b: (Inr u)
          have "wrote q (take (len - length d) (drop (pos + length d) t)) r n'"
            using 1(1)[OF False fr[symmetric] Inr d dr[symmetric] b] 1(2) False fr Inr d dr b by (simp add: send_file.simps[of os gone t pos len])
          then show ?thesis unfolding sp using wrote_trans[of n d u q] w b by simp
        qed
      qed
    qed
  qed
qed

definition slot_segments :: "conn_out \<Rightarrow> pending_t \<Rightarrow> string option list" where
  "slot_segments c p = map Some (head_segments c p) @ body_segment c p"

lemma segments_length: "length (slot_segments c p) \<le> 3"
  by (auto simp: slot_segments_def head_segments_def body_segment_def split: body_source_t.splits)

text \<open>Three segments per slot never fill the array: the batch is not split.\<close>

lemma gather_all: "length iov + 3 * length ps \<le> kMaxPendingIov \<Longrightarrow> gather c ps iov = (iov @ concat (map (slot_segments c) ps), False)"
proof (induction ps arbitrary: iov)
  case (Cons p ps)
  then show ?case using segments_length[of c p] by (simp add: slot_segments_def)
qed simp

definition slot_of :: "conn_out \<Rightarrow> pending_t \<Rightarrow> string \<Rightarrow> bool" where
  "slot_of c = slot_rel (ob_data (co_head c)) (ob_data (co_hdr c)) (ob_data (co_body_out c)) (co_world c)"

lemma head_segments_text: "concat (head_segments c p) = substr (ob_data (co_head c)) (p_head_off p) (p_head_len p) @
    substr (ob_data (co_hdr c)) (p_hdr_off p) (p_hdr_len p)"
  by (auto simp: head_segments_def substr_def)

definition texts :: "string option list \<Rightarrow> string list" where
  "texts = map (\<lambda>x. case x of None \<Rightarrow> [] | Some s \<Rightarrow> s)"

lemma texts_simps [simp]: "texts [] = []" "texts (xs @ ys) = texts xs @ texts ys" "texts (map Some ss) = ss"
  by (simp_all add: texts_def o_def)

lemma segments_text:
  assumes "slot_of c p t" "p_source p \<noteq> SrcFile"
  shows "None \<notin> set (slot_segments c p)" "concat (texts (slot_segments c p)) = t"
proof -
  obtain d where d: "t = concat (head_segments c p) @ d" "body_slot (ob_data (co_body_out c)) (co_world c) p d"
    using assms(1) by (auto simp: slot_of_def slot_rel_def head_segments_text)
  have b: "None \<notin> set (body_segment c p) \<and> concat (texts (body_segment c p)) = d"
    using d(2) assms(2) by (cases "p_source p") (auto simp: body_slot_def body_segment_def texts_def)
  show "None \<notin> set (slot_segments c p)" "concat (texts (slot_segments c p)) = t"
    using b d(1) by (auto simp: slot_segments_def)
qed

lemma segments_texts:
  "list_all2 (slot_of c) ps ts \<Longrightarrow> \<forall>p \<in> set ps. p_source p \<noteq> SrcFile \<Longrightarrow>
     None \<notin> set (concat (map (slot_segments c) ps)) \<and> concat (texts (concat (map (slot_segments c) ps))) = concat ts"
proof (induction rule: list_all2_induct)
  case (Cons p ps t ts)
  then show ?case using segments_text[of c p t] by auto
qed simp

lemma build_iovecs_slots:
  assumes "list_all2 (slot_of c) (take (j - i) (drop i (co_pending c))) ts"
    "\<forall>p \<in> set (take (j - i) (drop i (co_pending c))). p_source p \<noteq> SrcFile" "length (co_pending c) \<le> kMaxPending"
  shows "\<exists>iov. build_iovecs i j c = (iov, c) \<and> concat iov = concat ts"
proof -
  let ?ps = "take (j - i) (drop i (co_pending c))"
  have g: "gather c ?ps [] = (concat (map (slot_segments c) ?ps), False)"
    using gather_all[of "[]" ?ps c] assms(3) by (simp add: kMaxPendingIov_def kMaxPending_def)
  note S = segments_texts[OF assms(1,2)]
  have "build_iovecs i j c = (texts (concat (map (slot_segments c) ?ps)), c)"
    unfolding build_iovecs_def g using S by (simp add: texts_def)
  then show ?thesis using S by blast
qed

lemma flush_buffers_wrote:
  assumes "flush_buffers os i j c = (r, c')" "list_all2 (slot_of c) (take (j - i) (drop i (co_pending c))) ts"
    "\<forall>p \<in> set (take (j - i) (drop i (co_pending c))). p_source p \<noteq> SrcFile" "length (co_pending c) \<le> kMaxPending"
  shows "wrote (co_net c) (concat ts) r (co_net c')" "co_pending c' = co_pending c" "co_head c' = co_head c"
    "co_resp c' = co_resp c" "co_world c' = co_world c"
proof -
  obtain iov where iov: "build_iovecs i j c = (iov, c)" "concat iov = concat ts" using build_iovecs_slots[OF assms(2-4)] by blast
  then have w: "conn_writev_span os iov c = (r, c')" using assms(1) by (simp add: flush_buffers_def)
  show "wrote (co_net c) (concat ts) r (co_net c')" using wrote_span[OF w] iov(2) by simp
  show "co_pending c' = co_pending c" "co_head c' = co_head c" "co_resp c' = co_resp c" "co_world c' = co_world c"
    using span_keeps[OF w] by simp_all
qed

lemma flush_file_wrote:
  assumes "flush_file os i c = (r, c')" "slot_of c (co_pending c ! i) t" "p_source (co_pending c ! i) = SrcFile" "\<not> w_fault (co_world c)"
    "i < length (co_pending c)"
  shows "wrote (co_net c) t r (co_net c')" "co_head c' = co_head c" "co_resp c' = co_resp c"
    "drop (Suc i) (co_pending c') = drop (Suc i) (co_pending c)" "length (co_pending c') = length (co_pending c)"
    "w_objs (co_world c') = w_objs (co_world c)" "\<not> w_fault (co_world c')"
    "\<And>fd. p_file_fd (co_pending c ! i) \<noteq> Some fd \<Longrightarrow> w_fds (co_world c') fd = w_fds (co_world c) fd"
proof -
  let ?p = "co_pending c ! i"
  obtain fd tx where f: "p_file_fd ?p = Some fd" "w_fds (co_world c) fd = Some tx" "p_file_pos ?p = 0"
    "t = concat (head_segments c ?p) @ take (p_body_len ?p) tx"
    using assms(2,3) by (auto simp: slot_of_def slot_rel_def body_slot_def head_segments_text)
  obtain a c1 where hv: "(if head_segments c ?p \<noteq> [] then conn_writev_span os (head_segments c ?p) c else (Inr (), c)) = (a, c1)" by fastforce
  have w1: "wrote (co_net c) (concat (head_segments c ?p)) a (co_net c1)" and
    k1: "co_resp c1 = co_resp c" "co_world c1 = co_world c" "co_head c1 = co_head c" "co_pending c1 = co_pending c"
    using hv wrote_span[of os _ c a c1] span_keeps[of os _ c a c1] wrote_nil by (auto split: if_splits)
  have A: "wrote (co_net c) t r (co_net c') \<and> co_head c' = co_head c \<and> co_resp c' = co_resp c \<and>
    drop (Suc i) (co_pending c') = drop (Suc i) (co_pending c) \<and> length (co_pending c') = length (co_pending c) \<and>
    w_objs (co_world c') = w_objs (co_world c) \<and> \<not> w_fault (co_world c') \<and>
    (\<forall>x. x \<noteq> fd \<longrightarrow> w_fds (co_world c') x = w_fds (co_world c) x)"
  proof (cases a)
    case (Inl e)
    then have "c' = c1" "r = Inl e" using assms(1) hv by (auto simp: flush_file_def Let_def)
    then show ?thesis using w1 k1 assms(4) wrote_error[of _ "concat (head_segments c ?p)"] f(4) Inl by auto
  next
    case (Inr u)
    then have s: "send_file_body os i c1 = (r, c')" using assms(1) hv by (simp add: flush_file_def Let_def)
    obtain n where n: "c' = c1\<lparr>co_net := n, co_world := close_fd fd (co_world c1),
        co_pending := (co_pending c1)[i := ?p\<lparr>p_file_fd := None, p_source := SrcNone\<rparr>]\<rparr>"
      and w2: "wrote (co_net c1) (take (p_body_len ?p) tx) r n"
    proof -
      obtain b n where bn: "transmit_file os tx 0 (p_body_len ?p) (co_net c1) = (b, n)" by fastforce
      have "wrote (co_net c1) (take (p_body_len ?p) tx) b n"
        using bn send_file_wrote[of os _ tx 0 "p_body_len ?p" "co_net c1" b n]
        by (auto simp: transmit_file_def stream_file_over_tls_def splice_file_to_socket_def split: if_splits intro: wrote_Inl)
      then show ?thesis using s bn f(1,2,3) k1 that by (auto simp: send_file_body_def Let_def file_text_def)
    qed
    have "wrote (co_net c) t r (co_net c')" using wrote_trans[OF w1[unfolded Inr] w2] f(4) n by simp
    then show ?thesis using n k1 f(2) assms(4,5) by (auto simp: close_fd_def)
  qed
  show "wrote (co_net c) t r (co_net c')" "co_head c' = co_head c" "co_resp c' = co_resp c"
    "drop (Suc i) (co_pending c') = drop (Suc i) (co_pending c)" "length (co_pending c') = length (co_pending c)"
    "w_objs (co_world c') = w_objs (co_world c)" "\<not> w_fault (co_world c')" using A by blast+
  show "w_fds (co_world c') x = w_fds (co_world c) x" if "p_file_fd ?p \<noteq> Some x" for x using A that f(1) by auto
qed

definition rest_ok :: "conn_out \<Rightarrow> nat \<Rightarrow> string list \<Rightarrow> bool" where
  "rest_ok c i ts \<longleftrightarrow> \<not> w_fault (co_world c) \<and> list_all2 (slot_of c) (drop i (co_pending c)) ts \<and>
     distinct (batch_fds (drop i (co_pending c))) \<and> length (co_pending c) \<le> kMaxPending"

lemma slot_of_cong:
  assumes "slot_of c p t" "co_head c' = co_head c" "co_resp c' = co_resp c" "w_objs (co_world c') = w_objs (co_world c)"
    "\<And>fd. p_file_fd p = Some fd \<Longrightarrow> w_fds (co_world c') fd = w_fds (co_world c) fd"
  shows "slot_of c' p t"
  using slot_rel_mono[of _ _ _ "co_world c" p t "co_world c'" "[]" "[]" "[]"] assms by (simp add: slot_of_def same_for_def)

lemma next_file_facts:
  assumes "j = next_file i c" "i \<le> length (co_pending c)"
  shows "i \<le> j" "j \<le> length (co_pending c)" "\<forall>p \<in> set (take (j - i) (drop i (co_pending c))). p_source p \<noteq> SrcFile"
    "j < length (co_pending c) \<Longrightarrow> p_source (co_pending c ! j) = SrcFile"
proof -
  let ?P = "\<lambda>p. p_source p \<noteq> SrcFile" and ?l = "drop i (co_pending c)"
  have j: "j - i = length (takeWhile ?P ?l)" "i \<le> j" using assms(1) by (simp_all add: next_file_def)
  show "i \<le> j" by (rule j(2))
  show "j \<le> length (co_pending c)" using length_takeWhile_le[of ?P ?l] j assms(2) by simp
  show "\<forall>p \<in> set (take (j - i) ?l). p_source p \<noteq> SrcFile"
    unfolding j(1) by (metis set_takeWhileD takeWhile_eq_take)
  show "p_source (co_pending c ! j) = SrcFile" if "j < length (co_pending c)"
  proof -
    have e: "j = i + length (takeWhile ?P ?l)" using assms(1) by (simp add: next_file_def)
    show ?thesis using nth_length_takeWhile[of ?P ?l] that assms(2) unfolding e by (simp add: nth_drop)
  qed
qed

lemma flush_file_rest:
  assumes "flush_file os j c = (r, c')" "rest_ok c j (t # ts)" "p_source (co_pending c ! j) = SrcFile" "j < length (co_pending c)"
  shows "wrote (co_net c) t r (co_net c')" "rest_ok c' (Suc j) ts"
proof -
  have ps: "drop j (co_pending c) = co_pending c ! j # drop (Suc j) (co_pending c)" using assms(4) by (rule Cons_nth_drop_Suc[symmetric])
  have R: "\<not> w_fault (co_world c)" "slot_of c (co_pending c ! j) t" "list_all2 (slot_of c) (drop (Suc j) (co_pending c)) ts"
    "distinct (slot_fds (co_pending c ! j) @ batch_fds (drop (Suc j) (co_pending c)))" "length (co_pending c) \<le> kMaxPending"
    using assms(2) unfolding rest_ok_def ps by (auto simp: batch_fds_def)
  note F = flush_file_wrote[OF assms(1) R(2) assms(3) R(1) assms(4)]
  show "wrote (co_net c) t r (co_net c')" by (rule F(1))
  have "slot_of c' p s" if "slot_of c p s" "p \<in> set (drop (Suc j) (co_pending c))" for p s
  proof (rule slot_of_cong[OF that(1) F(2,3,6)])
    fix fd assume "p_file_fd p = Some fd"
    then have "fd \<in> set (batch_fds (drop (Suc j) (co_pending c)))"
      using that(2) by (force simp: batch_fds_def slot_fds_def lease_ids_def)
    then have "p_file_fd (co_pending c ! j) \<noteq> Some fd" using R(4) by (auto simp: slot_fds_def lease_ids_def)
    then show "w_fds (co_world c') fd = w_fds (co_world c) fd" by (rule F(8))
  qed
  then have "list_all2 (slot_of c') (drop (Suc j) (co_pending c')) ts"
    unfolding F(4) by (rule list.rel_mono_strong[OF R(3)])
  then show "rest_ok c' (Suc j) ts" unfolding rest_ok_def using F(4,5,7) R(4,5) by simp
qed

lemma rest_split:
  assumes "rest_ok c i ts" "i \<le> j"
  shows "\<exists>ts1 ts2. ts = ts1 @ ts2 \<and> list_all2 (slot_of c) (take (j - i) (drop i (co_pending c))) ts1 \<and> rest_ok c j ts2"
proof -
  have e: "drop i (co_pending c) = take (j - i) (drop i (co_pending c)) @ drop j (co_pending c)"
    using assms(2) by (metis append_take_drop_id drop_drop le_add_diff_inverse2)
  obtain ts1 ts2 where "ts = ts1 @ ts2" "list_all2 (slot_of c) (take (j - i) (drop i (co_pending c))) ts1"
    "list_all2 (slot_of c) (drop j (co_pending c)) ts2"
    using assms(1) e unfolding rest_ok_def by (metis list_all2_append1)
  moreover have "distinct (batch_fds (drop j (co_pending c)))"
    using assms(1) e unfolding rest_ok_def by (metis batch_fds_def concat_append distinct_append map_append)
  ultimately show ?thesis using assms(1) unfolding rest_ok_def by blast
qed

lemma flush_slow_wrote:
  "flush_slow os i c = (r, c') \<Longrightarrow> rest_ok c i ts \<Longrightarrow> i \<le> length (co_pending c) \<Longrightarrow>
     wrote (co_net c) (concat ts) r (co_net c') \<and> \<not> w_fault (co_world c')"
proof (induction os i c arbitrary: r c' ts rule: flush_slow.induct)
  case (1 os i c)
  note R = "1.prems"(2)[unfolded rest_ok_def]
  show ?case
  proof (cases "i < length (co_pending c)")
    case False
    then have "ts = []" "c' = c" "r = Inr ()" using "1.prems"(1) R by (simp_all add: flush_slow.simps[of os i c])
    then show ?thesis using R by (simp add: wrote_nil)
  next
    case True
    define j where "j = next_file i c"
    note J = next_file_facts[OF j_def "1.prems"(3)]
    obtain a c1 where b: "(if j > i then flush_buffers os i j c else (Inr (), c)) = (a, c1)" by fastforce
    obtain ts1 ts2 where ts: "ts = ts1 @ ts2" "list_all2 (slot_of c) (take (j - i) (drop i (co_pending c))) ts1" "rest_ok c j ts2"
      using rest_split[OF "1.prems"(2) J(1)] by blast
    have W: "wrote (co_net c) (concat ts1) a (co_net c1)" and
      K: "co_pending c1 = co_pending c" "co_head c1 = co_head c" "co_resp c1 = co_resp c" "co_world c1 = co_world c"
      using b flush_buffers_wrote[OF _ ts(2) J(3)] R ts(2) by (auto split: if_splits intro: wrote_nil)
    have so: "slot_of c1 = slot_of c" by (simp add: slot_of_def fun_eq_iff K)
    show ?thesis
    proof (cases a)
      case (Inl e)
      then have "r = Inl e" "c' = c1" using "1.prems"(1) True b by (auto simp: flush_slow.simps[of os i c] Let_def j_def[symmetric])
      then show ?thesis using wrote_error[OF W[unfolded Inl]] ts(1) K R by simp
    next
      case (Inr u)
      show ?thesis
      proof (cases "j < length (co_pending c)")
        case False
        then have "r = Inr ()" "c' = c1" "ts2 = []"
          using "1.prems"(1) True b Inr K ts(3) by (auto simp: rest_ok_def flush_slow.simps[of os i c] Let_def j_def[symmetric])
        then show ?thesis using W Inr K R ts(1) by simp
      next
        case jl: True
        obtain t ts3 where t: "ts2 = t # ts3" using ts(3) jl by (cases ts2) (auto simp: rest_ok_def)
        obtain a2 c2 where ff: "flush_file os j c1 = (a2, c2)" by fastforce
        have ro: "rest_ok c1 j (t # ts3)" using ts(3) t by (simp add: rest_ok_def so K)
        note F = flush_file_rest[OF ff ro] 
        have F1: "wrote (co_net c1) t a2 (co_net c2)" "rest_ok c2 (Suc j) ts3" "length (co_pending c2) = length (co_pending c)"
          using F jl J(4) flush_file_pending[OF ff] by (simp_all add: K)
        have W2: "wrote (co_net c) (concat ts1 @ t) a2 (co_net c2)" using wrote_trans[OF W[unfolded Inr] F1(1)] .
        show ?thesis
        proof (cases a2)
          case e: (Inl e)
          then have "r = Inl e" "c' = c2" using "1.prems"(1) True b Inr jl ff K by (auto simp: flush_slow.simps[of os i c] Let_def j_def[symmetric])
          then show ?thesis using wrote_error[OF W2[unfolded e], of "concat ts3"] ts(1) t F1(2) by (simp add: rest_ok_def)
        next
          case v: (Inr v)
          have fs: "flush_slow os (j + 1) c2 = (r, c')"
            using "1.prems"(1) True b Inr jl ff K v by (simp add: flush_slow.simps[of os i c] Let_def j_def[symmetric])
          have jl1: "j < length (co_pending c1)" using jl K by simp
          have "wrote (co_net c2) (concat ts3) r (co_net c') \<and> \<not> w_fault (co_world c')"
            using "1.IH"[OF True j_def b[symmetric] refl Inr jl1 ff[symmetric] v fs, of ts3] F1(2,3) jl by simp
          then have "wrote (co_net c) ((concat ts1 @ t) @ concat ts3) r (co_net c') \<and> \<not> w_fault (co_world c')"
            using wrote_trans[OF W2[unfolded v]] by blast
          then show ?thesis using ts(1) t by simp
        qed
      qed
    qed
  qed
qed

lemma flush_wrote:
  assumes "flush os c = (r, c')" "conn_inv c ts" "length (co_pending c) \<le> kMaxPending"
  shows "wrote (co_net c) (concat ts) r (co_net c') \<and> \<not> w_fault (co_world c')"
proof -
  note I = conn_invD[OF assms(2)]
  have ro: "rest_ok c 0 ts" using I(1,4,6) assms(3) by (auto simp: rest_ok_def slot_of_def owner_ok_def world_ok_def)
  have nf: "\<not> w_fault (co_world c)" using ro by (simp add: rest_ok_def)
  show ?thesis
  proof (cases "co_pending c = []")
    case True
    then show ?thesis using assms(1) I(4) nf by (auto simp: flush_def intro: wrote_nil)
  next
    case False
    show ?thesis
    proof (cases "out_good c")
      case False': False
      then show ?thesis using assms(1) False nf by (auto simp: flush_def out_good_def intro: wrote_Inl split: if_splits)
    next
      case True
      note J = next_file_facts[OF refl, of 0 c]
      show ?thesis
      proof (cases "next_file 0 c = length (co_pending c)")
        case e: True
        then have f: "flush_buffers os 0 (length (co_pending c)) c = (r, c')" using assms(1) False True by (simp add: flush_def out_good_def)
        show ?thesis using flush_buffers_wrote[OF f, of ts] ro J(3) e assms(3) nf by (simp add: rest_ok_def)
      next
        case False'': False
        then have "flush_slow os 0 c = (r, c')" using assms(1) False True by (simp add: flush_def out_good_def)
        then show ?thesis using flush_slow_wrote[OF _ ro] by simp
      qed
    qed
  qed
qed

text \<open>What a flush leaves alone, for the reset that follows it.\<close>

definition flush_keeps :: "conn_out \<Rightarrow> conn_out \<Rightarrow> bool" where
  "flush_keeps c c' \<longleftrightarrow> co_resp c' = co_resp c \<and> w_objs (co_world c') = w_objs (co_world c) \<and>
     w_next (co_world c') = w_next (co_world c) \<and> w_next_fd (co_world c') = w_next_fd (co_world c) \<and>
     (\<forall>fd. w_fds (co_world c) fd = None \<longrightarrow> w_fds (co_world c') fd = None) \<and>
     batch_ids (co_pending c') = batch_ids (co_pending c) \<and> co_closing c' = co_closing c"

lemma flush_keeps_trans: "flush_keeps a b \<Longrightarrow> flush_keeps b c \<Longrightarrow> flush_keeps a c"
  by (simp add: flush_keeps_def)

lemma flush_keeps_span: "conn_writev_span os iov c = (r, c') \<Longrightarrow> flush_keeps c c'"
  by (auto simp: conn_writev_span_def flush_keeps_def split: prod.splits)

lemma flush_keeps_buffers: "flush_buffers os i j c = (r, c') \<Longrightarrow> flush_keeps c c'"
  by (auto simp: flush_buffers_def build_iovecs_def Let_def split: prod.splits if_splits dest!: flush_keeps_span)
    (auto simp: flush_keeps_def)

lemma batch_ids_update: "i < length ps \<Longrightarrow> pending_ids p = pending_ids (ps ! i) \<Longrightarrow> batch_ids (ps[i := p]) = batch_ids ps"
  unfolding batch_ids_def by (metis list_update_id map_update)

lemma flush_keeps_file: "i < length (co_pending c) \<Longrightarrow> flush_file os i c = (r, c') \<Longrightarrow> flush_keeps c c'"
proof -
  assume i: "i < length (co_pending c)" and f: "flush_file os i c = (r, c')"
  have body: "flush_keeps c1 c2" if "send_file_body os i c1 = (x, c2)" "i < length (co_pending c1)" for c1 c2 x
    using that by (auto simp: send_file_body_def Let_def flush_keeps_def close_fd_def batch_ids_update pending_ids_def split: prod.splits)
  obtain a c1 where h: "(if head_segments c (co_pending c ! i) \<noteq> [] then conn_writev_span os (head_segments c (co_pending c ! i)) c else (Inr (), c)) = (a, c1)"
    by fastforce
  have k: "flush_keeps c c1" "co_pending c1 = co_pending c" using h flush_keeps_span conn_writev_span_pending
    by (auto split: if_splits simp: flush_keeps_def)
  show ?thesis using f h k i body[of c1 r c'] by (cases a) (auto simp: flush_file_def Let_def intro: flush_keeps_trans)
qed

lemma flush_keeps_slow: "flush_slow os i c = (r, c') \<Longrightarrow> i \<le> length (co_pending c) \<Longrightarrow> flush_keeps c c'"
proof (induction os i c arbitrary: r c' rule: flush_slow.induct)
  case (1 os i c)
  show ?case
  proof (cases "i < length (co_pending c)")
    case False
    then show ?thesis using "1.prems"(1) by (simp add: flush_slow.simps[of os i c] flush_keeps_def)
  next
    case True
    define j where "j = next_file i c"
    obtain a c1 where b: "(if j > i then flush_buffers os i j c else (Inr (), c)) = (a, c1)" by fastforce
    have k: "flush_keeps c c1" "co_pending c1 = co_pending c" using b flush_keeps_buffers flush_buffers_pending
      by (auto split: if_splits simp: flush_keeps_def)
    show ?thesis
    proof (cases "a = Inr () \<and> j < length (co_pending c1)")
      case False
      then have "c' = c1" using "1.prems"(1) True b by (cases a) (auto simp: flush_slow.simps[of os i c] Let_def j_def[symmetric])
      then show ?thesis using k by simp
    next
      case J: True
      obtain a2 c2 where ff: "flush_file os j c1 = (a2, c2)" by fastforce
      have k2: "flush_keeps c c2" using flush_keeps_trans[OF k(1) flush_keeps_file[OF _ ff]] J by blast
      show ?thesis
      proof (cases a2)
        case (Inl e)
        then show ?thesis using "1.prems"(1) True b J ff k2 by (auto simp: flush_slow.simps[of os i c] Let_def j_def[symmetric])
      next
        case (Inr v)
        have "flush_slow os (j + 1) c2 = (r, c')" using "1.prems"(1) True b J ff Inr by (simp add: flush_slow.simps[of os i c] Let_def j_def[symmetric])
        then have "flush_keeps c2 c'"
          using "1.IH"[OF True j_def b[symmetric] refl conjunct1[OF J] conjunct2[OF J] ff[symmetric] Inr] J flush_file_pending[OF ff] by simp
        then show ?thesis by (rule flush_keeps_trans[OF k2])
      qed
    qed
  qed
qed

lemma flush_keeps_flush: "flush os c = (r, c') \<Longrightarrow> flush_keeps c c'"
  by (auto simp: flush_def split: if_splits intro: flush_keeps_buffers flush_keeps_slow) (auto simp: flush_keeps_def)

subsection \<open>A failed buffer stays failed\<close>

definition buf_le :: "out_buffer_t option \<Rightarrow> out_buffer_t option \<Rightarrow> bool" where
  "buf_le a b \<longleftrightarrow> (\<forall>x. a = Some x \<longrightarrow> (\<exists>y. b = Some y \<and> (failed x \<longrightarrow> failed y)))"

definition resp_le :: "rstate \<Rightarrow> rstate \<Rightarrow> bool" where
  "resp_le s s' \<longleftrightarrow> buf_le (rs_hdr (fst s)) (rs_hdr (fst s')) \<and> buf_le (rs_body_out (fst s)) (rs_body_out (fst s'))"

lemma buf_le_refl [simp]: "buf_le a a" by (simp add: buf_le_def)

lemma buf_le_trans: "buf_le a b \<Longrightarrow> buf_le b c \<Longrightarrow> buf_le a c" unfolding buf_le_def by metis

lemma resp_le_trans: "resp_le a b \<Longrightarrow> resp_le b c \<Longrightarrow> resp_le a c"
  unfolding resp_le_def using buf_le_trans by blast

lemma put_failed: "failed b \<Longrightarrow> failed (put_bytes s n b)" "failed b \<Longrightarrow> failed (put s b)" "failed b \<Longrightarrow> failed (put_crlf b)"
    "failed b \<Longrightarrow> failed (put_u64 v b)" "failed b \<Longrightarrow> failed (fail e b)" "failed b \<Longrightarrow> failed (put_prefix f b)"
  by (simp_all add: failed_def put_bytes_def put_def put_crlf_def put_u64_def fail_def put_prefix_def split: option.splits)

lemma header_failed: "failed b \<Longrightarrow> failed (header_field f v b)" "failed b \<Longrightarrow> failed (header_named n v b)"
    "failed b \<Longrightarrow> failed (header_u64 f u b)"
  by (simp_all add: header_field_def header_named_def header_u64_def put_failed)

lemma resp_le_line: "(\<And>b. failed b \<Longrightarrow> failed (e b)) \<Longrightarrow> resp_le (r, w) (stage_line e f r, w')"
  by (auto simp: resp_le_def buf_le_def stage_line_def split: option.splits)

lemma resp_le_body: "resp_le s (response_body d s)"
  by (auto simp: resp_le_def buf_le_def response_body_def pin_def new_obj_def Let_def put_failed split: prod.splits option.splits)

lemma resp_le_text: "resp_le (r, w) (response_body t (response_header ContentType k (set_status c r), w))"
    "resp_le (r, w) (response_body t (response_header ContentType k r, w))"
proof -
  have "resp_le (r, w) (response_header ContentType k (set_status c r), w)"
    by (auto simp: response_header_def resp_le_def buf_le_def stage_line_def set_status_def header_failed split: option.splits)
  then show "resp_le (r, w) (response_body t (response_header ContentType k (set_status c r), w))"
    using resp_le_body resp_le_trans by blast
  have "resp_le (r, w) (response_header ContentType k r, w)" unfolding response_header_def by (rule resp_le_line) (rule header_failed)
  then show "resp_le (r, w) (response_body t (response_header ContentType k r, w))" using resp_le_body resp_le_trans by blast
qed

lemma resp_le_not_found: "resp_le (r, w) (not_found (r, w'))"
  using resp_le_text(1)[of r w' "''Not Found''" "''text/plain; charset=utf-8''" 404]
  by (simp add: not_found_def response_text_def resp_le_def)

lemma resp_le_call: "resp_le (r, w) (do_call fs c (r, w))"
proof (cases c)
  case (Call_body_owned l n)
  then show ?thesis by (cases l) (auto simp: resp_le_def response_body_owned_def new_obj_def)
next
  case (Call_local_file p)
  then show ?thesis using resp_le_not_found[of r w]
    by (auto simp: local_file_def open_file_def resp_le_def split: option.splits)
next
  case (Call_text t)
  then show ?thesis by (simp add: response_text_def resp_le_text)
next
  case (Call_json t)
  then show ?thesis by (simp add: response_json_def resp_le_text)
next
  case (Call_html t)
  then show ?thesis by (simp add: response_html_def resp_le_text)
next
  case Call_not_found
  then show ?thesis by (simp add: resp_le_not_found)
next
  case (Call_body d)
  then show ?thesis by (simp add: resp_le_body)
qed (auto simp: resp_le_def set_status_def response_body_static_def pin_def new_obj_def redirect_def response_header_def
    response_header_named_def response_header_u64_def stage_line_def buf_le_def header_failed split: option.splits)

lemma resp_le_calls: "resp_le s (fold (do_call fs) cs s)"
proof (induction cs arbitrary: s)
  case (Cons c cs)
  show ?case using resp_le_trans[OF resp_le_call Cons.IH] by (cases s) simp
qed (simp add: resp_le_def)

definition conn_le :: "conn_out \<Rightarrow> conn_out \<Rightarrow> bool" where
  "conn_le c c' \<longleftrightarrow> resp_le (co_resp c, co_world c) (co_resp c', co_world c') \<and> (failed (co_head c) \<longrightarrow> failed (co_head c'))"

lemma conn_le_trans: "conn_le a b \<Longrightarrow> conn_le b c \<Longrightarrow> conn_le a c"
  by (auto simp: conn_le_def intro: resp_le_trans)

lemma conn_le_handled: "conn_le c (handled fs cs c)"
proof -
  have "resp_le (co_resp c, co_world c) (response_begin (co_resp c, co_world c))"
    by (auto simp: resp_le_def response_begin_def release_owned_def close_file_def split: prod.splits)
  then show ?thesis using resp_le_trans[OF _ resp_le_calls]
    by (simp add: conn_le_def handled_def handler_calls_def begin_exchange_def set_response_def)
qed

lemma conn_le_frame: "conn_le c (frame_response opt hr cl c)"
proof -
  obtain t where t: "appends (head_writer opt cl (seal_headers (co_resp c))) t" using appends_writer by blast
  have h: "failed (co_head c) \<Longrightarrow> failed (head_writer opt cl (seal_headers (co_resp c)) (co_head c))"
    using appendsD(1)[OF t] by blast
  have s: "buf_le (rs_hdr (co_resp c)) (rs_hdr (seal_headers (co_resp c)))"
    by (auto simp: buf_le_def seal_headers_def put_failed split: option.splits)
  show ?thesis using h s
    by (auto simp: conn_le_def resp_le_def frame_response_def frame_head_alt count_response_def take_body_def close_file_def
        put_failed Let_def split: prod.splits if_splits)
qed

lemma conn_le_error: "conn_le c (write_error opt hr s c)"
proof -
  obtain m where m: "write_error opt hr s c = (frame_response opt hr True (handled (\<lambda>_. None) (error_calls s) (c\<lparr>co_in_body := False\<rparr>)))
      \<lparr>co_close_after_flush := True, co_metrics := m\<rparr>"
    using write_error_alt[of opt hr s c "\<lambda>_. None"] by (auto simp: handled_def)
  have "conn_le c (frame_response opt hr True (handled (\<lambda>_. None) (error_calls s) (c\<lparr>co_in_body := False\<rparr>)))"
    using conn_le_trans[OF conn_le_handled[of "c\<lparr>co_in_body := False\<rparr>"] conn_le_frame] by (simp add: conn_le_def)
  then show ?thesis by (simp add: m conn_le_def)
qed

lemma conn_le_finish: "conn_le (handled fs (x_calls x) c) (serve opt fs x c)"
proof -
  let ?h = "handled fs (x_calls x) c"
  have src: "rs_source (co_resp ?h) \<noteq> SrcStreaming"
    using calls_not_streaming[of fs "x_calls x" "fst (response_begin (co_resp c, co_world c))" "snd (response_begin (co_resp c, co_world c))"]
    by (cases "fold (do_call fs) (x_calls x) (response_begin (co_resp c, co_world c))")
      (auto simp: handled_def handler_calls_def begin_exchange_def set_response_def response_begin_def split: prod.splits)
  show ?thesis
    using src conn_le_error[of ?h] conn_le_frame[of ?h]
    by (auto simp: serve_def handled_def[symmetric] finish_exchange_def needs_streaming_settlement_def Let_def conn_le_def)
qed

lemma conn_le_serve: "conn_le c (serve opt fs x c)"
  by (rule conn_le_trans[OF conn_le_handled conn_le_finish])

lemma conn_le_serves: "conn_le c (fold (serve opt fs) xs c)"
proof (induction xs arbitrary: c)
  case (Cons x xs)
  show ?case using conn_le_trans[OF conn_le_serve Cons.IH] by simp
qed (simp add: conn_le_def resp_le_def)

lemma out_good_back: "conn_le c c' \<Longrightarrow> out_good c' \<Longrightarrow> rs_hdr (co_resp c) \<noteq> None \<Longrightarrow> rs_body_out (co_resp c) \<noteq> None \<Longrightarrow> out_good c"
  by (auto simp: conn_le_def resp_le_def buf_le_def out_good_def)

subsection \<open>Rounds\<close>

definition conn_ready :: "conn_out \<Rightarrow> bool" where
  "conn_ready c \<longleftrightarrow> owner_ok (co_resp c, co_world c) \<and> rs_hdr (co_resp c) \<noteq> None \<and> rs_body_out (co_resp c) \<noteq> None \<and>
     rs_file_fd (co_resp c) = None \<and> co_pending c = [] \<and> \<not> co_closing c"

lemma serves_inv:
  assumes "conn_inv c ts" "rs_file_fd (co_resp c) = None" "\<not> co_closing c" "list_all (exchange_small fs) xs"
    "length (co_pending c) + length xs \<le> kMaxPending" "out_good (fold (serve opt fs) xs c)"
  shows "conn_inv (fold (serve opt fs) xs c) (ts @ map (exchange_text opt fs) xs) \<and>
    rs_file_fd (co_resp (fold (serve opt fs) xs c)) = None \<and> \<not> co_closing (fold (serve opt fs) xs c) \<and>
    length (co_pending (fold (serve opt fs) xs c)) \<le> kMaxPending"
  using assms
proof (induction xs arbitrary: c ts)
  case (Cons x xs)
  have b: "rs_hdr (co_resp (serve opt fs x c)) \<noteq> None" "rs_body_out (co_resp (serve opt fs x c)) \<noteq> None"
    using conn_le_serve[of c opt fs x] conn_invD(2,3)[OF Cons.prems(1)] by (auto simp: conn_le_def resp_le_def buf_le_def)
  have g: "out_good (serve opt fs x c)" by (rule out_good_back[OF conn_le_serves _ b]) (use Cons.prems(6) in simp)
  have l: "length (co_pending c) < kMaxPending" "exchange_small fs x" using Cons.prems(4,5) by simp_all
  note S = serve_inv[OF Cons.prems(1,3) l(2,1) g]
  show ?case using Cons.IH[OF S(1,3,4)] S(5) Cons.prems(4,5,6) by simp
qed simp

lemma drop_pendings_live:
  assumes "distinct (batch_ids ps)" "\<forall>i \<in> set (batch_ids ps). w_objs w i \<noteq> None"
  shows "fold drop_pending ps w = w\<lparr>w_objs := (\<lambda>i. if i \<in> set (batch_ids ps) then None else w_objs w i)\<rparr>"
proof -
  let ?ids = "concat (map (\<lambda>p. lease_ids (p_owned p) @ p_pinned p) ps)"
  have 1: "drop_pending p v = arena_clear (lease_ids (p_owned p) @ p_pinned p) v" for p v
    by (simp add: drop_pending_def arena_clear_def lease_drop_def lease_ids_def split: option.splits)
  have f: "fold drop_pending qs v = arena_clear (concat (map (\<lambda>p. lease_ids (p_owned p) @ p_pinned p) qs)) v" for qs v
    by (induction qs arbitrary: v) (simp_all add: arena_clear_def 1)
  have "mset ?ids = mset (batch_ids ps)" by (induction ps) (simp_all add: batch_ids_def pending_ids_def)
  then have "distinct ?ids" "set ?ids = set (batch_ids ps)" using assms(1) mset_eq_imp_distinct_iff mset_eq_setD by blast+
  then show ?thesis using arena_clear_live[of ?ids w] assms(2) by (simp add: f)
qed

lemma reset_ready:
  assumes "conn_inv c ts" "rs_file_fd (co_resp c) = None" "\<not> co_closing c" "flush_keeps c c'" "\<not> w_fault (co_world c')"
  shows "conn_ready (reset_round c')"
proof -
  note I = conn_invD[OF assms(1)]
  have k: "co_resp c' = co_resp c" "w_objs (co_world c') = w_objs (co_world c)" "batch_ids (co_pending c') = batch_ids (co_pending c)"
    "co_closing c' = co_closing c" "w_next (co_world c') = w_next (co_world c)" "w_next_fd (co_world c') = w_next_fd (co_world c)"
    "\<forall>fd. w_fds (co_world c) fd = None \<longrightarrow> w_fds (co_world c') fd = None"
    using assms(4) by (simp_all add: flush_keeps_def)
  have d: "fold drop_pending (co_pending c') (co_world c') = (co_world c')\<lparr>w_objs := (\<lambda>i. if i \<in> set (batch_ids (co_pending c)) then None
      else w_objs (co_world c) i)\<rparr>"
    using drop_pendings_live[of "co_pending c'" "co_world c'"] I(5,7) k by (simp cong: if_cong)
  obtain b where b: "rs_body_out (co_resp c) = Some b" using I(3) by blast
  have "ob_capacity b < 2 ^ 32" using I(1) b by (simp add: owner_ok_def)
  then have "owner_ok (co_resp (reset_round c'), co_world (reset_round c'))"
    using I(1,5) assms(2,5) k b by (auto simp: reset_round_def d owner_ok_def owned_ids_def world_ok_def out_clear_def)
  then show ?thesis using I(2,3) assms(2,3) k by (simp add: conn_ready_def reset_round_def)
qed

lemma net_handled [simp]: "co_net (handled fs cs c) = co_net c"
  by (simp add: handled_def handler_calls_def begin_exchange_def set_response_def)

lemma net_frame: "co_net (frame_response opt hr cl c) = co_net c"
  by (auto simp: frame_response_def frame_head_alt count_response_def take_body_def close_file_def Let_def split: prod.splits if_splits)

lemma net_error: "co_net (write_error opt hr s c) = co_net c"
proof -
  obtain m where "write_error opt hr s c = (frame_response opt hr True (handled (\<lambda>_. None) (error_calls s) (c\<lparr>co_in_body := False\<rparr>)))
      \<lparr>co_close_after_flush := True, co_metrics := m\<rparr>"
    using write_error_alt[of opt hr s c "\<lambda>_. None"] by (auto simp: handled_def)
  then show ?thesis by (simp add: net_frame)
qed

lemma net_serve: "co_net (serve opt fs x c) = co_net c"
  by (simp add: serve_def handled_def[symmetric] finish_exchange_def settle_streaming_def Let_def net_frame net_error)

lemma net_serves: "co_net (fold (serve opt fs) xs c) = co_net c"
  by (induction xs arbitrary: c) (simp_all add: net_serve)

definition fresh_response :: "nat \<Rightarrow> nat \<Rightarrow> response_t" where
  "fresh_response hdr body = \<lparr>rs_hdr = Some (out_reset hdr), rs_body_out = Some (out_reset body), rs_conn = True,
     rs_status = 200, rs_source = SrcNone, rs_hdr_off = 0, rs_hdr_end = 0, rs_body_off = 0, rs_body_len = 0,
     rs_external = View_text [], rs_owned = None, rs_file_fd = None, rs_file_size = 0, rs_saw_content_length = False,
     rs_saw_connection = False, rs_saw_date = False, rs_saw_transfer_encoding = False, rs_arena = [], rs_err = no_error\<rparr>"

definition fresh_world :: world where
  "fresh_world = \<lparr>w_objs = (\<lambda>_. None), w_next = 0, w_fds = (\<lambda>_. None), w_next_fd = 0, w_fault = False\<rparr>"

definition fresh_conn :: "nat \<Rightarrow> nat \<Rightarrow> nat \<Rightarrow> conn_out" where
  "fresh_conn head hdr body = \<lparr>co_resp = fresh_response hdr body, co_world = fresh_world, co_head = out_reset head,
     co_stream = out_reset body, co_pending = [], co_net = \<lparr>n_wire = [], n_calls = 0\<rparr>, co_close_after_flush = False,
     co_closing = False, co_in_body = False, co_streaming_write = False, co_headers_staged = False, co_stream_finished = False,
     co_metrics = \<lparr>cm_requests = 0, cm_responses = 0, cm_pipelined_batches = 0, cm_writev_calls = 0, cm_writev_partial = 0,
       cm_iov_batch_split = 0, cm_spill_used = 0, cm_protocol_errors = 0, cm_timeouts = 0, cm_tls_handshake_errors = 0\<rparr>\<rparr>"

lemma fresh_ready: "body < 2 ^ 32 \<Longrightarrow> conn_ready (fresh_conn head hdr body)"
  by (simp add: conn_ready_def fresh_conn_def fresh_response_def fresh_world_def owner_ok_def world_ok_def owned_ids_def lease_ids_def out_reset_def)

definition demo_options :: server_options where
  "demo_options = \<lparr>so_serve_date_header = False, so_serve_server_header = False, so_date = []\<rparr>"

definition demo_os :: os_t where
  "demo_os = \<lparr>os_socket = (\<lambda>_. Inr 100), os_file = (\<lambda>_. Inr 100), os_pipe = True, os_tls = False\<rparr>"

definition demo_files :: file_system where
  "demo_files path = (if path = ''f'' then Some \<lparr>f_text = ''file'', f_regular = True, f_size = 4\<rparr> else None)"

definition demo_round :: "exchange list" where
  "demo_round = [\<lparr>x_head = False, x_keep_alive = True, x_calls = [Call_body ''ab'']\<rparr>,
     \<lparr>x_head = False, x_keep_alive = False, x_calls = [Call_local_file ''f'']\<rparr>]"

lemma ready_inv: "conn_ready c \<Longrightarrow> conn_inv c []"
  by (auto simp: conn_ready_def conn_inv_def batch_ids_def batch_fds_def owner_ok_def lease_ids_def)

subsection \<open>Unsafe headers\<close>

fun unsafe_call :: "resp_call \<Rightarrow> bool" where
  "unsafe_call (Call_header f v) \<longleftrightarrow> has_crlf v"
| "unsafe_call (Call_header_named n v) \<longleftrightarrow> has_crlf n \<or> has_crlf v"
| "unsafe_call (Call_redirect l s) \<longleftrightarrow> has_crlf l"
| "unsafe_call _ \<longleftrightarrow> False"

definition hdr_failed :: "response_t \<Rightarrow> bool" where
  "hdr_failed r \<longleftrightarrow> (\<exists>b. rs_hdr r = Some b \<and> failed b)"

lemma unsafe_call_fails: "unsafe_call k \<Longrightarrow> rs_hdr r \<noteq> None \<Longrightarrow> hdr_failed (fst (do_call fs k (r, w)))"
  by (cases k) (auto simp: hdr_failed_def response_header_def response_header_named_def redirect_def set_status_def stage_line_def
    header_field_def header_named_def failed_fail split: option.splits)

lemma hdr_failed_le: "resp_le s s' \<Longrightarrow> hdr_failed (fst s) \<Longrightarrow> hdr_failed (fst s')"
  by (auto simp: resp_le_def buf_le_def hdr_failed_def)

lemma hdr_failed_conn: "conn_le c c' \<Longrightarrow> hdr_failed (co_resp c) \<Longrightarrow> hdr_failed (co_resp c')"
  using hdr_failed_le[of "(co_resp c, co_world c)" "(co_resp c', co_world c')"] by (simp add: conn_le_def)

lemma unsafe_calls_fail:
  assumes "rs_hdr (fst s) \<noteq> None" "\<exists>k \<in> set cs. unsafe_call k"
  shows "hdr_failed (fst (fold (do_call fs) cs s))"
proof -
  obtain as k bs where cs: "cs = as @ k # bs" "unsafe_call k" using assms(2) by (auto dest: split_list)
  obtain r w where s: "fold (do_call fs) as s = (r, w)" by fastforce
  have "rs_hdr r \<noteq> None" using resp_le_calls[of s fs as] assms(1) s by (auto simp: resp_le_def buf_le_def)
  then have "hdr_failed (fst (do_call fs k (r, w)))" using unsafe_call_fails cs(2) by blast
  then show ?thesis using hdr_failed_le[OF resp_le_calls[of _ fs bs]] cs(1) s by simp
qed

lemma unsafe_serve_fails:
  assumes "rs_hdr (co_resp c) \<noteq> None" "\<exists>k \<in> set (x_calls x). unsafe_call k"
  shows "hdr_failed (co_resp (serve opt fs x c))"
proof -
  have "rs_hdr (fst (response_begin (co_resp c, co_world c))) \<noteq> None"
    using assms(1) by (auto simp: response_begin_def release_owned_def close_file_def)
  then have "hdr_failed (co_resp (handled fs (x_calls x) c))"
    using unsafe_calls_fail[OF _ assms(2)] by (simp add: handled_def handler_calls_def begin_exchange_def set_response_def)
  then show ?thesis by (rule hdr_failed_conn[OF conn_le_finish])
qed

subsection \<open>Streamed responses on the wire\<close>
























subsection \<open>A round is delivered\<close>

text \<open>An environment that makes progress: every write takes something, every read gives something.\<close>

definition os_good :: "os_t \<Rightarrow> bool" where
  "os_good os \<longleftrightarrow> os_pipe os \<and> (\<forall>i. \<exists>g. os_socket os i = Inr g \<and> 0 < g) \<and> (\<forall>i. \<exists>g. os_file os i = Inr g \<and> 0 < g)"

definition file_whole :: "conn_out \<Rightarrow> pending_t \<Rightarrow> bool" where
  "file_whole c p \<longleftrightarrow> (p_source p = SrcFile \<longrightarrow> p_body_len p \<le> length (file_text (co_world c) (the (p_file_fd p))))"

lemma span_good:
  assumes "os_good os" "iov = [] \<or> concat iov \<noteq> []"
  shows "\<exists>c'. conn_writev_span os iov c = (Inr (), c')"
  using writev_all_total[of "os_socket os" iov "co_net c" writev_stat0] assms by (auto simp: os_good_def conn_writev_span_def)

lemma drain_run_good: "os_good os \<Longrightarrow> \<exists>n'. drain_run os s n = (Inr (), n')"
proof (induction os s n rule: drain_run.induct)
  case (1 os s n)
  obtain g where g: "os_socket os (n_calls n) = Inr g" "0 < g" using 1(2) by (auto simp: os_good_def)
  obtain m where m: "kernel_writev (os_socket os) [s] n = (Inr (min g (length s)), m)" using g by (auto simp: kernel_writev_def Let_def)
  show ?case using 1(1)[OF _ m[symmetric] refl] 1(2) m g by (cases "s = []") (auto simp: drain_run.simps[of os s] drain_run.simps[of os "[]"])
qed

lemma send_file_good: "os_good os \<Longrightarrow> len \<le> length (drop pos t) \<Longrightarrow> \<exists>n'. send_file os gone t pos len n = (Inr (), n')"
proof (induction os gone t pos len n rule: send_file.induct)
  case (1 os gone t pos len n)
  show ?case
  proof (cases "len = 0")
    case False
    obtain g where g: "os_file os (n_calls n) = Inr g" "0 < g" using 1(2) by (auto simp: os_good_def)
    let ?d = "take (min g (min len kChunk)) (drop pos t)"
    obtain m where m: "file_read os t pos (min len kChunk) n = (Inr ?d, m)" using g by (auto simp: file_read_def Let_def)
    have d: "?d \<noteq> []" "length ?d \<le> len" using g False 1(3) by (auto simp: kChunk_def)
    obtain q where q: "drain_run os ?d m = (Inr (), q)" using drain_run_good[OF 1(2)] by blast
    have "\<exists>n'. send_file os gone t (pos + length ?d) (len - length ?d) q = (Inr (), n')"
      by (rule 1(1)[OF False m[symmetric] refl d(1) q[symmetric] refl 1(2)]) (use 1(3) in simp)
    then show ?thesis using False m d q by (simp add: send_file.simps[of os gone t pos len])
  qed (simp add: send_file.simps)
qed

lemma flush_file_good:
  assumes "os_good os" "slot_of c (co_pending c ! i) t" "p_source (co_pending c ! i) = SrcFile" "file_whole c (co_pending c ! i)"
  shows "\<exists>c'. flush_file os i c = (Inr (), c')"
proof -
  let ?p = "co_pending c ! i"
  have "concat (head_segments c ?p) \<noteq> []" if "head_segments c ?p \<noteq> []"
    using that assms(2) by (auto simp: head_segments_def slot_of_def slot_rel_def substr_def split: if_splits)
  then obtain c1 where c1: "(if head_segments c ?p \<noteq> [] then conn_writev_span os (head_segments c ?p) c else (Inr (), c)) = (Inr (), c1)"
    "co_world c1 = co_world c" "co_pending c1 = co_pending c"
    using span_good[OF assms(1), of "head_segments c ?p" c] span_keeps(2,4) by (metis (full_types))
  have "p_file_pos ?p = 0" using assms(2,3) by (auto simp: slot_of_def slot_rel_def body_slot_def)
  then have "\<exists>n. transmit_file os (file_text (co_world c) (the (p_file_fd ?p))) (p_file_pos ?p) (p_body_len ?p) (co_net c1) = (Inr (), n)"
    using send_file_good[OF assms(1)] assms(1,3,4)
    by (simp add: transmit_file_def stream_file_over_tls_def splice_file_to_socket_def os_good_def file_whole_def)
  then show ?thesis using c1 by (auto simp: flush_file_def send_file_body_def Let_def)
qed

lemma flush_buffers_good:
  assumes "os_good os" "list_all2 (slot_of c) (take (j - i) (drop i (co_pending c))) ts"
    "\<forall>p \<in> set (take (j - i) (drop i (co_pending c))). p_source p \<noteq> SrcFile" "length (co_pending c) \<le> kMaxPending" "concat ts \<noteq> []"
  shows "\<exists>c'. flush_buffers os i j c = (Inr (), c')"
proof -
  obtain iov where "build_iovecs i j c = (iov, c)" "concat iov = concat ts" using build_iovecs_slots[OF assms(2-4)] by blast
  then show ?thesis using span_good[OF assms(1), of iov c] assms(5) by (simp add: flush_buffers_def)
qed

lemma flush_file_whole:
  assumes "flush_file os j c = (r, c')" "rest_ok c j (t # ts)" "p_source (co_pending c ! j) = SrcFile" "j < length (co_pending c)"
    and "\<forall>p \<in> set (drop (Suc j) (co_pending c)). file_whole c p"
  shows "\<forall>p \<in> set (drop (Suc j) (co_pending c')). file_whole c' p"
proof -
  have ps: "drop j (co_pending c) = co_pending c ! j # drop (Suc j) (co_pending c)" using assms(4) by (rule Cons_nth_drop_Suc[symmetric])
  have R: "\<not> w_fault (co_world c)" "slot_of c (co_pending c ! j) t" "list_all2 (slot_of c) (drop (Suc j) (co_pending c)) ts"
    "distinct (slot_fds (co_pending c ! j) @ batch_fds (drop (Suc j) (co_pending c)))"
    using assms(2) unfolding rest_ok_def ps by (auto simp: batch_fds_def)
  note F = flush_file_wrote[OF assms(1) R(2) assms(3) R(1) assms(4)]
  have "file_whole c' p" if p: "p \<in> set (drop (Suc j) (co_pending c))" for p
  proof (cases "p_source p = SrcFile")
    case True
    obtain s where "slot_of c p s" using R(3) p by (auto simp: list_all2_conv_all_nth in_set_conv_nth)
    then obtain fd where fd: "p_file_fd p = Some fd" using True by (auto simp: slot_of_def slot_rel_def body_slot_def)
    then have "fd \<in> set (batch_fds (drop (Suc j) (co_pending c)))" using p by (force simp: batch_fds_def slot_fds_def lease_ids_def)
    then have "w_fds (co_world c') fd = w_fds (co_world c) fd" using R(4) by (intro F(8)) (auto simp: slot_fds_def lease_ids_def)
    then show ?thesis using assms(5) p fd by (auto simp: file_whole_def file_text_def)
  qed (simp add: file_whole_def)
  then show ?thesis by (simp add: F(4))
qed

lemma flush_slow_good:
  "os_good os \<Longrightarrow> rest_ok c i ts \<Longrightarrow> i \<le> length (co_pending c) \<Longrightarrow> \<forall>p \<in> set (drop i (co_pending c)). file_whole c p \<Longrightarrow>
     [] \<notin> set ts \<Longrightarrow> \<exists>c'. flush_slow os i c = (Inr (), c')"
proof (induction os i c arbitrary: ts rule: flush_slow.induct)
  case (1 os i c)
  note R = "1.prems"(2)[unfolded rest_ok_def]
  show ?case
  proof (cases "i < length (co_pending c)")
    case True
    define j where "j = next_file i c"
    note J = next_file_facts[OF j_def "1.prems"(3)]
    obtain ts1 ts2 where ts: "ts = ts1 @ ts2" "list_all2 (slot_of c) (take (j - i) (drop i (co_pending c))) ts1" "rest_ok c j ts2"
      using rest_split[OF "1.prems"(2) J(1)] by blast
    have ne1: "concat ts1 \<noteq> []" if "j > i"
      using that ts(1,2) True "1.prems"(5) J(2) by (cases ts1) (auto simp: take_Cons' dest: list_all2_lengthD)
    have len: "length (co_pending c) \<le> kMaxPending" using R by simp
    have "j > i \<Longrightarrow> \<exists>c1. flush_buffers os i j c = (Inr (), c1)" using flush_buffers_good[OF "1.prems"(1) ts(2) J(3) len ne1] by blast
    then obtain c1 where b: "(if j > i then flush_buffers os i j c else (Inr (), c)) = (Inr (), c1)" by (cases "j > i") auto
    have K: "co_pending c1 = co_pending c" "co_head c1 = co_head c" "co_resp c1 = co_resp c" "co_world c1 = co_world c"
      using b flush_buffers_wrote[OF _ ts(2) J(3)] R by (auto split: if_splits)
    have so: "slot_of c1 = slot_of c" "file_whole c1 = file_whole c" by (simp_all add: slot_of_def file_whole_def fun_eq_iff K)
    show ?thesis
    proof (cases "j < length (co_pending c)")
      case False
      then show ?thesis using True b K by (simp add: flush_slow.simps[of os i c] Let_def j_def[symmetric])
    next
      case jl: True
      obtain t ts3 where t: "ts2 = t # ts3" using ts(3) jl by (cases ts2) (auto simp: rest_ok_def)
      have jl1: "j < length (co_pending c1)" "p_source (co_pending c1 ! j) = SrcFile" using jl K J(4) by simp_all
      have ro: "rest_ok c1 j (t # ts3)" using ts(3) t by (simp add: rest_ok_def so K)
      have s: "slot_of c1 (co_pending c1 ! j) t" using ro jl1(1) by (auto simp: rest_ok_def Cons_nth_drop_Suc[symmetric])
      have whole: "\<forall>p \<in> set (drop k (co_pending c1)). file_whole c1 p" if "i \<le> k" for k
        using "1.prems"(4) that set_drop_subset_set_drop[of i k "co_pending c"] unfolding so K by (meson subset_iff)
      then have wj: "file_whole c1 (co_pending c1 ! j)" using jl1(1) J(1) by (metis Cons_nth_drop_Suc list.set_intros(1))
      obtain c2 where ff: "flush_file os j c1 = (Inr (), c2)" using flush_file_good[OF "1.prems"(1) s jl1(2) wj] by blast
      have w2: "\<forall>p \<in> set (drop (j + 1) (co_pending c2)). file_whole c2 p"
        using flush_file_whole[OF ff ro jl1(2,1)] whole[of "Suc j"] J(1) by simp
      have r2: "rest_ok c2 (j + 1) ts3" "j + 1 \<le> length (co_pending c2)"
        using flush_file_rest(2)[OF ff ro jl1(2,1)] flush_file_pending[OF ff] jl1(1) by simp_all
      have ne: "[] \<notin> set ts3" using "1.prems"(5) ts(1) t by simp
      show ?thesis using "1.IH"[OF True j_def b[symmetric] refl refl jl1(1) ff[symmetric] refl "1.prems"(1) r2 w2 ne] True b jl1(1) ff
        by (simp add: flush_slow.simps[of os i c] Let_def j_def[symmetric])
    qed
  qed (simp add: flush_slow.simps)
qed

lemma status_text_nonempty: "status_text s \<noteq> []"
  by (simp add: status_text_def)

lemma exchange_text_nonempty: "exchange_text opt fs x \<noteq> []"
  by (simp add: exchange_text_def response_bytes_def head_bytes_def status_text_nonempty split: option.splits)

lemma flush_good:
  assumes "os_good os" "conn_inv c ts" "length (co_pending c) \<le> kMaxPending" "out_good c" "list_all (file_whole c) (co_pending c)" "[] \<notin> set ts"
  shows "\<exists>c'. flush os c = (Inr (), c')"
proof -
  note I = conn_invD[OF assms(2)]
  have ro: "rest_ok c 0 ts" using I(1,4,6) assms(3) by (auto simp: rest_ok_def slot_of_def owner_ok_def world_ok_def)
  have w: "\<forall>p \<in> set (drop 0 (co_pending c)). file_whole c p" using assms(5) by (simp add: list_all_iff)
  have b: "\<exists>c'. flush_buffers os 0 (length (co_pending c)) c = (Inr (), c')" if "next_file 0 c = length (co_pending c)" "co_pending c \<noteq> []"
    using flush_buffers_good[OF assms(1), where c = c and i = 0 and j = "length (co_pending c)" and ts = ts]
      next_file_facts(3)[OF refl, of 0 c] that ro assms(3,6) by (cases ts) (auto simp: rest_ok_def)
  show ?thesis using b flush_slow_good[OF assms(1) ro _ w assms(6)] assms(4) by (auto simp: flush_def out_good_def)
qed

subsection \<open>Example rounds\<close>







subsection \<open>Properties\<close>

text \<open>(C1) A round of up to 64 pipelined exchanges, each with any sequence of calls of its handler on the
  response (status, headers, text, owned, pinned or file body, misuse), puts on the wire the framed
  responses in the order of the requests, and nothing else: all of them when \<open>flush\<close> succeeds and a
  prefix when the socket or a file fails.  A handler that misused the response is answered by the 500
  page.  No body is read after its owner was freed, none is freed twice, and after \<open>reset_round\<close> the
  connection is ready for the next round.\<close>

theorem pipelined_round:
  assumes "conn_ready c" "list_all (exchange_small fs) xs" "length xs \<le> kMaxPending"
    and "out_good (fold (serve opt fs) xs c)" "flush os (fold (serve opt fs) xs c) = (r, c')"
  shows "(\<exists>k. n_wire (co_net c') = n_wire (co_net c) @ take k (concat (map (exchange_text opt fs) xs))) \<and>
    (r = Inr () \<longrightarrow> n_wire (co_net c') = n_wire (co_net c) @ concat (map (exchange_text opt fs) xs)) \<and>
    \<not> w_fault (co_world c') \<and> conn_ready (reset_round c')"
proof -
  have c: "rs_file_fd (co_resp c) = None" "\<not> co_closing c" "co_pending c = []" using assms(1) by (simp_all add: conn_ready_def)
  note S = serves_inv[OF ready_inv[OF assms(1)] c(1,2) assms(2) _ assms(4)]
  have l: "length (co_pending c) + length xs \<le> kMaxPending" using assms(3) c(3) by simp
  have i: "conn_inv (fold (serve opt fs) xs c) (map (exchange_text opt fs) xs)" using S[OF l] by simp
  have w: "wrote (co_net c) (concat (map (exchange_text opt fs) xs)) r (co_net c')" "\<not> w_fault (co_world c')"
    using flush_wrote[OF assms(5) i] S[OF l] by (simp_all add: net_serves)
  then show ?thesis using reset_ready[OF i _ _ flush_keeps_flush[OF assms(5)]] S[OF l] by (auto simp: wrote_def)
qed

theorem pipelined_round_witness:
  "conn_ready (fresh_conn 256 64 16) \<and> list_all (exchange_small demo_files) demo_round \<and>
   n_wire (co_net (snd (flush demo_os (fold (serve demo_options demo_files) demo_round (fresh_conn 256 64 16))))) =
     concat (map (exchange_text demo_options demo_files) demo_round)"
proof -
  have 1: "conn_ready (fresh_conn 256 64 16)" by (rule fresh_ready) simp
  have 2: "list_all (exchange_small demo_files) demo_round" by code_simp
  have 3: "length demo_round \<le> kMaxPending" by code_simp
  have 4: "out_good (fold (serve demo_options demo_files) demo_round (fresh_conn 256 64 16))" by code_simp
  obtain r c' where f: "flush demo_os (fold (serve demo_options demo_files) demo_round (fresh_conn 256 64 16)) = (r, c')" by fastforce
  have 5: "fst (flush demo_os (fold (serve demo_options demo_files) demo_round (fresh_conn 256 64 16))) = Inr ()" by code_simp
  show ?thesis using pipelined_round[OF 1 2 3 4 f] 1 2 5 f by (simp add: fresh_conn_def)
qed

text \<open>(C2) The round is delivered: when no staging buffer overflowed, every write of the socket takes at
  least one byte, every read of a file gives at least one, and the files still have their announced
  size, \<open>flush\<close> returns success with every response of the round on the wire, however the kernel
  cuts the writes.\<close>

theorem round_delivered:
  assumes "conn_ready c" "list_all (exchange_small fs) xs" "length xs \<le> kMaxPending"
    and "c1 = fold (serve opt fs) xs c" "out_good c1" "os_good os" "list_all (file_whole c1) (co_pending c1)"
  shows "\<exists>c'. flush os c1 = (Inr (), c') \<and> n_wire (co_net c') = n_wire (co_net c) @ concat (map (exchange_text opt fs) xs)"
proof -
  have c: "rs_file_fd (co_resp c) = None" "\<not> co_closing c" "co_pending c = []" using assms(1) by (simp_all add: conn_ready_def)
  have l: "length (co_pending c) + length xs \<le> kMaxPending" using assms(3) c(3) by simp
  note S = serves_inv[OF ready_inv[OF assms(1)] c(1,2) assms(2) l assms(5)[unfolded assms(4)], folded assms(4)]
  have i: "conn_inv c1 (map (exchange_text opt fs) xs)" "length (co_pending c1) \<le> kMaxPending" using S by simp_all
  have "[] \<notin> set (map (exchange_text opt fs) xs)" using exchange_text_nonempty by (auto dest: sym)
  then obtain c' where f: "flush os c1 = (Inr (), c')" using flush_good[OF assms(6) i assms(5,7)] by blast
  then show ?thesis using flush_wrote[OF f i] net_serves[of opt fs xs c] assms(4) by (auto simp: wrote_def)
qed

theorem round_delivered_witness:
  "\<exists>c'. flush demo_os (fold (serve demo_options demo_files) demo_round (fresh_conn 256 64 16)) = (Inr (), c') \<and>
     n_wire (co_net c') = concat (map (exchange_text demo_options demo_files) demo_round)"
proof -
  have 1: "conn_ready (fresh_conn 256 64 16)" by (rule fresh_ready) simp
  have 2: "list_all (exchange_small demo_files) demo_round" by code_simp
  have 3: "length demo_round \<le> kMaxPending" by code_simp
  have 4: "out_good (fold (serve demo_options demo_files) demo_round (fresh_conn 256 64 16))" by code_simp
  have 5: "os_good demo_os" by (simp add: os_good_def demo_os_def)
  have 6: "list_all (file_whole (fold (serve demo_options demo_files) demo_round (fresh_conn 256 64 16)))
     (co_pending (fold (serve demo_options demo_files) demo_round (fresh_conn 256 64 16)))" by code_simp
  show ?thesis using round_delivered[OF 1 2 3 refl 4 5 6] by (simp add: fresh_conn_def)
qed



text \<open>(C36) A header name, value or redirect target with a CR or LF silences the round: the staging buffer
  of the headers stays failed, so that \<open>flush\<close> writes nothing of the whole round, neither the 500
  page that replaces the response nor the responses to the other pipelined requests.\<close>

theorem unsafe_header_silences_round:
  assumes "rs_hdr (co_resp c) \<noteq> None" "\<exists>k \<in> set (x_calls x). unsafe_call k"
    and "flush os (fold (serve opt fs) (xs @ x # ys) c) = (r, c')"
  shows "n_wire (co_net c') = n_wire (co_net c)"
proof -
  let ?c = "fold (serve opt fs) xs c"
  have "rs_hdr (co_resp ?c) \<noteq> None" using conn_le_serves[of c opt fs xs] assms(1) by (auto simp: conn_le_def resp_le_def buf_le_def)
  then have "hdr_failed (co_resp (serve opt fs x ?c))" using unsafe_serve_fails assms(2) by blast
  then have "hdr_failed (co_resp (fold (serve opt fs) (xs @ x # ys) c))"
    using conn_le_serves[of "serve opt fs x ?c" opt fs ys] by (auto simp: conn_le_def resp_le_def buf_le_def hdr_failed_def)
  then have "co_net c' = co_net (fold (serve opt fs) (xs @ x # ys) c)"
    using assms(3) by (auto simp: flush_def hdr_failed_def split: if_splits)
  then show ?thesis by (simp only: net_serves)
qed

theorem unsafe_header_silences_round_witness:
  "n_wire (co_net (snd (flush demo_os (fold (serve demo_options demo_files)
     [\<lparr>x_head = False, x_keep_alive = True, x_calls = [Call_body ''ab'']\<rparr>,
      \<lparr>x_head = False, x_keep_alive = True, x_calls = [Call_header Location (''/'' @ CRLF @ ''X: y'')]\<rparr>] (fresh_conn 256 64 16))))) = []"
proof -
  have "\<exists>k \<in> set (x_calls \<lparr>x_head = False, x_keep_alive = True, x_calls = [Call_header Location (''/'' @ CRLF @ ''X: y'')]\<rparr>).
      unsafe_call k" by code_simp
  from unsafe_header_silences_round[OF _ this, where xs = "[\<lparr>x_head = False, x_keep_alive = True, x_calls = [Call_body ''ab'']\<rparr>]"
      and ys = "[]" and c = "fresh_conn 256 64 16" and os = demo_os and opt = demo_options and fs = demo_files]
  show ?thesis by (simp add: fresh_conn_def fresh_response_def prod_eq_iff)
qed



end
