(* ===== verification/Spec2Isabelle.thy ===== *)
theory Spec2Isabelle
  imports Url Headers Router Ws_Session Timer_Wheel Semaphore Ringbuffer Io_Slot Scheduler Rounds
begin

text \<open>
  Verification of cornet, a C++20 coroutine and io\_uring networking framework with an
  HTTP/1.1 server and client and a WebSocket layer.
\<close>

definition development_root :: bool where
  "development_root = True"

lemma development_root_holds: "development_root"
  by (simp add: development_root_def)

end
